(* ===== verification/Prelude.thy ===== *)
theory Prelude
  imports Main "HOL-Library.Word" "HOL-Library.List_Lexorder" "HOL-Library.Sublist"
begin

text \<open>
  Shared vocabulary of the development: byte strings and machine integers, the \<open>Result\<close>
  plumbing of the source (\<open>?\<close> and \<open>map_err\<close>), and the fixed-width integer encodings of
  the Rust standard library (\<open>to_be_bytes\<close>, \<open>from_be_bytes\<close> and their little-endian twins)
  with their round trips and the fact that big-endian encoding preserves the order.
  Byte strings are ordered lexicographically, a proper prefix first, which is how both Rust
  slices and LMDB keys compare.
\<close>

named_theorems result_simps \<open>rules that compute with results\<close>

type_synonym u8 = "8 word"
type_synonym u16 = "16 word"
type_synonym u32 = "32 word"
type_synonym u64 = "64 word"
type_synonym bytes = "u8 list"

text \<open>The largest \<open>usize\<close> of a 64-bit target; lengths and limits are natural numbers below it.\<close>

definition usize_max :: nat where
  "usize_max = 2 ^ 64 - 1"


section \<open>Results\<close>

text \<open>\<open>and_then r f\<close> is \<open>f(r?)\<close>: the first error ends the computation.\<close>

definition and_then :: "'e + 'a \<Rightarrow> ('a \<Rightarrow> 'e + 'b) \<Rightarrow> 'e + 'b" where
  "and_then r f = (case r of Inl e \<Rightarrow> Inl e | Inr x \<Rightarrow> f x)"

definition map_err :: "('e \<Rightarrow> 'f) \<Rightarrow> 'e + 'a \<Rightarrow> 'f + 'a" where
  "map_err g r = (case r of Inl e \<Rightarrow> Inl (g e) | Inr x \<Rightarrow> Inr x)"

definition map_ok :: "('a \<Rightarrow> 'b) \<Rightarrow> 'e + 'a \<Rightarrow> 'e + 'b" where
  "map_ok g r = (case r of Inl e \<Rightarrow> Inl e | Inr x \<Rightarrow> Inr (g x))"

definition is_ok :: "'e + 'a \<Rightarrow> bool" where
  "is_ok r = (case r of Inl _ \<Rightarrow> False | Inr _ \<Rightarrow> True)"

lemma and_then_simps [simp, result_simps]:
  "and_then (Inl e) f = Inl e" "and_then (Inr x) f = f x"
  by (simp_all add: and_then_def)

lemma map_err_simps [simp, result_simps]:
  "map_err g (Inl e) = Inl (g e)" "map_err g (Inr x) = Inr x"
  by (simp_all add: map_err_def)

lemma map_ok_simps [simp, result_simps]:
  "map_ok h (Inl e) = Inl e" "map_ok h (Inr x) = Inr (h x)"
  by (simp_all add: map_ok_def)

lemma is_ok_simps [simp, result_simps]:
  "\<not> is_ok (Inl e)" "is_ok (Inr x)"
  by (simp_all add: is_ok_def)

lemma is_ok_iff: "is_ok r \<longleftrightarrow> (\<exists>x. r = Inr x)"
  by (cases r) auto

lemma and_then_eq_Inr [result_simps]:
  "and_then r f = Inr y \<longleftrightarrow> (\<exists>x. r = Inr x \<and> f x = Inr y)"
  by (cases r) auto

lemma map_err_eq_Inr [simp, result_simps]: "map_err g r = Inr y \<longleftrightarrow> r = Inr y"
  by (cases r) auto

lemma Inr_eq_map_err [simp, result_simps]: "Inr y = map_err g r \<longleftrightarrow> r = Inr y"
  by (cases r) auto

lemma map_ok_eq_Inr [simp, result_simps]: "map_ok h r = Inr y \<longleftrightarrow> (\<exists>x. r = Inr x \<and> y = h x)"
  by (cases r) auto

lemma and_then_split: "P (and_then r f) \<longleftrightarrow> (\<forall>e. r = Inl e \<longrightarrow> P (Inl e)) \<and> (\<forall>x. r = Inr x \<longrightarrow> P (f x))"
  by (cases r) auto


section \<open>Panics and checked arithmetic\<close>

text \<open>
  A computation that may panic. Rust's \<open>+\<close> and \<open>*\<close> panic on overflow when the crate is built
  with overflow checks (the default of debug builds) and wrap around when it is not (the default
  of release builds); the workspace sets neither, so both builds are modelled, \<open>checks\<close> saying
  which one it is.
\<close>

datatype 'a exec = Panic | Return 'a

fun exec_bind :: "'a exec \<Rightarrow> ('a \<Rightarrow> 'b exec) \<Rightarrow> 'b exec" where
  "exec_bind Panic f = Panic"
| "exec_bind (Return x) f = f x"

definition add_u64 :: "bool \<Rightarrow> u64 \<Rightarrow> u64 \<Rightarrow> u64 exec" where
  "add_u64 checks a b =
     (if checks \<and> 2 ^ 64 \<le> unat a + unat b then Panic else Return (a + b))"

definition mul_u64 :: "bool \<Rightarrow> u64 \<Rightarrow> u64 \<Rightarrow> u64 exec" where
  "mul_u64 checks a b =
     (if checks \<and> 2 ^ 64 \<le> unat a * unat b then Panic else Return (a * b))"

definition saturating_add_u64 :: "u64 \<Rightarrow> u64 \<Rightarrow> u64" where
  "saturating_add_u64 a b = (if 2 ^ 64 \<le> unat a + unat b then - 1 else a + b)"

lemma unat_u64_less [simp]: "unat (w :: u64) < 2 ^ 64"
  using unsigned_less [of w, where ?'a = nat] by simp

lemma exec_bind_eq_Return: "exec_bind x f = Return y \<longleftrightarrow> (\<exists>z. x = Return z \<and> f z = Return y)"
  by (cases x) auto

lemma add_u64_exact:
  "unat a + unat b < 2 ^ 64 \<Longrightarrow> add_u64 checks a b = Return (a + b) \<and> unat (a + b) = unat a + unat b"
  by (simp add: add_u64_def unat_word_ariths)

lemma mul_u64_exact:
  "unat a * unat b < 2 ^ 64 \<Longrightarrow> mul_u64 checks a b = Return (a * b) \<and> unat (a * b) = unat a * unat b"
  by (simp add: mul_u64_def unat_word_ariths)


section \<open>Fixed-width integers as bytes\<close>

fun be_digits :: "nat \<Rightarrow> nat \<Rightarrow> bytes" where
  "be_digits 0 x = []"
| "be_digits (Suc n) x = word_of_nat (x div 256 ^ n) # be_digits n (x mod 256 ^ n)"

fun be_value :: "bytes \<Rightarrow> nat" where
  "be_value [] = 0"
| "be_value (b # bs) = unat b * 256 ^ length bs + be_value bs"

definition to_be_bytes :: "u64 \<Rightarrow> bytes" where
  "to_be_bytes w = be_digits 8 (unat w)"

definition from_be_bytes :: "bytes \<Rightarrow> u64" where
  "from_be_bytes bs = word_of_nat (be_value bs)"

definition to_le_bytes :: "u64 \<Rightarrow> bytes" where
  "to_le_bytes w = rev (to_be_bytes w)"

definition from_le_bytes :: "bytes \<Rightarrow> u64" where
  "from_le_bytes bs = from_be_bytes (rev bs)"

lemma length_be_digits [simp]: "length (be_digits n x) = n"
  by (induction n arbitrary: x) auto

lemma unat_byte_less [simp]: "unat (b :: u8) < 256"
  using unsigned_less [of b, where ?'a = nat] by simp

lemma be_value_bound: "be_value bs < 256 ^ length bs"
proof (induction bs)
  case (Cons b bs)
  have "unat b * 256 ^ length bs + be_value bs < (unat b + 1) * 256 ^ length bs"
    using Cons by simp
  also have "\<dots> \<le> 256 * 256 ^ length bs"
    using unat_byte_less [of b] by (intro mult_right_mono) linarith+
  finally show ?case by simp
qed simp

lemma unat_word_of_nat_byte: "x < 256 \<Longrightarrow> unat (word_of_nat x :: u8) = x"
  by (simp add: unat_of_nat)

lemma be_value_be_digits: "x < 256 ^ n \<Longrightarrow> be_value (be_digits n x) = x"
proof (induction n arbitrary: x)
  case (Suc n)
  have "x div 256 ^ n < 256"
    using Suc.prems by (simp add: less_mult_imp_div_less)
  then show ?case
    using Suc.IH [of "x mod 256 ^ n"] by (simp add: unat_word_of_nat_byte ) (rule div_mult_mod_eq)
qed simp

lemma be_digits_be_value: "be_digits (length bs) (be_value bs) = bs"
proof (induction bs)
  case (Cons b bs)
  have "be_value bs < 256 ^ length bs" by (rule be_value_bound)
  then show ?case using Cons by simp
qed simp

lemma be_value_strict_mono:
  "length xs = length ys \<Longrightarrow> xs < ys \<Longrightarrow> be_value xs < be_value ys"
proof (induction xs ys rule: list_induct2)
  case (Cons x xs y ys)
  consider "x < y" | "x = y" "xs < ys" using Cons.prems by auto
  then show ?case
  proof cases
    case 1
    have "be_value (x # xs) < (unat x + 1) * 256 ^ length xs"
      using be_value_bound [of xs] by simp
    also have "\<dots> \<le> unat y * 256 ^ length xs"
      using 1 by (intro mult_right_mono) (simp_all add: word_less_nat_alt)
    finally show ?thesis using Cons.hyps by simp
  qed (use Cons in simp)
qed simp

lemma be_value_less_iff:
  assumes "length xs = length ys"
  shows "be_value xs < be_value ys \<longleftrightarrow> xs < ys"
  using be_value_strict_mono [OF assms] be_value_strict_mono [OF assms [symmetric]]
  by (metis less_asym linorder_less_linear)

lemma length_to_be_bytes [simp]: "length (to_be_bytes w) = 8"
  by (simp add: to_be_bytes_def)

lemma to_be_bytes_neq_Nil [simp]: "to_be_bytes w \<noteq> []"
  using length_to_be_bytes [of w] by fastforce

lemma be_value_to_be_bytes: "be_value (to_be_bytes w) = unat w"
proof -
  have "unat w < 256 ^ 8"
    using unsigned_less [of w, where ?'a = nat] by simp
  then show ?thesis by (simp only: to_be_bytes_def be_value_be_digits)
qed

lemma from_to_be_bytes [simp]: "from_be_bytes (to_be_bytes w) = w"
  by (simp add: from_be_bytes_def be_value_to_be_bytes)

lemma to_from_be_bytes: "length bs = 8 \<Longrightarrow> to_be_bytes (from_be_bytes bs) = bs"
  using be_value_bound [of bs] be_digits_be_value [of bs]
  by (simp add: to_be_bytes_def from_be_bytes_def unat_of_nat)

lemma to_be_bytes_inject [simp]: "to_be_bytes a = to_be_bytes b \<longleftrightarrow> a = b"
  by (metis from_to_be_bytes)

text \<open>Why log keys are big-endian: byte order is numeric order.\<close>

lemma to_be_bytes_less_iff [simp]: "to_be_bytes a < to_be_bytes b \<longleftrightarrow> a < b"
  using be_value_less_iff [of "to_be_bytes a" "to_be_bytes b"]
  by (simp add: be_value_to_be_bytes word_less_nat_alt)

lemma to_be_bytes_le_iff [simp]: "to_be_bytes a \<le> to_be_bytes b \<longleftrightarrow> a \<le> b"
  by (metis linorder_not_less to_be_bytes_less_iff)

lemma from_to_le_bytes [simp]: "from_le_bytes (to_le_bytes w) = w"
  by (simp add: from_le_bytes_def to_le_bytes_def)

lemma length_to_le_bytes [simp]: "length (to_le_bytes w) = 8"
  by (simp add: to_le_bytes_def)

end
