(* ===== verification/Wire.thy ===== *)
theory Wire
  imports Prelude
begin

text \<open>
  The value envelope of \<open>wire/values.rs\<close>: one tag byte, for a TTL value the expiry in eight
  big-endian bytes, then the payload. The lemmas show that decoding and encoding are inverse to
  each other, in both directions, and say exactly which byte strings are rejected.
\<close>

definition TAG_RAW :: u8 where
  "TAG_RAW = 0"

definition TAG_TTL :: u8 where
  "TAG_TTL = 1"

definition TTL_HEADER_LEN :: nat where
  "TTL_HEADER_LEN = 1 + 8"

datatype wire_value = Raw bytes | Ttl (expires_at: u64) (payload: bytes)

definition encode_raw :: "bytes \<Rightarrow> bytes" where
  "encode_raw p = TAG_RAW # p"

definition encode_ttl :: "bytes \<Rightarrow> u64 option \<Rightarrow> bytes" where
  "encode_ttl p expiry =
     (case expiry of
        None \<Rightarrow> encode_raw p
      | Some ts \<Rightarrow> TAG_TTL # to_be_bytes ts @ p)"

definition decode :: "bytes \<Rightarrow> unit + wire_value" where
  "decode bs =
     (case bs of
        [] \<Rightarrow> Inl ()
      | tag # rest \<Rightarrow>
          if tag = TAG_RAW then Inr (Raw rest)
          else if tag = TAG_TTL then
            if length bs < TTL_HEADER_LEN then Inl ()
            else Inr (Ttl (from_be_bytes (take 8 (drop 1 bs))) (drop TTL_HEADER_LEN bs))
          else Inl ())"

lemmas wire_defs = TAG_RAW_def TAG_TTL_def TTL_HEADER_LEN_def encode_raw_def encode_ttl_def

text \<open>The encoder a decoded value came from.\<close>

fun encode_value :: "wire_value \<Rightarrow> bytes" where
  "encode_value (Raw p) = encode_raw p"
| "encode_value (Ttl ts p) = encode_ttl p (Some ts)"

lemma decode_encode_raw [simp]: "decode (encode_raw p) = Inr (Raw p)"
  by (simp add: decode_def wire_defs)

lemma decode_encode_ttl [simp]: "decode (encode_ttl p (Some ts)) = Inr (Ttl ts p)"
  by (simp add: decode_def wire_defs)

lemma encode_raw_neq_ttl [simp]: "encode_raw p \<noteq> encode_ttl q (Some ts)"
  by (simp add: wire_defs)

lemma encode_raw_inject [simp]: "encode_raw p = encode_raw q \<longleftrightarrow> p = q"
  by (simp add: wire_defs)

lemma encode_ttl_inject [simp]:
  "encode_ttl p (Some a) = encode_ttl q (Some b) \<longleftrightarrow> p = q \<and> a = b"
  by (metis decode_encode_ttl sum.inject(2) wire_value.inject(2))

lemma decode_eq_Raw: "decode bs = Inr (Raw p) \<longleftrightarrow> bs = encode_raw p"
  by (auto simp: decode_def wire_defs split: list.splits if_splits)

lemma decode_eq_Ttl: "decode bs = Inr (Ttl ts p) \<longleftrightarrow> bs = encode_ttl p (Some ts)"
proof
  assume dec: "decode bs = Inr (Ttl ts p)"
  then obtain rest where bs: "bs = TAG_TTL # rest" and len: "8 \<le> length rest"
    and ts: "ts = from_be_bytes (take 8 rest)" and p: "p = drop 8 rest"
    by (auto simp: decode_def wire_defs split: list.splits if_splits)
  have "to_be_bytes ts = take 8 rest"
    using len ts by (simp add: to_from_be_bytes)
  then show "bs = encode_ttl p (Some ts)"
    using bs p by (simp add: encode_ttl_def)
qed simp

text \<open>The wire envelope is a faithful encoding: a byte string decodes to a value exactly when
  it is that value's encoding, so encode-then-decode and decode-then-encode are both the
  identity, no two values share an encoding, and no payload is read as a TTL header.\<close>

theorem decode_iff_encode: "decode bs = Inr v \<longleftrightarrow> bs = encode_value v"
  by (cases v) (simp_all add: decode_eq_Raw decode_eq_Ttl)

text \<open>\<open>decode\<close> rejects exactly the empty string, the strings with an unknown tag byte, and
  the TTL strings too short to hold the eight bytes of the expiry; it never panics on them.\<close>

theorem decode_rejects:
  "decode bs = Inl () \<longleftrightarrow>
     bs = [] \<or> (hd bs \<noteq> TAG_RAW \<and> hd bs \<noteq> TAG_TTL) \<or> (hd bs = TAG_TTL \<and> length bs < 9)"
  by (auto simp: decode_def wire_defs split: list.splits)

end
