(* ===== verification/Lmdb.thy ===== *)
theory Lmdb
  imports Prelude
begin

text \<open>
  The boundary to LMDB, which the program reaches through the third-party crate \<open>heed\<close>.
  LMDB is not part of the repository, so it is a parameter: \<open>lmdb_api\<close> is the record of the
  calls the source makes, and every definition of the model that touches storage takes such a
  record. The locale \<open>lmdb\<close> states what the documentation of LMDB promises about calls that
  return (a read transaction is a snapshot, a commit makes all writes of its transaction visible
  at once, iteration is in key order, an unsupported key size is refused); any call may fail.
  The locale \<open>lmdb_live\<close> adds that calls with admissible arguments do not fail. Both are stated
  through \<open>lmdb_view\<close>, which reads an environment or a transaction as one finite map per named
  database. The client lemmas of the state machine and of the write-ahead log are proved inside
  these locales.
\<close>


section \<open>Types of the boundary\<close>

text \<open>The source only ever prints a \<open>heed::Error\<close>, so it is its message.\<close>

type_synonym heed_error = string

datatype bound = Included bytes | Excluded bytes | Unbounded

record ('e, 't) lmdb_api =
  open_env :: "'e option \<Rightarrow> u64 \<Rightarrow> nat \<Rightarrow> heed_error + 'e"
    \<comment> \<open>\<open>EnvOpenOptions::open\<close>: the data file found (if any), \<open>map_size\<close>, \<open>max_dbs\<close>\<close>
  copy_env :: "'e \<Rightarrow> 'e option \<Rightarrow> heed_error + 'e"
    \<comment> \<open>\<open>copy_to_file\<close>: the environment and the target file (if it exists)\<close>
  read_txn :: "'e \<Rightarrow> heed_error + 't"
  write_txn :: "'e \<Rightarrow> heed_error + 't"
  txn_commit :: "'t \<Rightarrow> heed_error + 'e"
  create_database :: "'t \<Rightarrow> string \<Rightarrow> heed_error + 't"
  open_database :: "'t \<Rightarrow> string \<Rightarrow> heed_error + bool"
  db_get :: "'t \<Rightarrow> string \<Rightarrow> bytes \<Rightarrow> heed_error + bytes option"
  db_put :: "'t \<Rightarrow> string \<Rightarrow> bytes \<Rightarrow> bytes \<Rightarrow> heed_error + 't"
  db_delete :: "'t \<Rightarrow> string \<Rightarrow> bytes \<Rightarrow> heed_error + bool \<times> 't"
  db_clear :: "'t \<Rightarrow> string \<Rightarrow> heed_error + 't"
  db_range :: "'t \<Rightarrow> string \<Rightarrow> bound \<Rightarrow> bound \<Rightarrow> heed_error + (heed_error + bytes \<times> bytes) list"
  db_iter :: "'t \<Rightarrow> string \<Rightarrow> heed_error + (heed_error + bytes \<times> bytes) list"
  db_last :: "'t \<Rightarrow> string \<Rightarrow> heed_error + (bytes \<times> bytes) option"
  db_delete_range :: "'t \<Rightarrow> string \<Rightarrow> bound \<Rightarrow> bound \<Rightarrow> heed_error + nat \<times> 't"
  db_len :: "'t \<Rightarrow> string \<Rightarrow> heed_error + u64"
  max_key_size :: nat
    \<comment> \<open>\<open>mdb_env_get_maxkeysize\<close>, 511 unless LMDB is built otherwise\<close>

record ('e, 't) lmdb_view =
  env_view :: "'e \<Rightarrow> string \<Rightarrow> bytes \<rightharpoonup> bytes"
  env_dbs :: "'e \<Rightarrow> string set"
  txn_view :: "'t \<Rightarrow> string \<Rightarrow> bytes \<rightharpoonup> bytes"
  txn_dbs :: "'t \<Rightarrow> string set"


section \<open>Key ranges and ordered contents\<close>

fun after_start :: "bound \<Rightarrow> bytes \<Rightarrow> bool" where
  "after_start (Included a) k \<longleftrightarrow> a \<le> k"
| "after_start (Excluded a) k \<longleftrightarrow> a < k"
| "after_start Unbounded k \<longleftrightarrow> True"

fun before_end :: "bound \<Rightarrow> bytes \<Rightarrow> bool" where
  "before_end (Included b) k \<longleftrightarrow> k \<le> b"
| "before_end (Excluded b) k \<longleftrightarrow> k < b"
| "before_end Unbounded k \<longleftrightarrow> True"

definition in_bounds :: "bound \<Rightarrow> bound \<Rightarrow> bytes \<Rightarrow> bool" where
  "in_bounds lo hi k \<longleftrightarrow> after_start lo k \<and> before_end hi k"

definition empty_start :: "bound \<Rightarrow> bool" where
  "empty_start lo \<longleftrightarrow> lo = Included [] \<or> lo = Excluded []"

definition admissible_key :: "('e, 't, 'x) lmdb_api_scheme \<Rightarrow> bytes \<Rightarrow> bool" where
  "admissible_key L k \<longleftrightarrow> k \<noteq> [] \<and> length k \<le> max_key_size L"

text \<open>The contents of a database in key order.\<close>

definition items :: "(bytes \<rightharpoonup> bytes) \<Rightarrow> (bytes \<times> bytes) list" where
  "items m = map (\<lambda>k. (k, the (m k))) (sorted_list_of_set (dom m))"

definition range_items :: "(bytes \<rightharpoonup> bytes) \<Rightarrow> bound \<Rightarrow> bound \<Rightarrow> (bytes \<times> bytes) list" where
  "range_items m lo hi = filter (\<lambda>(k, _). in_bounds lo hi k) (items m)"

definition last_item :: "(bytes \<rightharpoonup> bytes) \<Rightarrow> (bytes \<times> bytes) option" where
  "last_item m = (if items m = [] then None else Some (last (items m)))"

text \<open>An iteration yields the given pairs, unless a failing read cuts it short.\<close>

definition reads_as :: "(heed_error + bytes \<times> bytes) list \<Rightarrow> (bytes \<times> bytes) list \<Rightarrow> bool" where
  "reads_as its xs \<longleftrightarrow>
     its = map Inr xs \<or> (\<exists>n e rest. its = map Inr (take n xs) @ Inl e # rest)"

abbreviation sorted_keys :: "(bytes \<times> bytes) list \<Rightarrow> bool" where
  "sorted_keys xs \<equiv> sorted_wrt (<) (map fst xs)"

lemma map_fst_items: "map fst (items m) = sorted_list_of_set (dom m)"
  by (simp add: items_def comp_def)

lemma sorted_items: "sorted_keys (items m)"
  using strict_sorted_list_of_set [of "dom m"] by (simp only: map_fst_items)

lemma set_items: "finite (dom m) \<Longrightarrow> (k, v) \<in> set (items m) \<longleftrightarrow> m k = Some v"
  by (auto simp: items_def dom_def)

lemma set_range_items:
  "finite (dom m) \<Longrightarrow> (k, v) \<in> set (range_items m lo hi) \<longleftrightarrow> m k = Some v \<and> in_bounds lo hi k"
  by (auto simp: range_items_def set_items)

lemma map_fst_filter_key: "map fst (filter (\<lambda>(k, _). P k) xs) = filter P (map fst xs)"
  by (induction xs) auto

lemma sorted_filter_keys: "sorted_keys xs \<Longrightarrow> sorted_keys (filter (\<lambda>(k, _). P k) xs)"
  by (simp only: map_fst_filter_key sorted_wrt_filter)

lemma sorted_range_items: "sorted_keys (range_items m lo hi)"
  unfolding range_items_def by (rule sorted_filter_keys) (rule sorted_items)

lemma length_items: "finite (dom m) \<Longrightarrow> length (items m) = card (dom m)"
  by (simp add: items_def)

lemma items_empty [simp]: "items Map.empty = []"
  by (simp add: items_def)

text \<open>A sorted association list is the ordered contents of the map it stands for.\<close>

lemma items_map_of:
  assumes "sorted_keys xs"
  shows "items (map_of xs) = xs"
proof -
  have distinct: "distinct (map fst xs)"
    using assms by (simp add: strict_sorted_iff)
  have "sorted_list_of_set (dom (map_of xs)) = map fst xs"
    using assms distinct
    by (metis dom_map_of_conv_image_fst list.set_map sorted_list_of_set.idem_if_sorted_distinct
        strict_sorted_iff)
  then have "items (map_of xs) = map (\<lambda>k. (k, the (map_of xs k))) (map fst xs)"
    by (simp add: items_def)
  also have "\<dots> = map id xs"
    unfolding map_map by (rule map_cong) (auto simp: map_of_is_SomeI [OF distinct])
  finally show ?thesis by simp
qed

lemma range_items_split:
  "range_items m lo hi =
     takeWhile (\<lambda>(k, _). before_end hi k) (filter (\<lambda>(k, _). after_start lo k) (items m))"
proof -
  have mono: "before_end hi j" if "before_end hi k" "j < k" for j k
    using that by (cases hi) auto
  have "filter (\<lambda>(k, _). before_end hi k) ys = takeWhile (\<lambda>(k, _). before_end hi k) ys"
    if "sorted_keys ys" for ys
    using that
  proof (induction ys)
    case (Cons y ys)
    obtain k v where y: "y = (k, v)" by (cases y)
    show ?case
    proof (cases "before_end hi k")
      case False
      then have "\<forall>j \<in> set (map fst ys). \<not> before_end hi j"
        using Cons.prems mono y by auto
      then show ?thesis using False y by (fastforce simp: filter_empty_conv)
    qed (use Cons y in simp)
  qed simp
  from this [OF sorted_filter_keys [OF sorted_items]]
  have "filter (\<lambda>(k, _). before_end hi k) (filter (\<lambda>(k, _). after_start lo k) (items m)) =
      takeWhile (\<lambda>(k, _). before_end hi k) (filter (\<lambda>(k, _). after_start lo k) (items m))" .
  then show ?thesis
    by (simp add: range_items_def in_bounds_def case_prod_unfold conj_commute)
qed

lemma last_item_None: "finite (dom m) \<Longrightarrow> last_item m = None \<longleftrightarrow> m = Map.empty"
  by (simp add: last_item_def items_def)

lemma sorted_le_last: "sorted xs \<Longrightarrow> x \<in> set xs \<Longrightarrow> x \<le> last xs" for x :: "'a :: linorder"
  by (induction xs) auto

lemma last_item_Some:
  assumes "finite (dom m)" "last_item m = Some (k, v)"
  shows "m k = Some v" "\<And>j. m j \<noteq> None \<Longrightarrow> j \<le> k"
proof -
  have ne: "items m \<noteq> []" and last: "last (items m) = (k, v)"
    using assms(2) by (auto simp: last_item_def split: if_splits)
  show "m k = Some v"
    using assms(1) last_in_set [OF ne] last set_items by metis
  show "j \<le> k" if "m j \<noteq> None" for j
  proof -
    have "sorted (map fst (items m))" using sorted_items strict_sorted_iff by blast
    moreover have "j \<in> set (map fst (items m))"
      using that assms(1) by (auto simp: map_fst_items)
    moreover have "last (map fst (items m)) = k" using ne last by (simp add: last_map)
    ultimately show ?thesis using sorted_le_last by metis
  qed
qed


section \<open>The documented laws\<close>

text \<open>
  What a returning call has done. A write transaction works on a private snapshot; \<open>commit\<close>
  installs it as a whole, and a transaction that is dropped leaves the environment as it was,
  which needs no law: the environment is only ever replaced by the result of a commit.
\<close>

locale lmdb =
  fixes L :: "('e, 't) lmdb_api"
    and V :: "('e, 't) lmdb_view"
  assumes finite_txn: "finite (dom (txn_view V t d))"
    and finite_env: "finite (dom (env_view V e d))"
    and open_env_new: "open_env L None sz n = Inr e \<Longrightarrow>
      env_view V e = (\<lambda>_. Map.empty) \<and> env_dbs V e = {}"
    and open_env_old: "open_env L (Some e0) sz n = Inr e \<Longrightarrow>
      env_view V e = env_view V e0 \<and> env_dbs V e = env_dbs V e0"
    and copy_env: "copy_env L e old = Inr e' \<Longrightarrow>
      env_view V e' = env_view V e \<and> env_dbs V e' = env_dbs V e"
    and read_txn: "read_txn L e = Inr t \<Longrightarrow>
      txn_view V t = env_view V e \<and> txn_dbs V t = env_dbs V e"
    and write_txn: "write_txn L e = Inr t \<Longrightarrow>
      txn_view V t = env_view V e \<and> txn_dbs V t = env_dbs V e"
    and commit: "txn_commit L t = Inr e \<Longrightarrow>
      env_view V e = txn_view V t \<and> env_dbs V e = txn_dbs V t"
    and create: "create_database L t d = Inr t' \<Longrightarrow>
      txn_view V t' = txn_view V t \<and> txn_dbs V t' = insert d (txn_dbs V t)"
    and open_db: "open_database L t d = Inr b \<Longrightarrow> b \<longleftrightarrow> d \<in> txn_dbs V t"
    and get: "db_get L t d k = Inr r \<Longrightarrow> r = txn_view V t d k"
    and put: "db_put L t d k v = Inr t' \<Longrightarrow>
      txn_view V t' = (txn_view V t)(d := (txn_view V t d)(k \<mapsto> v)) \<and>
      txn_dbs V t' = txn_dbs V t"
    and put_refused: "\<not> admissible_key L k \<Longrightarrow> \<exists>e. db_put L t d k v = Inl e"
    and delete: "db_delete L t d k = Inr (b, t') \<Longrightarrow>
      txn_view V t' = (txn_view V t)(d := (txn_view V t d)(k := None)) \<and>
      txn_dbs V t' = txn_dbs V t"
    and clear: "db_clear L t d = Inr t' \<Longrightarrow>
      txn_view V t' = (txn_view V t)(d := Map.empty) \<and> txn_dbs V t' = txn_dbs V t"
    and range: "db_range L t d lo hi = Inr its \<Longrightarrow>
      reads_as its (range_items (txn_view V t d) lo hi)"
    and range_refused: "empty_start lo \<Longrightarrow> db_range L t d lo hi = Inr its \<Longrightarrow> \<exists>e rest. its = Inl e # rest"
    and iter: "db_iter L t d = Inr its \<Longrightarrow> reads_as its (items (txn_view V t d))"
    and last: "db_last L t d = Inr p \<Longrightarrow> p = last_item (txn_view V t d)"
    and delete_range: "db_delete_range L t d lo hi = Inr (removed, t') \<Longrightarrow>
      txn_view V t' = (txn_view V t)
        (d := (\<lambda>k. if in_bounds lo hi k then None else txn_view V t d k)) \<and>
      txn_dbs V t' = txn_dbs V t"
    and len: "db_len L t d = Inr c \<Longrightarrow> c = word_of_nat (card (dom (txn_view V t d)))"

text \<open>
  Calls with admissible arguments succeed: the disk is healthy, the map is large enough, a
  reader slot is free.
\<close>

locale lmdb_live = lmdb L V
  for L :: "('e, 't) lmdb_api" and V :: "('e, 't) lmdb_view" +
  assumes key_size: "511 \<le> max_key_size L"
    and open_env_ok: "\<exists>e. open_env L f sz n = Inr e"
    and copy_env_ok: "\<exists>e'. copy_env L e old = Inr e'"
    and read_txn_ok: "\<exists>t. read_txn L e = Inr t"
    and write_txn_ok: "\<exists>t. write_txn L e = Inr t"
    and commit_ok: "\<exists>e. txn_commit L t = Inr e"
    and create_ok: "\<exists>t'. create_database L t d = Inr t'"
    and open_db_ok: "\<exists>b. open_database L t d = Inr b"
    and get_ok: "admissible_key L k \<Longrightarrow> \<exists>r. db_get L t d k = Inr r"
    and put_ok: "admissible_key L k \<Longrightarrow> \<exists>t'. db_put L t d k v = Inr t'"
    and delete_ok: "admissible_key L k \<Longrightarrow> \<exists>b t'. db_delete L t d k = Inr (b, t')"
    and clear_ok: "\<exists>t'. db_clear L t d = Inr t'"
    and range_ok: "\<not> empty_start lo \<Longrightarrow>
      db_range L t d lo hi = Inr (map Inr (range_items (txn_view V t d) lo hi))"
    and iter_ok: "db_iter L t d = Inr (map Inr (items (txn_view V t d)))"
    and last_ok: "\<exists>r. db_last L t d = Inr r"
    and delete_range_ok: "\<not> empty_start lo \<Longrightarrow> \<exists>n t'. db_delete_range L t d lo hi = Inr (n, t')"
    and len_ok: "\<exists>n. db_len L t d = Inr n"

end
