(* ===== verification/Engine.thy ===== *)
theory Engine
  imports Prelude
begin

text \<open>
  The types the program shares with \<open>d-engine\<close>, the Raft engine it embeds. The crate is not part
  of the repository; the constructors and fields below are the ones the source names, with a
  catch-all constructor where the source matches with a wildcard. The last section is
  \<open>error.rs\<close>, the error type of the crate itself.
\<close>

section \<open>Log entries and commands\<close>

record log_id =
  log_index :: u64
  log_term :: u64

datatype batch_op = BatchInsert bytes bytes | BatchDelete bytes

datatype command =
    Insert bytes bytes "u64 option"
  | Delete bytes
  | CompareAndSwap bytes "bytes option" bytes
  | Batch "batch_op list"
  | Noop

record apply_entry =
  entry_index :: u64
  entry_term :: u64
  entry_command :: command

text \<open>\<open>ApplyResult::success(index)\<close> and \<open>ApplyResult::failure(index)\<close>.\<close>

datatype apply_result = ApplySuccess u64 | ApplyFailure u64

record snapshot_metadata =
  last_included :: "log_id option"
  checksum :: bytes

record scan_result =
  scan_entries :: "(bytes \<times> bytes) list"
  scan_revision :: u64


section \<open>Errors of the engine\<close>

datatype storage_error =
    StateMachineError string
  | DbError string
  | SerializationError string
  | BincodeError string

datatype engine_error = Fatal string | StorageErr storage_error | OtherEngineError string

datatype error_code =
    NotLeader | InvalidRequest | ClusterUnavailable | ProposeFailed | RetryRequired
  | TermOutdated | StaleOperation | RateLimited | Uncategorized | InvalidResponse
  | OtherCode nat

record leader_hint =
  hint_leader_id :: u32
  hint_address :: string

datatype client_api_error =
    Network error_code string "u64 option" "leader_hint option"
  | Business error_code string "string option"
  | Protocol error_code string
  | OtherClientError string


section \<open>Errors of the crate\<close>

type_synonym io_error = string
type_synonym config_error = string

datatype error =
    EngineErr engine_error
  | Client client_api_error
  | Lmdb string
  | Io io_error
  | KeyTooLarge nat
  | ValueTooLarge nat
  | Storage string
  | Path string
  | ConfigError config_error

text \<open>The \<open>Display\<close> of the foreign error types is a parameter.\<close>

record foreign_display =
  show_engine_error :: "engine_error \<Rightarrow> string"
  show_client_error :: "client_api_error \<Rightarrow> string"

fun show_nat :: "nat \<Rightarrow> string" where
  "show_nat n =
     (if n < 10 then [char_of (48 + n)] else show_nat (n div 10) @ [char_of (48 + n mod 10)])"

declare show_nat.simps [simp del]

fun error_to_string :: "foreign_display \<Rightarrow> error \<Rightarrow> string" where
  "error_to_string D (EngineErr e) = ''engine: '' @ show_engine_error D e"
| "error_to_string D (Client e) = ''client: '' @ show_client_error D e"
| "error_to_string D (Lmdb m) = ''lmdb: '' @ m"
| "error_to_string D (Io m) = ''io: '' @ m"
| "error_to_string D (KeyTooLarge n) = ''key too large: '' @ show_nat n @ '' bytes (max 512)''"
| "error_to_string D (ValueTooLarge n) = ''value too large: '' @ show_nat n @ '' bytes (max 1MB)''"
| "error_to_string D (Storage m) = ''storage: '' @ m"
| "error_to_string D (Path m) = ''path is not valid UTF-8: '' @ m"
| "error_to_string D (ConfigError m) = ''config_error: '' @ m"

text \<open>\<open>impl From<Error> for d_engine::Error\<close>.\<close>

definition engine_error_of :: "foreign_display \<Rightarrow> error \<Rightarrow> engine_error" where
  "engine_error_of D e = Fatal (error_to_string D e)"

end
