(* ===== verification/Config.thy ===== *)
theory Config
  imports Engine
begin

text \<open>
  \<open>config.rs\<close>: the node's configuration, its defaults, and loading it from a file. Parsing the
  file is the work of the third-party crate \<open>config\<close>, so the parsed \<open>[lmdb]\<close> section is an input;
  filling in the serde defaults and scaling the map size is the program's own code.
\<close>

type_synonym path = "string list"

record dlmdb_config =
  data_dir :: path
  map_size_gb :: u64
  max_key_bytes :: nat
  max_value_bytes :: nat

definition default_map_size_gb :: u64 where
  "default_map_size_gb = 10"

definition default_max_key_bytes :: nat where
  "default_max_key_bytes = 512"

definition default_max_value_bytes :: nat where
  "default_max_value_bytes = 1024 * 1024"

definition config_new :: "path \<Rightarrow> dlmdb_config" where
  "config_new data_path =
    \<lparr>data_dir = data_path,
     map_size_gb = 10 * 1024 * 1024 * 1024,
     max_key_bytes = default_max_key_bytes,
     max_value_bytes = default_max_value_bytes\<rparr>"

text \<open>The \<open>[lmdb]\<close> table as parsed: \<open>data_dir\<close> is required, the other keys may be missing.\<close>

record lmdb_table =
  tab_data_dir :: path
  tab_map_size_gb :: "u64 option"
  tab_max_key_bytes :: "nat option"
  tab_max_value_bytes :: "nat option"

record lmdb_file_section =
  sec_data_dir :: path
  sec_map_size_gb :: u64
  sec_max_key_bytes :: nat
  sec_max_value_bytes :: nat

definition or_default :: "'a \<Rightarrow> 'a option \<Rightarrow> 'a" where
  "or_default d x = (case x of None \<Rightarrow> d | Some y \<Rightarrow> y)"

definition deserialize_section :: "lmdb_table \<Rightarrow> lmdb_file_section" where
  "deserialize_section t =
    \<lparr>sec_data_dir = tab_data_dir t,
     sec_map_size_gb = or_default default_map_size_gb (tab_map_size_gb t),
     sec_max_key_bytes = or_default default_max_key_bytes (tab_max_key_bytes t),
     sec_max_value_bytes = or_default default_max_value_bytes (tab_max_value_bytes t)\<rparr>"

text \<open>
  \<open>from_file\<close>: \<open>path_str\<close> is \<open>None\<close> when the path is not UTF-8, \<open>load\<close> is the config crate, and
  \<open>checks\<close> says whether the build traps arithmetic overflow.
\<close>

definition config_from_file ::
  "bool \<Rightarrow> (string \<Rightarrow> config_error + lmdb_table) \<Rightarrow> string option \<Rightarrow> (error + dlmdb_config) exec"
where
  "config_from_file checks load path_str =
    (case path_str of
       None \<Rightarrow> Return (Inl (Path ''path is not valid UTF-8''))
     | Some p \<Rightarrow>
         (case map_ok deserialize_section (load p) of
            Inl e \<Rightarrow> Return (Inl (ConfigError e))
          | Inr root \<Rightarrow>
              exec_bind (mul_u64 checks (sec_map_size_gb root) 1024) (\<lambda>a.
              exec_bind (mul_u64 checks a 1024) (\<lambda>b.
              exec_bind (mul_u64 checks b 1024) (\<lambda>bytes_size.
              Return (Inr
                \<lparr>data_dir = sec_data_dir root,
                 map_size_gb = bytes_size,
                 max_key_bytes = sec_max_key_bytes root,
                 max_value_bytes = sec_max_value_bytes root\<rparr>))))))"


section \<open>Properties\<close>

lemma mul_u64_1024:
  "mul_u64 checks a 1024 = (if checks \<and> 2 ^ 64 \<le> unat a * 1024 then Panic else Return (a * 1024))"
  by (simp add: mul_u64_def)

lemma unat_1024_times:
  "unat a * 1024 < 2 ^ 64 \<Longrightarrow> unat (a * 1024 :: u64) = unat a * 1024"
  using mul_u64_exact [of a 1024 True] by simp

text \<open>The map size is the configured number of GiB in bytes, in both builds, exactly when that
  fits 64 bits (below 2^34 GiB). A larger number panics in a build with overflow checks; without
  them the product wraps and a smaller map, down to zero bytes, is accepted.\<close>

theorem config_map_size:
  assumes "load p = Inr t"
  defines "g \<equiv> unat (sec_map_size_gb (deserialize_section t))"
  shows "(g < 2 ^ 34 \<longrightarrow> (\<exists>c. config_from_file checks load (Some p) = Return (Inr c) \<and>
      unat (map_size_gb c) = g * 2 ^ 30)) \<and>
    (2 ^ 34 \<le> g \<longrightarrow> config_from_file True load (Some p) = Panic \<and>
      (\<exists>c. config_from_file False load (Some p) = Return (Inr c) \<and>
        unat (map_size_gb c) = g * 2 ^ 30 mod 2 ^ 64))"
proof (intro conjI impI)
  let ?w = "sec_map_size_gb (deserialize_section t)"
  have run: "config_from_file ch load (Some p) =
      exec_bind (mul_u64 ch ?w 1024) (\<lambda>a. exec_bind (mul_u64 ch a 1024) (\<lambda>b.
      exec_bind (mul_u64 ch b 1024) (\<lambda>s. Return (Inr
        \<lparr>data_dir = sec_data_dir (deserialize_section t), map_size_gb = s,
         max_key_bytes = sec_max_key_bytes (deserialize_section t),
         max_value_bytes = sec_max_value_bytes (deserialize_section t)\<rparr>))))" for ch
    by (simp add: config_from_file_def assms(1))
  {
    assume "g < 2 ^ 34"
    then have "unat ?w < 17179869184" by (simp add: g_def)
    then have u: "unat (?w * 1024) = unat ?w * 1024" "unat (?w * 1024 * 1024) = unat ?w * 1048576"
      "unat (?w * 1024 * 1024 * 1024) = unat ?w * 1073741824"
      using unat_1024_times [of ?w] unat_1024_times [of "?w * 1024"] unat_1024_times [of "?w * 1024 * 1024"]
      by simp_all
    then show "\<exists>c. config_from_file checks load (Some p) = Return (Inr c) \<and> unat (map_size_gb c) = g * 2 ^ 30"
      using \<open>unat ?w < 17179869184\<close> unfolding run mul_u64_1024 by (simp add: g_def u)
  }
  {
    assume "2 ^ 34 \<le> g"
    then have big: "17179869184 \<le> unat ?w" by (simp add: g_def)
    have u1: "unat (?w * 1024) = unat ?w * 1024" if "unat ?w * 1024 < 2 ^ 64"
      using that by (rule unat_1024_times)
    have u2: "unat (?w * 1024 * 1024) = unat ?w * 1024 * 1024" if "unat ?w * 1024 * 1024 < 2 ^ 64"
      using that unat_1024_times [of "?w * 1024"] u1 by simp
    consider "2 ^ 64 \<le> unat ?w * 1024" | "unat ?w * 1024 < 2 ^ 64" "2 ^ 64 \<le> unat ?w * 1024 * 1024"
      | "unat ?w * 1024 * 1024 < 2 ^ 64" by linarith
    then show "config_from_file True load (Some p) = Panic"
      unfolding run mul_u64_1024 using u1 u2 big by cases simp_all
  }
  have "unat (?w * 1024 * 1024 * 1024) = g * 2 ^ 30 mod 2 ^ 64"
    by (simp add: unat_word_ariths g_def mod_mult_left_eq mult.assoc)
  then show "\<exists>c. config_from_file False load (Some p) = Return (Inr c) \<and>
      unat (map_size_gb c) = g * 2 ^ 30 mod 2 ^ 64"
    unfolding run mul_u64_1024 by simp
qed

theorem config_map_size_witness:
  "\<exists>c. config_from_file False (\<lambda>_. Inr \<lparr>tab_data_dir = [], tab_map_size_gb = Some (2 ^ 34),
      tab_max_key_bytes = None, tab_max_value_bytes = None\<rparr>) (Some ''f'') = Return (Inr c) \<and>
    unat (map_size_gb c) = 0"
proof -
  let ?t = "\<lparr>tab_data_dir = [], tab_map_size_gb = Some (2 ^ 34), tab_max_key_bytes = None,
    tab_max_value_bytes = None\<rparr> :: lmdb_table"
  have "unat (sec_map_size_gb (deserialize_section ?t)) = 2 ^ 34"
    by (simp add: deserialize_section_def or_default_def)
  then show ?thesis using config_map_size [of "\<lambda>_. Inr ?t" "''f''" ?t False] by simp
qed

end
