(* ===== verification/State_Machine.thy ===== *)
theory State_Machine
  imports Lmdb Config
begin

text \<open>
  \<open>LmdbStateMachine\<close> (\<open>state_machine.rs\<close>): opening, reading, applying committed log entries,
  restoring and generating snapshots, reset. The definitions take the LMDB interface as their
  first argument; a method of the source that changes \<open>self\<close> returns its result and the new state.
  What the operations mean is proved in \<open>Apply\<close> (applying entries) and \<open>Recovery\<close> (restart, snapshots,
  reset); the scans are defined and treated in \<open>Scan\<close>.
\<close>


section \<open>State\<close>

definition DB_KV :: string where
  "DB_KV = ''kv''"

definition DB_META :: string where
  "DB_META = ''meta''"

definition DB_INTERNAL :: string where
  "DB_INTERNAL = ''internal''"

text \<open>Keys of the meta database are ASCII strings; these are their bytes.\<close>

definition str_bytes :: "string \<Rightarrow> bytes" where
  "str_bytes s = map of_char s"

definition META_LAST_APPLIED_INDEX :: bytes where
  "META_LAST_APPLIED_INDEX = str_bytes ''last_applied_index''"

definition META_LAST_APPLIED_TERM :: bytes where
  "META_LAST_APPLIED_TERM = str_bytes ''last_applied_term''"

record 'e state_machine =
  sm_env :: 'e
  running :: bool
  last_applied_index :: u64
  last_applied_term :: u64
  entry_terms :: "u64 \<rightharpoonup> u64"
  snapshot_meta :: "snapshot_metadata option"
  map_size :: u64

definition lmdb_err :: "heed_error \<Rightarrow> engine_error" where
  "lmdb_err m = StorageErr (StateMachineError m)"

definition u64_from_bytes :: "bytes \<Rightarrow> u64" where
  "u64_from_bytes b = from_le_bytes (if length b = 8 then b else replicate 8 0)"


section \<open>Opening\<close>

text \<open>
  \<open>mkdir\<close> is the outcome of \<open>create_dir_all\<close>, \<open>file\<close> the data file found in the directory.
\<close>

definition sm_new ::
  "('e, 't) lmdb_api \<Rightarrow> io_error + unit \<Rightarrow> 'e option \<Rightarrow> dlmdb_config \<Rightarrow> error + 'e state_machine"
where
  "sm_new L mkdir file config =
    and_then (map_err Io mkdir) (\<lambda>_.
    and_then (map_err Lmdb (open_env L file (map_size_gb config) 3)) (\<lambda>env.
    and_then (map_err Lmdb (write_txn L env)) (\<lambda>wtxn.
    and_then (map_err Lmdb (create_database L wtxn DB_KV)) (\<lambda>wtxn.
    and_then (map_err Lmdb (create_database L wtxn DB_META)) (\<lambda>wtxn.
    and_then (map_err Lmdb (create_database L wtxn DB_INTERNAL)) (\<lambda>wtxn.
    and_then (map_err Lmdb (db_get L wtxn DB_META META_LAST_APPLIED_INDEX)) (\<lambda>index.
    and_then (map_err Lmdb (db_get L wtxn DB_META META_LAST_APPLIED_TERM)) (\<lambda>log_term.
    and_then (map_err Lmdb (txn_commit L wtxn)) (\<lambda>env.
    Inr \<lparr>sm_env = env,
         running = True,
         last_applied_index = (case index of None \<Rightarrow> 0 | Some b \<Rightarrow> u64_from_bytes b),
         last_applied_term = (case log_term of None \<Rightarrow> 0 | Some b \<Rightarrow> u64_from_bytes b),
         entry_terms = Map.empty,
         snapshot_meta = None,
         map_size = map_size_gb config\<rparr>)))))))))"


section \<open>Reads and bookkeeping\<close>

definition sm_start :: "'e state_machine \<Rightarrow> 'e state_machine" where
  "sm_start s = s\<lparr>running := True\<rparr>"

definition sm_stop :: "'e state_machine \<Rightarrow> 'e state_machine" where
  "sm_stop s = s\<lparr>running := False\<rparr>"

definition sm_get ::
  "('e, 't) lmdb_api \<Rightarrow> 'e state_machine \<Rightarrow> bytes \<Rightarrow> engine_error + bytes option" where
  "sm_get L s key =
    and_then (map_err lmdb_err (read_txn L (sm_env s))) (\<lambda>rtxn.
    map_err lmdb_err (db_get L rtxn DB_KV key))"

text \<open>\<open>len\<close>: a failing read counts as zero; the cast to \<open>usize\<close> is the identity on 64 bits.\<close>

definition sm_len :: "('e, 't) lmdb_api \<Rightarrow> 'e state_machine \<Rightarrow> nat" where
  "sm_len L s =
    (case read_txn L (sm_env s) of
       Inl _ \<Rightarrow> 0
     | Inr rtxn \<Rightarrow> (case db_len L rtxn DB_KV of Inl _ \<Rightarrow> 0 | Inr n \<Rightarrow> unat n))"

definition update_last_applied :: "log_id \<Rightarrow> 'e state_machine \<Rightarrow> 'e state_machine" where
  "update_last_applied l s =
    s\<lparr>last_applied_index := log_index l, last_applied_term := log_term l\<rparr>"

definition last_applied :: "'e state_machine \<Rightarrow> log_id" where
  "last_applied s = \<lparr>log_index = last_applied_index s, log_term = last_applied_term s\<rparr>"

definition persist_last_applied ::
  "('e, 't) lmdb_api \<Rightarrow> log_id \<Rightarrow> 'e state_machine \<Rightarrow> (engine_error + unit) \<times> 'e state_machine"
where
  "persist_last_applied L l s =
    (case
      and_then (map_err lmdb_err (write_txn L (sm_env s))) (\<lambda>wtxn.
      and_then (map_err lmdb_err
        (db_put L wtxn DB_META META_LAST_APPLIED_INDEX (to_le_bytes (log_index l)))) (\<lambda>wtxn.
      and_then (map_err lmdb_err
        (db_put L wtxn DB_META META_LAST_APPLIED_TERM (to_le_bytes (log_term l)))) (\<lambda>wtxn.
      map_err lmdb_err (txn_commit L wtxn))))
     of Inl e \<Rightarrow> (Inl e, s)
      | Inr env \<Rightarrow> (Inr (), update_last_applied l (s\<lparr>sm_env := env\<rparr>)))"

text \<open>\<open>Drop\<close>: a failure is logged and otherwise ignored.\<close>

definition sm_drop :: "('e, 't) lmdb_api \<Rightarrow> 'e state_machine \<Rightarrow> 'e state_machine" where
  "sm_drop L s = snd (persist_last_applied L (last_applied s) s)"

definition update_last_snapshot_metadata ::
  "snapshot_metadata \<Rightarrow> 'e state_machine \<Rightarrow> (engine_error + unit) \<times> 'e state_machine" where
  "update_last_snapshot_metadata m s = (Inr (), s\<lparr>snapshot_meta := Some m\<rparr>)"

definition persist_last_snapshot_metadata ::
  "snapshot_metadata \<Rightarrow> 'e state_machine \<Rightarrow> (engine_error + unit) \<times> 'e state_machine" where
  "persist_last_snapshot_metadata m s = update_last_snapshot_metadata m s"

definition sm_save_hard_state :: "'e state_machine \<Rightarrow> (engine_error + unit) \<times> 'e state_machine" where
  "sm_save_hard_state s = (Inr (), s)"

definition sm_flush :: "'e state_machine \<Rightarrow> (engine_error + unit) \<times> 'e state_machine" where
  "sm_flush s = (Inr (), s)"

definition sm_flush_async :: "'e state_machine \<Rightarrow> (engine_error + unit) \<times> 'e state_machine" where
  "sm_flush_async s = sm_flush s"

definition sm_is_running :: "'e state_machine \<Rightarrow> bool" where
  "sm_is_running s = running s"

definition sm_snapshot_metadata :: "'e state_machine \<Rightarrow> snapshot_metadata option" where
  "sm_snapshot_metadata s = snapshot_meta s"

definition delete_local ::
  "('e, 't) lmdb_api \<Rightarrow> bytes \<Rightarrow> 'e state_machine \<Rightarrow> (engine_error + unit) \<times> 'e state_machine" where
  "delete_local L key s =
    (case
      and_then (map_err lmdb_err (write_txn L (sm_env s))) (\<lambda>wtxn.
      and_then (map_err lmdb_err (db_delete L wtxn DB_KV key)) (\<lambda>(_, wtxn).
      map_err lmdb_err (txn_commit L wtxn)))
     of Inl e \<Rightarrow> (Inl e, s) | Inr env \<Rightarrow> (Inr (), s\<lparr>sm_env := env\<rparr>))"


section \<open>Applying log entries\<close>

fun apply_batch ::
  "('e, 't) lmdb_api \<Rightarrow> batch_op list \<Rightarrow> 't \<Rightarrow> engine_error + 't" where
  "apply_batch L [] wtxn = Inr wtxn"
| "apply_batch L (BatchInsert k v # ops) wtxn =
    and_then (map_err lmdb_err (db_put L wtxn DB_KV k v)) (apply_batch L ops)"
| "apply_batch L (BatchDelete k # ops) wtxn =
    and_then (map_err lmdb_err (db_delete L wtxn DB_KV k)) (\<lambda>(_, wtxn). apply_batch L ops wtxn)"

definition cas_matches :: "bytes option \<Rightarrow> bytes option \<Rightarrow> bool" where
  "cas_matches current expected =
    (case (current, expected) of
       (None, None) \<Rightarrow> True
     | (Some c, Some e) \<Rightarrow> c = e
     | _ \<Rightarrow> False)"

fun apply_command ::
  "('e, 't) lmdb_api \<Rightarrow> u64 \<Rightarrow> command \<Rightarrow> 't \<Rightarrow> engine_error + 't \<times> apply_result" where
  "apply_command L i (Insert k v ttl_secs) wtxn =
    and_then (map_err lmdb_err (db_put L wtxn DB_KV k v)) (\<lambda>wtxn. Inr (wtxn, ApplySuccess i))"
| "apply_command L i (Delete k) wtxn =
    and_then (map_err lmdb_err (db_delete L wtxn DB_KV k)) (\<lambda>(_, wtxn). Inr (wtxn, ApplySuccess i))"
| "apply_command L i (CompareAndSwap k expected v) wtxn =
    and_then (map_err lmdb_err (db_get L wtxn DB_KV k)) (\<lambda>current.
      if cas_matches current expected
      then and_then (map_err lmdb_err (db_put L wtxn DB_KV k v)) (\<lambda>wtxn. Inr (wtxn, ApplySuccess i))
      else Inr (wtxn, ApplyFailure i))"
| "apply_command L i (Batch ops) wtxn =
    and_then (apply_batch L ops wtxn) (\<lambda>wtxn. Inr (wtxn, ApplySuccess i))"
| "apply_command L i Noop wtxn = Inr (wtxn, ApplySuccess i)"

text \<open>
  The loop of \<open>apply_chunk\<close>. The in-memory term cache is shared and updated as the loop runs, so
  it is returned beside the outcome even when an entry fails.
\<close>

fun apply_loop ::
  "('e, 't) lmdb_api \<Rightarrow> apply_entry list \<Rightarrow> 't \<Rightarrow> apply_result list \<Rightarrow> log_id option \<Rightarrow> (u64 \<rightharpoonup> u64) \<Rightarrow>
   (engine_error + 't \<times> apply_result list \<times> log_id option) \<times> (u64 \<rightharpoonup> u64)" where
  "apply_loop L [] wtxn results highest terms = (Inr (wtxn, results, highest), terms)"
| "apply_loop L (entry # chunk) wtxn results highest terms =
    (case apply_command L (entry_index entry) (entry_command entry) wtxn of
       Inl e \<Rightarrow> (Inl e, terms)
     | Inr (wtxn, result) \<Rightarrow>
         apply_loop L chunk wtxn (results @ [result])
           (Some \<lparr>log_index = entry_index entry, log_term = entry_term entry\<rparr>)
           (terms(entry_index entry \<mapsto> entry_term entry)))"

definition apply_chunk ::
  "('e, 't) lmdb_api \<Rightarrow> apply_entry list \<Rightarrow> 'e state_machine \<Rightarrow>
   (engine_error + apply_result list) \<times> 'e state_machine" where
  "apply_chunk L chunk s =
    (case map_err lmdb_err (write_txn L (sm_env s)) of
       Inl e \<Rightarrow> (Inl e, s)
     | Inr wtxn \<Rightarrow>
         (case apply_loop L chunk wtxn [] None (entry_terms s) of
            (Inl e, terms) \<Rightarrow> (Inl e, s\<lparr>entry_terms := terms\<rparr>)
          | (Inr (wtxn, results, highest), terms) \<Rightarrow>
              (case map_err lmdb_err (txn_commit L wtxn) of
                 Inl e \<Rightarrow> (Inl e, s\<lparr>entry_terms := terms\<rparr>)
               | Inr env \<Rightarrow>
                   (Inr results,
                    (case highest of None \<Rightarrow> (\<lambda>s. s) | Some l \<Rightarrow> update_last_applied l)
                      (s\<lparr>entry_terms := terms, sm_env := env\<rparr>)))))"


section \<open>Snapshots and reset\<close>

text \<open>\<open>spawn_blocking\<close> reports a panicking task as an error; the tasks here do not panic.\<close>

definition fatal :: "heed_error \<Rightarrow> engine_error" where
  "fatal m = Fatal m"

fun copy_items ::
  "('e, 't) lmdb_api \<Rightarrow> (heed_error + bytes \<times> bytes) list \<Rightarrow> 't \<Rightarrow> engine_error + 't" where
  "copy_items L [] wtxn = Inr wtxn"
| "copy_items L (item # rest) wtxn =
    and_then (map_err fatal item) (\<lambda>(k, v).
    and_then (map_err fatal (db_put L wtxn DB_KV k v)) (copy_items L rest))"

definition put_last_applied ::
  "('e, 't) lmdb_api \<Rightarrow> log_id option \<Rightarrow> 't \<Rightarrow> engine_error + 't" where
  "put_last_applied L included wtxn =
    (case included of
       None \<Rightarrow> Inr wtxn
     | Some l \<Rightarrow>
         and_then (map_err fatal
           (db_put L wtxn DB_META META_LAST_APPLIED_INDEX (to_le_bytes (log_index l)))) (\<lambda>wtxn.
         map_err fatal
           (db_put L wtxn DB_META META_LAST_APPLIED_TERM (to_le_bytes (log_term l)))))"

text \<open>\<open>file\<close> is the data file in the snapshot directory. The new environment is returned.\<close>

definition restore_blocking ::
  "('e, 't) lmdb_api \<Rightarrow> 'e \<Rightarrow> u64 \<Rightarrow> snapshot_metadata \<Rightarrow> 'e option \<Rightarrow> engine_error + 'e" where
  "restore_blocking L env msize metadata file =
    and_then (map_err fatal (open_env L file msize 3)) (\<lambda>snap_env.
    and_then (map_err fatal (read_txn L snap_env)) (\<lambda>snap_rtxn.
    and_then (map_err fatal (open_database L snap_rtxn DB_KV)) (\<lambda>found.
    and_then (if found then Inr () else Inl (Fatal ''snapshot missing kv database'')) (\<lambda>_.
    and_then (map_err fatal (write_txn L env)) (\<lambda>wtxn.
    and_then (map_err fatal (db_clear L wtxn DB_KV)) (\<lambda>wtxn.
    and_then (map_err fatal (db_iter L snap_rtxn DB_KV)) (\<lambda>its.
    and_then (copy_items L its wtxn) (\<lambda>wtxn.
    and_then (put_last_applied L (last_included metadata) wtxn) (\<lambda>wtxn.
    map_err fatal (txn_commit L wtxn))))))))))"

definition apply_snapshot_from_file ::
  "('e, 't) lmdb_api \<Rightarrow> snapshot_metadata \<Rightarrow> 'e option \<Rightarrow> 'e state_machine \<Rightarrow>
   (engine_error + unit) \<times> 'e state_machine" where
  "apply_snapshot_from_file L metadata file s0 =
    (let s = s0\<lparr>running := False\<rparr>
     in case restore_blocking L (sm_env s) (map_size s) metadata file of
          Inl e \<Rightarrow> (Inl e, s\<lparr>running := True\<rparr>)
        | Inr env \<Rightarrow>
            (let s1 = (case last_included metadata of
                         None \<Rightarrow> s\<lparr>sm_env := env\<rparr>
                       | Some l \<Rightarrow> update_last_applied l (s\<lparr>sm_env := env\<rparr>));
                 s2 = snd (update_last_snapshot_metadata metadata s1);
                 s3 = s2\<lparr>entry_terms := Map.empty\<rparr>
             in (Inr (), s3\<lparr>running := True\<rparr>)))"

text \<open>
  \<open>old\<close> is what the target file \<open>data.mdb\<close> held before; on success the second component is the
  data file written.
\<close>

definition generate_snapshot_data ::
  "('e, 't) lmdb_api \<Rightarrow> io_error + unit \<Rightarrow> 'e option \<Rightarrow> log_id \<Rightarrow> 'e state_machine \<Rightarrow>
   (engine_error + bytes \<times> 'e) \<times> 'e state_machine" where
  "generate_snapshot_data L mkdir old included s =
    (case
      and_then (map_err fatal mkdir) (\<lambda>_. map_err fatal (copy_env L (sm_env s) old))
     of Inl e \<Rightarrow> (Inl e, s)
      | Inr file \<Rightarrow>
          (let sum = replicate 32 0;
               meta = \<lparr>last_included = Some included, checksum = sum\<rparr>
           in (Inr (sum, file), snd (persist_last_snapshot_metadata meta s))))"

definition sm_reset ::
  "('e, 't) lmdb_api \<Rightarrow> 'e state_machine \<Rightarrow> (engine_error + unit) \<times> 'e state_machine" where
  "sm_reset L s =
    (case
      and_then (map_err lmdb_err (write_txn L (sm_env s))) (\<lambda>wtxn.
      and_then (map_err lmdb_err (db_clear L wtxn DB_KV)) (\<lambda>wtxn.
      and_then (map_err lmdb_err (db_clear L wtxn DB_META)) (\<lambda>wtxn.
      and_then (map_err lmdb_err (db_clear L wtxn DB_INTERNAL)) (\<lambda>wtxn.
      map_err lmdb_err (txn_commit L wtxn)))))
     of Inl e \<Rightarrow> (Inl e, s)
      | Inr env \<Rightarrow>
          (Inr (), s\<lparr>sm_env := env, last_applied_index := 0, last_applied_term := 0,
                     snapshot_meta := None, entry_terms := Map.empty\<rparr>))"

end
