(* ===== verification/Lmdb_Mem.thy ===== *)
theory Lmdb_Mem
  imports Lmdb
begin

text \<open>
  An executable store that satisfies the laws of \<open>Lmdb\<close>: every named database is an association
  list in strictly increasing key order, keys have one to 511 bytes, and a transaction is a
  private copy. It shows that the laws can hold together, and the concrete instances of the
  development's properties run on it. It says nothing about LMDB itself.
\<close>


section \<open>Sorted association lists\<close>

fun kv_put :: "bytes \<Rightarrow> bytes \<Rightarrow> (bytes \<times> bytes) list \<Rightarrow> (bytes \<times> bytes) list" where
  "kv_put k v [] = [(k, v)]"
| "kv_put k v ((j, w) # xs) =
     (if k < j then (k, v) # (j, w) # xs
      else if k = j then (k, v) # xs
      else (j, w) # kv_put k v xs)"

definition kv_del :: "bytes \<Rightarrow> (bytes \<times> bytes) list \<Rightarrow> (bytes \<times> bytes) list" where
  "kv_del k xs = filter (\<lambda>(j, _). j \<noteq> k) xs"

lemma keys_kv_put: "set (map fst (kv_put k v xs)) = insert k (set (map fst xs))"
  by (induction k v xs rule: kv_put.induct) (simp_all del: list.set_map add: insert_commute)

lemma sorted_kv_put: "sorted_keys xs \<Longrightarrow> sorted_keys (kv_put k v xs)"
proof (induction xs)
  case (Cons x xs)
  obtain j w where x: "x = (j, w)" by (cases x)
  show ?case
  proof (cases k j rule: linorder_cases)
    case less
    then show ?thesis using Cons.prems x by auto
  next
    case equal
    then show ?thesis using Cons.prems x by auto
  next
    case greater
    have "\<forall>i \<in> set (map fst (kv_put k v xs)). j < i"
      unfolding keys_kv_put using Cons.prems x greater by auto
    then show ?thesis using Cons x greater by auto
  qed
qed simp

lemma map_of_kv_put: "map_of (kv_put k v xs) = (map_of xs)(k \<mapsto> v)"
  by (induction xs) (auto simp: fun_eq_iff)

lemma map_of_filter_keys: "map_of (filter (\<lambda>(k, _). P k) xs) = (\<lambda>k. if P k then map_of xs k else None)"
  by (induction xs) (auto simp: fun_eq_iff)

lemma map_of_kv_del: "map_of (kv_del k xs) = (map_of xs)(k := None)"
  by (auto simp: kv_del_def map_of_filter_keys)

lemma sorted_kv_del: "sorted_keys xs \<Longrightarrow> sorted_keys (kv_del k xs)"
  unfolding kv_del_def by (rule sorted_filter_keys)

lemma last_item_map_of:
  "sorted_keys xs \<Longrightarrow> last_item (map_of xs) = (if xs = [] then None else Some (last xs))"
  by (simp add: last_item_def items_map_of)

lemma range_items_map_of:
  "sorted_keys xs \<Longrightarrow> range_items (map_of xs) lo hi = filter (\<lambda>(k, _). in_bounds lo hi k) xs"
  by (simp add: range_items_def items_map_of)


text \<open>The canonical form of any association list: sorted, the first binding of a key wins.\<close>

fun kv_sort :: "(bytes \<times> bytes) list \<Rightarrow> (bytes \<times> bytes) list" where
  "kv_sort [] = []"
| "kv_sort ((k, v) # xs) = kv_put k v (kv_sort xs)"

lemma sorted_kv_sort: "sorted_keys (kv_sort xs)"
  by (induction xs rule: kv_sort.induct) (simp_all add: sorted_kv_put)

lemma map_of_kv_sort: "map_of (kv_sort xs) = map_of xs"
  by (induction xs rule: kv_sort.induct) (simp_all add: map_of_kv_put)

lemma items_kv_sort: "items (map_of xs) = kv_sort xs"
  using items_map_of [OF sorted_kv_sort [of xs]] by (simp add: map_of_kv_sort)

lemma length_kv_sort: "length (kv_sort xs) = card (dom (map_of xs))"
  using length_items [of "map_of xs"] by (simp add: items_kv_sort finite_dom_map_of)


section \<open>The store\<close>

record mem =
  mem_dbs :: "string set"
  mem_kv :: "string \<Rightarrow> (bytes \<times> bytes) list"

definition mem_empty :: mem where
  "mem_empty = \<lparr>mem_dbs = {}, mem_kv = (\<lambda>_. [])\<rparr>"

definition mem_max_key :: nat where
  "mem_max_key = 511"

definition mem_set :: "mem \<Rightarrow> string \<Rightarrow> (bytes \<times> bytes) list \<Rightarrow> mem" where
  "mem_set m d xs = m\<lparr>mem_kv := (mem_kv m)(d := xs)\<rparr>"

definition bad_val_size :: string where
  "bad_val_size = ''MDB_BAD_VALSIZE''"

definition mem_key_ok :: "bytes \<Rightarrow> bool" where
  "mem_key_ok k \<longleftrightarrow> k \<noteq> [] \<and> length k \<le> mem_max_key"

definition mem_range :: "mem \<Rightarrow> string \<Rightarrow> bound \<Rightarrow> bound \<Rightarrow> (bytes \<times> bytes) list" where
  "mem_range m d lo hi = filter (\<lambda>(k, _). in_bounds lo hi k) (kv_sort (mem_kv m d))"

definition mem_api :: "(mem, mem) lmdb_api" where
  "mem_api =
    \<lparr>open_env = (\<lambda>f _ _. Inr (case f of None \<Rightarrow> mem_empty | Some m \<Rightarrow> m)),
     copy_env = (\<lambda>m _. Inr m),
     read_txn = Inr,
     write_txn = Inr,
     txn_commit = Inr,
     create_database = (\<lambda>m d. Inr (m\<lparr>mem_dbs := insert d (mem_dbs m)\<rparr>)),
     open_database = (\<lambda>m d. Inr (d \<in> mem_dbs m)),
     db_get = (\<lambda>m d k. if mem_key_ok k then Inr (map_of (mem_kv m d) k) else Inl bad_val_size),
     db_put = (\<lambda>m d k v. if mem_key_ok k then Inr (mem_set m d (kv_put k v (mem_kv m d)))
                 else Inl bad_val_size),
     db_delete = (\<lambda>m d k. if mem_key_ok k
                 then Inr (map_of (mem_kv m d) k \<noteq> None, mem_set m d (kv_del k (mem_kv m d)))
                 else Inl bad_val_size),
     db_clear = (\<lambda>m d. Inr (mem_set m d [])),
     db_range = (\<lambda>m d lo hi. if empty_start lo then Inr [Inl bad_val_size]
                 else Inr (map Inr (mem_range m d lo hi))),
     db_iter = (\<lambda>m d. Inr (map Inr (kv_sort (mem_kv m d)))),
     db_last = (\<lambda>m d. Inr (let xs = kv_sort (mem_kv m d) in if xs = [] then None else Some (last xs))),
     db_delete_range = (\<lambda>m d lo hi. if empty_start lo then Inl bad_val_size
                 else Inr (length (mem_range m d lo hi),
                           mem_set m d (filter (\<lambda>(k, _). \<not> in_bounds lo hi k) (mem_kv m d)))),
     db_len = (\<lambda>m d. Inr (word_of_nat (length (kv_sort (mem_kv m d))))),
     max_key_size = mem_max_key\<rparr>"

definition mem_view :: "(mem, mem) lmdb_view" where
  "mem_view =
    \<lparr>env_view = (\<lambda>m d. map_of (mem_kv m d)), env_dbs = mem_dbs,
     txn_view = (\<lambda>m d. map_of (mem_kv m d)), txn_dbs = mem_dbs\<rparr>"

lemmas mem_defs =
  mem_api_def mem_view_def mem_empty_def mem_set_def mem_range_def

lemma reads_as_map_Inr [simp]: "reads_as (map Inr xs) xs"
  by (simp add: reads_as_def)

interpretation mem: lmdb_live mem_api mem_view
proof unfold_locales
  show "\<And>t d lo hi its. db_range mem_api t d lo hi = Inr its \<Longrightarrow> reads_as its (range_items (txn_view mem_view t d) lo hi)"
    by (auto simp: mem_defs range_items_def items_kv_sort reads_as_def split: if_splits intro: exI [of _ 0])
  show "\<And>t d r. db_last mem_api t d = Inr r \<Longrightarrow> r = last_item (txn_view mem_view t d)"
    by (auto simp: mem_defs last_item_def items_kv_sort Let_def)
qed (auto simp: mem_defs finite_dom_map_of fun_eq_iff map_of_kv_put map_of_kv_del
    map_of_filter_keys admissible_key_def mem_key_ok_def range_items_def items_kv_sort
    length_kv_sort Let_def mem_max_key_def split: if_splits)

end
