(* ===== verification/Apply.thy ===== *)
theory Apply
  imports State_Machine Lmdb_Mem
begin

text \<open>
  What applying log entries means. \<open>spec_chunk\<close> is the abstract state machine: a fold over the
  entries on a finite map, with no transactions, errors or caches. The locale lemmas show that
  \<open>apply_chunk\<close> refines it whenever it returns \<open>Ok\<close>, that it does return \<open>Ok\<close> on a healthy store
  when every key is admissible, and that an \<open>Err\<close> leaves the store as it was.
\<close>


section \<open>The abstract state machine\<close>

type_synonym kv = "bytes \<rightharpoonup> bytes"

fun spec_op :: "batch_op \<Rightarrow> kv \<Rightarrow> kv" where
  "spec_op (BatchInsert k v) m = m(k \<mapsto> v)"
| "spec_op (BatchDelete k) m = m(k := None)"

fun spec_command :: "command \<Rightarrow> kv \<Rightarrow> bool \<times> kv" where
  "spec_command (Insert k v ttl) m = (True, m(k \<mapsto> v))"
| "spec_command (Delete k) m = (True, m(k := None))"
| "spec_command (CompareAndSwap k expected v) m =
     (if m k = expected then (True, m(k \<mapsto> v)) else (False, m))"
| "spec_command (Batch ops) m = (True, fold spec_op ops m)"
| "spec_command Noop m = (True, m)"

definition spec_result :: "apply_entry \<Rightarrow> bool \<Rightarrow> apply_result" where
  "spec_result e ok = (if ok then ApplySuccess (entry_index e) else ApplyFailure (entry_index e))"

fun spec_chunk :: "apply_entry list \<Rightarrow> kv \<Rightarrow> apply_result list \<times> kv" where
  "spec_chunk [] m = ([], m)"
| "spec_chunk (e # es) m =
     (case spec_command (entry_command e) m of
        (ok, m1) \<Rightarrow> (case spec_chunk es m1 of (rs, m2) \<Rightarrow> (spec_result e ok # rs, m2)))"

definition entry_id :: "apply_entry \<Rightarrow> log_id" where
  "entry_id e = \<lparr>log_index = entry_index e, log_term = entry_term e\<rparr>"

definition record_term :: "apply_entry \<Rightarrow> (u64 \<rightharpoonup> u64) \<Rightarrow> u64 \<rightharpoonup> u64" where
  "record_term e ts = ts(entry_index e \<mapsto> entry_term e)"

text \<open>The keys an entry hands to LMDB.\<close>

fun op_key :: "batch_op \<Rightarrow> bytes" where
  "op_key (BatchInsert k v) = k"
| "op_key (BatchDelete k) = k"

fun command_keys :: "command \<Rightarrow> bytes list" where
  "command_keys (Insert k v ttl) = [k]"
| "command_keys (Delete k) = [k]"
| "command_keys (CompareAndSwap k expected v) = [k]"
| "command_keys (Batch ops) = map op_key ops"
| "command_keys Noop = []"

definition chunk_admissible :: "('e, 't) lmdb_api \<Rightarrow> apply_entry list \<Rightarrow> bool" where
  "chunk_admissible L chunk \<longleftrightarrow>
     (\<forall>e \<in> set chunk. \<forall>k \<in> set (command_keys (entry_command e)). admissible_key L k)"

lemma length_spec_chunk: "length (fst (spec_chunk es m)) = length es"
  by (induction es arbitrary: m) (simp_all add: case_prod_beta)

lemma spec_chunk_append:
  "spec_chunk (xs @ ys) m =
     (fst (spec_chunk xs m) @ fst (spec_chunk ys (snd (spec_chunk xs m))),
      snd (spec_chunk ys (snd (spec_chunk xs m))))"
  by (induction xs arbitrary: m) (simp_all add: case_prod_beta)


section \<open>Abstraction\<close>

definition kv_of :: "('e, 't) lmdb_view \<Rightarrow> 'e state_machine \<Rightarrow> kv" where
  "kv_of V s = env_view V (sm_env s) DB_KV"

text \<open>The write transaction's view after its \<open>kv\<close> database has been changed.\<close>

definition set_kv :: "kv \<Rightarrow> (string \<Rightarrow> kv) \<Rightarrow> string \<Rightarrow> kv" where
  "set_kv m view = view(DB_KV := m)"

lemma set_kv_simps [simp]:
  "set_kv m view DB_KV = m" "set_kv m (set_kv m' view) = set_kv m view"
  "set_kv (view DB_KV) view = view" "d \<noteq> DB_KV \<Longrightarrow> set_kv m view d = view d"
  by (auto simp: set_kv_def)

lemma DB_names [simp]:
  "DB_META \<noteq> DB_KV" "DB_KV \<noteq> DB_META" "DB_INTERNAL \<noteq> DB_KV" "DB_INTERNAL \<noteq> DB_META"
  "DB_KV \<noteq> DB_INTERNAL" "DB_META \<noteq> DB_INTERNAL"
  by (simp_all add: DB_KV_def DB_META_def DB_INTERNAL_def)

lemma cas_matches_iff: "cas_matches c e \<longleftrightarrow> c = e"
  by (auto simp: cas_matches_def split: option.splits)

text \<open>The step that carries \<open>last_applied\<close> over to the highest entry of the chunk.\<close>

definition advance :: "apply_entry list \<Rightarrow> log_id option \<Rightarrow> log_id option" where
  "advance chunk h = (if chunk = [] then h else Some (entry_id (last chunk)))"

lemma advance_Cons: "advance es (Some (entry_id e)) = advance (e # es) h"
  by (simp add: advance_def)


section \<open>Refinement\<close>

context lmdb
begin

lemma put_kv:
  "db_put L t DB_KV k v = Inr t' \<Longrightarrow>
   txn_view V t' = set_kv ((txn_view V t DB_KV)(k \<mapsto> v)) (txn_view V t) \<and>
   txn_dbs V t' = txn_dbs V t"
  using put by (simp add: set_kv_def)

lemma delete_kv:
  "db_delete L t DB_KV k = Inr (b, t') \<Longrightarrow>
   txn_view V t' = set_kv ((txn_view V t DB_KV)(k := None)) (txn_view V t) \<and>
   txn_dbs V t' = txn_dbs V t"
  using delete by (simp add: set_kv_def)

lemma apply_batch_refines:
  "apply_batch L ops t = Inr t' \<Longrightarrow>
   txn_view V t' = set_kv (fold spec_op ops (txn_view V t DB_KV)) (txn_view V t) \<and>
   txn_dbs V t' = txn_dbs V t"
proof (induction ops arbitrary: t)
  case (Cons op ops)
  show ?case
  proof (cases op)
    case (BatchInsert k v)
    then obtain t1 where "db_put L t DB_KV k v = Inr t1" "apply_batch L ops t1 = Inr t'"
      using Cons.prems by (auto simp: and_then_eq_Inr)
    then show ?thesis using Cons.IH put_kv BatchInsert by fastforce
  next
    case (BatchDelete k)
    then obtain b t1 where "db_delete L t DB_KV k = Inr (b, t1)" "apply_batch L ops t1 = Inr t'"
      using Cons.prems by (auto simp: and_then_eq_Inr)
    then show ?thesis using Cons.IH delete_kv BatchDelete by fastforce
  qed
qed simp

lemma apply_command_refines:
  "apply_command L i c t = Inr (t', r) \<Longrightarrow>
   txn_view V t' = set_kv (snd (spec_command c (txn_view V t DB_KV))) (txn_view V t) \<and>
   txn_dbs V t' = txn_dbs V t \<and>
   r = (if fst (spec_command c (txn_view V t DB_KV)) then ApplySuccess i else ApplyFailure i)"
  by (cases c)
    (auto simp: result_simps cas_matches_iff split: if_splits
      dest!: put_kv delete_kv get apply_batch_refines)

lemma apply_loop_refines:
  "apply_loop L chunk t rs h ts = (Inr (t', rs', h'), ts') \<Longrightarrow>
   txn_view V t' = set_kv (snd (spec_chunk chunk (txn_view V t DB_KV))) (txn_view V t) \<and>
   txn_dbs V t' = txn_dbs V t \<and>
   rs' = rs @ fst (spec_chunk chunk (txn_view V t DB_KV)) \<and>
   h' = advance chunk h \<and> ts' = fold record_term chunk ts"
proof (induction chunk arbitrary: t rs h ts)
  case (Cons e chunk)
  obtain t1 r where step: "apply_command L (entry_index e) (entry_command e) t = Inr (t1, r)"
    and rest: "apply_loop L chunk t1 (rs @ [r]) (Some (entry_id e)) (record_term e ts) =
      (Inr (t', rs', h'), ts')"
    using Cons.prems by (auto simp: entry_id_def record_term_def split: sum.splits)
  show ?case
    using apply_command_refines [OF step] Cons.IH [OF rest] advance_Cons [of chunk e h]
    by (auto simp: spec_result_def split: prod.splits)
qed (simp add: advance_def)

lemma apply_chunk_refines:
  assumes "apply_chunk L chunk s = (Inr rs, s')"
  shows "rs = fst (spec_chunk chunk (kv_of V s))"
    and "env_view V (sm_env s') =
      set_kv (snd (spec_chunk chunk (kv_of V s))) (env_view V (sm_env s))"
    and "env_dbs V (sm_env s') = env_dbs V (sm_env s)"
    and "last_applied s' = (if chunk = [] then last_applied s else entry_id (last chunk))"
    and "entry_terms s' = fold record_term chunk (entry_terms s)"
    and "running s' = running s" and "snapshot_meta s' = snapshot_meta s"
    and "map_size s' = map_size s"
proof -
  obtain t t' h ts env where start: "write_txn L (sm_env s) = Inr t"
    and loop: "apply_loop L chunk t [] None (entry_terms s) = (Inr (t', rs, h), ts)"
    and com: "txn_commit L t' = Inr env"
    and s': "s' = (case h of None \<Rightarrow> (\<lambda>s. s) | Some l \<Rightarrow> update_last_applied l)
      (s\<lparr>entry_terms := ts, sm_env := env\<rparr>)"
    using assms
    by (auto simp: apply_chunk_def split: sum.splits prod.splits)
  note facts = write_txn [OF start] apply_loop_refines [OF loop] commit [OF com]
  have s'_fields: "sm_env s' = env" "entry_terms s' = ts" "running s' = running s"
    "snapshot_meta s' = snapshot_meta s" "map_size s' = map_size s"
    by (simp_all add: s' update_last_applied_def split: option.splits)
  show "rs = fst (spec_chunk chunk (kv_of V s))" using facts by (simp add: kv_of_def)
  show "env_view V (sm_env s') =
      set_kv (snd (spec_chunk chunk (kv_of V s))) (env_view V (sm_env s))"
    using facts s'_fields by (simp add: kv_of_def)
  show "env_dbs V (sm_env s') = env_dbs V (sm_env s)" using facts s'_fields by simp
  show "last_applied s' = (if chunk = [] then last_applied s else entry_id (last chunk))"
    using facts s' by (auto simp: advance_def last_applied_def update_last_applied_def entry_id_def)
  show "entry_terms s' = fold record_term chunk (entry_terms s)" using facts s'_fields by simp
  show "running s' = running s" "snapshot_meta s' = snapshot_meta s" "map_size s' = map_size s"
    by (simp_all add: s'_fields)
qed

end


section \<open>Failure and progress\<close>

text \<open>An error changes nothing but the in-memory term cache, on any store.\<close>

lemma apply_chunk_error_frame:
  assumes "apply_chunk L chunk s = (Inl e, s')"
  shows "\<exists>terms. s' = s\<lparr>entry_terms := terms\<rparr>"
proof -
  have same: "\<exists>terms. r = r\<lparr>entry_terms := terms\<rparr>" for r :: "'a state_machine"
    by (rule exI [of _ "entry_terms r"]) simp
  show ?thesis
    using assms by (auto simp: apply_chunk_def intro: same split: sum.splits prod.splits)
qed

context lmdb
begin

lemma apply_loop_refused:
  assumes "i < length chunk"
    and "\<exists>k v ttl. entry_command (chunk ! i) = Insert k v ttl \<and> \<not> admissible_key L k"
  shows "\<exists>e. fst (apply_loop L chunk t rs h ts) = Inl e"
  using assms
proof (induction chunk arbitrary: i t rs h ts)
  case (Cons e chunk)
  show ?case
  proof (cases i)
    case 0
    then obtain k v ttl where "entry_command e = Insert k v ttl" "\<not> admissible_key L k"
      using Cons.prems by auto
    moreover obtain m where "db_put L t DB_KV k v = Inl m"
      using put_refused \<open>\<not> admissible_key L k\<close> by blast
    ultimately show ?thesis by simp
  next
    case (Suc j)
    then show ?thesis
      using Cons.prems Cons.IH [of j] by (auto split: sum.splits)
  qed
qed simp

end

context lmdb_live
begin

lemma put_live: "admissible_key L k \<Longrightarrow> \<exists>t'. map_err g (db_put L t d k v) = Inr t'"
  using put_ok by fastforce

lemma apply_batch_live:
  "\<forall>op \<in> set ops. admissible_key L (op_key op) \<Longrightarrow> \<exists>t'. apply_batch L ops t = Inr t'"
proof (induction ops arbitrary: t)
  case (Cons op ops)
  then show ?case
  proof (cases op)
    case (BatchInsert k v)
    then obtain t1 where "db_put L t DB_KV k v = Inr t1" using put_ok Cons.prems by fastforce
    then show ?thesis using Cons BatchInsert by simp
  next
    case (BatchDelete k)
    then obtain b t1 where "db_delete L t DB_KV k = Inr (b, t1)"
      using delete_ok Cons.prems by fastforce
    then show ?thesis using Cons BatchDelete by simp
  qed
qed simp

lemma apply_command_live:
  assumes "\<forall>k \<in> set (command_keys c). admissible_key L k"
  shows "\<exists>t' r. apply_command L i c t = Inr (t', r)"
proof (cases c)
  case (Insert k v ttl)
  then obtain t1 where "db_put L t DB_KV k v = Inr t1" using put_ok assms by fastforce
  then show ?thesis using Insert by simp
next
  case (Delete k)
  then obtain b t1 where "db_delete L t DB_KV k = Inr (b, t1)" using delete_ok assms by fastforce
  then show ?thesis using Delete by simp
next
  case (CompareAndSwap k expected v)
  then obtain t1 r where "db_put L t DB_KV k v = Inr t1" "db_get L t DB_KV k = Inr r"
    using put_ok get_ok assms by fastforce
  then show ?thesis using CompareAndSwap by simp
next
  case (Batch ops)
  then show ?thesis using apply_batch_live [of ops t] assms by auto
qed simp

lemma apply_loop_live:
  "chunk_admissible L chunk \<Longrightarrow> \<exists>x ts'. apply_loop L chunk t rs h ts = (Inr x, ts')"
proof (induction chunk arbitrary: t rs h ts)
  case (Cons e chunk)
  obtain t' r where "apply_command L (entry_index e) (entry_command e) t = Inr (t', r)"
    using apply_command_live Cons.prems unfolding chunk_admissible_def by (metis list.set_intros(1))
  then show ?case using Cons by (simp add: chunk_admissible_def)
qed simp

lemma apply_chunk_live:
  assumes "chunk_admissible L chunk"
  shows "\<exists>s'. apply_chunk L chunk s = (Inr (fst (spec_chunk chunk (kv_of V s))), s')"
proof -
  obtain t where t: "write_txn L (sm_env s) = Inr t" using write_txn_ok by blast
  obtain t' rs h ts where loop: "apply_loop L chunk t [] None (entry_terms s) = (Inr (t', rs, h), ts)"
    using apply_loop_live [OF assms] by (metis prod_cases3)
  obtain env where com: "txn_commit L t' = Inr env" using commit_ok by blast
  have "\<exists>s'. apply_chunk L chunk s = (Inr rs, s')"
    by (simp add: apply_chunk_def t loop com)
  then show ?thesis using apply_chunk_refines(1) by blast
qed

end


context lmdb
begin

lemma apply_chunk_refused:
  assumes "e \<in> set chunk" and "entry_command e = Insert k v ttl" and "\<not> admissible_key L k"
  shows "\<exists>err s'. apply_chunk L chunk s = (Inl err, s') \<and> sm_env s' = sm_env s"
proof -
  obtain i where i: "i < length chunk" "chunk ! i = e"
    using assms(1) by (meson in_set_conv_nth)
  have loop: "\<exists>x. fst (apply_loop L chunk t [] None (entry_terms s)) = Inl x" for t
    using apply_loop_refused [OF i(1)] i(2) assms(2,3) by blast
  have "\<exists>x. fst (apply_chunk L chunk s) = Inl x"
  proof (cases "write_txn L (sm_env s)")
    case (Inr t)
    then show ?thesis
      using loop [of t] by (auto simp: apply_chunk_def split: prod.splits)
  qed (simp add: apply_chunk_def)
  then obtain x s' where run: "apply_chunk L chunk s = (Inl x, s')" by (metis prod.collapse)
  then show ?thesis using apply_chunk_error_frame [OF run] by fastforce
qed

end


section \<open>Properties\<close>

text \<open>A concrete node and entries for the instances below.\<close>

definition demo_sm :: "mem state_machine" where
  "demo_sm =
    \<lparr>sm_env = mem_empty, running = True, last_applied_index = 0, last_applied_term = 0,
     entry_terms = Map.empty, snapshot_meta = None, map_size = 0\<rparr>"

definition demo_entry :: "u64 \<Rightarrow> command \<Rightarrow> apply_entry" where
  "demo_entry i c = \<lparr>entry_index = i, entry_term = 1, entry_command = c\<rparr>"

definition demo_chunk :: "apply_entry list" where
  "demo_chunk =
    [demo_entry 1 (Insert [5] [1] None),
     demo_entry 2 (CompareAndSwap [5] (Some [1]) [2]),
     demo_entry 3 (CompareAndSwap [5] (Some [1]) [3]),
     demo_entry 4 (Batch [BatchInsert [6] [9], BatchDelete [5], BatchInsert [7] [8]])]"

lemmas demo_defs = demo_sm_def demo_entry_def demo_chunk_def

lemma demo_chunk_admissible: "chunk_admissible mem_api demo_chunk"
  by (simp add: chunk_admissible_def demo_defs admissible_key_def mem_defs mem_max_key_def)

lemma demo_kv: "kv_of mem_view demo_sm = Map.empty"
  by (simp add: kv_of_def demo_defs mem_defs)

text \<open>C2. On a healthy store, applying a chunk whose keys LMDB admits returns \<open>Ok\<close>, and its
  results, the new contents of the \<open>kv\<close> database and \<open>last_applied\<close> are those of the abstract
  state machine run over the chunk; the meta and internal databases do not change.\<close>

theorem apply_chunk_total:
  assumes "lmdb_live L V" and "chunk_admissible L chunk"
  shows "\<exists>s'. apply_chunk L chunk s = (Inr (fst (spec_chunk chunk (kv_of V s))), s') \<and>
    kv_of V s' = snd (spec_chunk chunk (kv_of V s)) \<and>
    last_applied s' = (if chunk = [] then last_applied s else entry_id (last chunk)) \<and>
    (\<forall>d. d \<noteq> DB_KV \<longrightarrow> env_view V (sm_env s') d = env_view V (sm_env s) d)"
proof -
  have lmdb: "lmdb L V" using assms(1) by (rule lmdb_live.axioms)
  obtain s' where run: "apply_chunk L chunk s = (Inr (fst (spec_chunk chunk (kv_of V s))), s')"
    using lmdb_live.apply_chunk_live [OF assms] by blast
  note facts = lmdb.apply_chunk_refines [OF lmdb run]
  show ?thesis
    by (rule exI [of _ s']) (simp add: run facts(2,4) kv_of_def)
qed

theorem apply_chunk_total_witness:
  "\<exists>s'. apply_chunk mem_api demo_chunk demo_sm =
      (Inr [ApplySuccess 1, ApplySuccess 2, ApplyFailure 3, ApplySuccess 4], s') \<and>
    kv_of mem_view s' = [[6] \<mapsto> [9], [7] \<mapsto> [8]] \<and>
    last_applied s' = \<lparr>log_index = 4, log_term = 1\<rparr>"
  using apply_chunk_total [OF mem.lmdb_live_axioms demo_chunk_admissible, of demo_sm]
  by (auto simp: demo_kv demo_chunk_def demo_entry_def spec_result_def entry_id_def fun_eq_iff)

text \<open>C1. Whatever LMDB does, a chunk that returns \<open>Ok\<close> has refined the abstract state machine:
  every entry got the result the abstract machine gives it (in order, none lost), all their
  writes are visible together, and the term cache holds exactly the chunk's terms on top of the
  old ones.\<close>

theorem apply_chunk_sound:
  assumes "lmdb L V" and "apply_chunk L chunk s = (Inr rs, s')"
  shows "spec_chunk chunk (kv_of V s) = (rs, kv_of V s') \<and> length rs = length chunk \<and>
    entry_terms s' = fold record_term chunk (entry_terms s) \<and> running s' = running s"
proof -
  note facts = lmdb.apply_chunk_refines [OF assms]
  show ?thesis
    using facts(1,2,5,6) by (simp add: kv_of_def prod_eq_iff length_spec_chunk)
qed

theorem apply_chunk_sound_witness:
  "spec_chunk demo_chunk Map.empty =
    (fst (spec_chunk demo_chunk Map.empty), kv_of mem_view (snd (apply_chunk mem_api demo_chunk demo_sm)))"
proof -
  obtain s' where run: "apply_chunk mem_api demo_chunk demo_sm =
      (Inr (fst (spec_chunk demo_chunk (kv_of mem_view demo_sm))), s')"
    using mem.apply_chunk_live [OF demo_chunk_admissible] by blast
  show ?thesis
    using apply_chunk_sound [OF mem.lmdb_axioms run] by (simp add: run demo_kv)
qed

text \<open>A chunk that returns \<open>Err\<close>, wherever it failed (beginning the transaction, in any
  entry, or at the commit), leaves the environment, \<open>last_applied\<close>, the snapshot metadata and
  the running flag as they were: no entry of a failed chunk is visible.\<close>

theorem apply_chunk_atomic:
  assumes "apply_chunk L chunk s = (Inl e, s')"
  shows "sm_env s' = sm_env s \<and> last_applied s' = last_applied s \<and>
    snapshot_meta s' = snapshot_meta s \<and> running s' = running s"
  using apply_chunk_error_frame [OF assms] by (auto simp: last_applied_def)

theorem apply_chunk_atomic_witness:
  "sm_env (snd (apply_chunk mem_api [demo_entry 1 (Insert [5] [1] None), demo_entry 2 (Delete [])]
     demo_sm)) = sm_env demo_sm"
proof -
  have "apply_chunk mem_api [demo_entry 1 (Insert [5] [1] None), demo_entry 2 (Delete [])] demo_sm =
      (Inl (lmdb_err bad_val_size), demo_sm\<lparr>entry_terms := [1 \<mapsto> 1]\<rparr>)"
    by (simp add: apply_chunk_def demo_defs mem_defs mem_key_ok_def mem_max_key_def)
  from apply_chunk_atomic [OF this] show ?thesis
    by (simp add: \<open>apply_chunk _ _ _ = _\<close>)
qed

text \<open>Nodes may cut the log into chunks differently: applying two chunks one after the other
  and applying them as one chunk give the same results and the same state.\<close>

theorem apply_chunk_split:
  assumes "lmdb_live L V" and "chunk_admissible L (xs @ ys)"
  shows "\<exists>ra rb s1 s2 s12.
    apply_chunk L xs s = (Inr ra, s1) \<and> apply_chunk L ys s1 = (Inr rb, s2) \<and>
    apply_chunk L (xs @ ys) s = (Inr (ra @ rb), s12) \<and>
    kv_of V s12 = kv_of V s2 \<and> last_applied s12 = last_applied s2 \<and>
    entry_terms s12 = entry_terms s2"
proof -
  have lmdb: "lmdb L V" using assms(1) by (rule lmdb_live.axioms)
  have ok: "chunk_admissible L xs" "chunk_admissible L ys"
    using assms(2) by (auto simp: chunk_admissible_def)
  obtain s1 where s1: "apply_chunk L xs s = (Inr (fst (spec_chunk xs (kv_of V s))), s1)"
    using lmdb_live.apply_chunk_live [OF assms(1) ok(1)] by blast
  obtain s2 where s2: "apply_chunk L ys s1 = (Inr (fst (spec_chunk ys (kv_of V s1))), s2)"
    using lmdb_live.apply_chunk_live [OF assms(1) ok(2)] by blast
  obtain s12 where
    s12: "apply_chunk L (xs @ ys) s = (Inr (fst (spec_chunk (xs @ ys) (kv_of V s))), s12)"
    using lmdb_live.apply_chunk_live [OF assms] by blast
  note f1 = lmdb.apply_chunk_refines [OF lmdb s1] and f2 = lmdb.apply_chunk_refines [OF lmdb s2]
    and f12 = lmdb.apply_chunk_refines [OF lmdb s12]
  have kv1: "kv_of V s1 = snd (spec_chunk xs (kv_of V s))" using f1(2) by (simp add: kv_of_def)
  have "kv_of V s12 = kv_of V s2"
    using f12(2) f2(2) by (simp add: kv_of_def [of V s12] kv_of_def [of V s2] kv1 spec_chunk_append)
  moreover have "last_applied s12 = last_applied s2" using f12(4) f2(4) f1(4) by simp
  moreover have "entry_terms s12 = entry_terms s2" using f12(5) f2(5) f1(5) by simp
  moreover have "fst (spec_chunk (xs @ ys) (kv_of V s)) =
      fst (spec_chunk xs (kv_of V s)) @ fst (spec_chunk ys (kv_of V s1))"
    by (simp add: spec_chunk_append kv1)
  ultimately show ?thesis using s1 s2 s12 by metis
qed

theorem apply_chunk_split_witness:
  "\<exists>ra rb s1 s2 s12.
    apply_chunk mem_api (take 2 demo_chunk) demo_sm = (Inr ra, s1) \<and>
    apply_chunk mem_api (drop 2 demo_chunk) s1 = (Inr rb, s2) \<and>
    apply_chunk mem_api demo_chunk demo_sm = (Inr (ra @ rb), s12) \<and>
    kv_of mem_view s12 = kv_of mem_view s2"
proof -
  have "chunk_admissible mem_api (take 2 demo_chunk @ drop 2 demo_chunk)"
    by (simp add: demo_chunk_admissible)
  from apply_chunk_split [OF mem.lmdb_live_axioms this, of demo_sm] show ?thesis
    unfolding append_take_drop_id by blast
qed

end
