(* ===== verification/Recovery.thy ===== *)
theory Recovery
  imports Apply
begin

text \<open>
  Durability of the state machine: reopening a data directory, persisting \<open>last_applied\<close>,
  snapshot transfer between nodes, reset, and what replaying the log after a crash does.
  Replaying is harmless for chunks without compare-and-swap and is not harmless in general,
  because \<open>apply_chunk\<close> does not store \<open>last_applied\<close> in its own transaction.
\<close>


section \<open>Reading what is stored\<close>

definition stored_u64 :: "('e, 't) lmdb_view \<Rightarrow> 'e \<Rightarrow> bytes \<Rightarrow> u64" where
  "stored_u64 V e key =
    (case env_view V e DB_META key of None \<Rightarrow> 0 | Some b \<Rightarrow> u64_from_bytes b)"

definition stored_last_applied :: "('e, 't) lmdb_view \<Rightarrow> 'e \<Rightarrow> log_id" where
  "stored_last_applied V e =
    \<lparr>log_index = stored_u64 V e META_LAST_APPLIED_INDEX,
     log_term = stored_u64 V e META_LAST_APPLIED_TERM\<rparr>"

lemma u64_from_to_le_bytes [simp]: "u64_from_bytes (to_le_bytes w) = w"
  by (simp add: u64_from_bytes_def)

lemma from_be_bytes_zeros: "from_be_bytes (replicate n 0) = 0"
proof -
  have "be_value (replicate n 0) = 0" by (induction n) auto
  then show ?thesis by (simp add: from_be_bytes_def)
qed

text \<open>A stored value of the wrong length reads as zero.\<close>

lemma u64_from_bytes_bad: "length b \<noteq> 8 \<Longrightarrow> u64_from_bytes b = 0"
  by (simp add: u64_from_bytes_def from_le_bytes_def from_be_bytes_zeros)

lemma length_str_bytes [simp]: "length (str_bytes x) = length x"
  by (simp add: str_bytes_def)

lemma meta_key_lengths:
  "length META_LAST_APPLIED_INDEX = 18" "length META_LAST_APPLIED_TERM = 17"
  by (simp_all add: META_LAST_APPLIED_INDEX_def META_LAST_APPLIED_TERM_def)

lemma meta_keys_distinct [simp]:
  "META_LAST_APPLIED_INDEX \<noteq> META_LAST_APPLIED_TERM"
  "META_LAST_APPLIED_TERM \<noteq> META_LAST_APPLIED_INDEX"
  using arg_cong [of META_LAST_APPLIED_INDEX META_LAST_APPLIED_TERM length] meta_key_lengths
  by auto

lemma meta_keys_admissible:
  assumes "511 \<le> max_key_size L"
  shows "admissible_key L META_LAST_APPLIED_INDEX" "admissible_key L META_LAST_APPLIED_TERM"
  using assms meta_key_lengths by (auto simp: admissible_key_def)

text \<open>The environment with \<open>last_applied\<close> written to its meta database.\<close>

definition with_last_applied :: "log_id \<Rightarrow> (string \<Rightarrow> kv) \<Rightarrow> string \<Rightarrow> kv" where
  "with_last_applied l view = view(DB_META := (view DB_META)
     (META_LAST_APPLIED_INDEX \<mapsto> to_le_bytes (log_index l),
      META_LAST_APPLIED_TERM \<mapsto> to_le_bytes (log_term l)))"

lemma stored_with_last_applied:
  "env_view V e = with_last_applied l view \<Longrightarrow> stored_last_applied V e = l"
  by (simp add: stored_last_applied_def stored_u64_def with_last_applied_def)


section \<open>Lemmas over the store\<close>

context lmdb
begin

lemma sm_new_refines:
  assumes "sm_new L mkdir file config = Inr s"
  shows "case file of
      None \<Rightarrow> env_view V (sm_env s) = (\<lambda>_. Map.empty)
    | Some e0 \<Rightarrow> env_view V (sm_env s) = env_view V e0"
    and "last_applied s = stored_last_applied V (sm_env s)"
    and "env_dbs V (sm_env s) \<supseteq> {DB_KV, DB_META, DB_INTERNAL}"
    and "running s" "entry_terms s = Map.empty" "snapshot_meta s = None"
    and "map_size s = map_size_gb config"
proof -
  obtain env t0 t1 t2 t3 i j env' where steps:
    "open_env L file (map_size_gb config) 3 = Inr env" "write_txn L env = Inr t0"
    "create_database L t0 DB_KV = Inr t1" "create_database L t1 DB_META = Inr t2"
    "create_database L t2 DB_INTERNAL = Inr t3"
    "db_get L t3 DB_META META_LAST_APPLIED_INDEX = Inr i"
    "db_get L t3 DB_META META_LAST_APPLIED_TERM = Inr j"
    "txn_commit L t3 = Inr env'"
    and s: "s = \<lparr>sm_env = env', running = True,
         last_applied_index = (case i of None \<Rightarrow> 0 | Some b \<Rightarrow> u64_from_bytes b),
         last_applied_term = (case j of None \<Rightarrow> 0 | Some b \<Rightarrow> u64_from_bytes b),
         entry_terms = Map.empty, snapshot_meta = None, map_size = map_size_gb config\<rparr>"
    using assms by (auto simp: sm_new_def and_then_eq_Inr)
  note facts = write_txn [OF steps(2)] create [OF steps(3)] create [OF steps(4)]
    create [OF steps(5)] get [OF steps(6)] get [OF steps(7)] commit [OF steps(8)]
  show "case file of
      None \<Rightarrow> env_view V (sm_env s) = (\<lambda>_. Map.empty)
    | Some e0 \<Rightarrow> env_view V (sm_env s) = env_view V e0"
    using facts steps(1) s by (auto dest: open_env_new open_env_old split: option.split)
  show "last_applied s = stored_last_applied V (sm_env s)"
    using facts s by (simp add: last_applied_def stored_last_applied_def stored_u64_def)
  show "env_dbs V (sm_env s) \<supseteq> {DB_KV, DB_META, DB_INTERNAL}" using facts s by auto
qed (use assms in \<open>auto simp: sm_new_def and_then_eq_Inr\<close>)

lemma persist_refines:
  assumes "persist_last_applied L l s = (Inr (), s')"
  shows "env_view V (sm_env s') = with_last_applied l (env_view V (sm_env s))"
    and "env_dbs V (sm_env s') = env_dbs V (sm_env s)"
    and "last_applied s' = l"
proof -
  obtain t0 t1 t2 env where steps:
    "write_txn L (sm_env s) = Inr t0"
    "db_put L t0 DB_META META_LAST_APPLIED_INDEX (to_le_bytes (log_index l)) = Inr t1"
    "db_put L t1 DB_META META_LAST_APPLIED_TERM (to_le_bytes (log_term l)) = Inr t2"
    "txn_commit L t2 = Inr env" and s': "s' = update_last_applied l (s\<lparr>sm_env := env\<rparr>)"
    using assms
    by (auto simp: persist_last_applied_def and_then_eq_Inr split: sum.splits)
  note facts = write_txn [OF steps(1)] put [OF steps(2)] put [OF steps(3)] commit [OF steps(4)]
  show "env_view V (sm_env s') = with_last_applied l (env_view V (sm_env s))"
    using facts s' by (auto simp: with_last_applied_def update_last_applied_def)
  show "env_dbs V (sm_env s') = env_dbs V (sm_env s)"
    using facts s' by (simp add: update_last_applied_def)
  show "last_applied s' = l" using s' by (simp add: update_last_applied_def last_applied_def)
qed

lemma copy_items_refines:
  "copy_items L (map Inr xs) t = Inr t' \<Longrightarrow>
   txn_view V t' = set_kv (txn_view V t DB_KV ++ map_of (rev xs)) (txn_view V t) \<and>
   txn_dbs V t' = txn_dbs V t"
proof (induction xs arbitrary: t)
  case (Cons x xs)
  obtain k v where x: "x = (k, v)" by (cases x)
  obtain t1 where put: "db_put L t DB_KV k v = Inr t1" and rest: "copy_items L (map Inr xs) t1 = Inr t'"
    using Cons.prems x by (auto simp: and_then_eq_Inr)
  show ?case using put_kv [OF put] Cons.IH [OF rest] x by (simp, simp add: fun_upd_def)
qed simp

lemma copy_items_error: "\<exists>m. copy_items L (map Inr ys @ Inl e # rest) t = Inl m"
proof (induction ys arbitrary: t)
  case (Cons y ys)
  obtain k v where "y = (k, v)" by (cases y)
  then show ?case using Cons by (cases "db_put L t DB_KV k v") auto
qed simp

lemma copy_items_all_ok:
  assumes "copy_items L its t = Inr t'" and "reads_as its xs"
  shows "its = map Inr xs"
proof (rule ccontr)
  assume "its \<noteq> map Inr xs"
  then obtain n e rest where "its = map Inr (take n xs) @ Inl e # rest"
    using assms(2) by (auto simp: reads_as_def)
  then show False using copy_items_error [of "take n xs" e rest t] assms(1) by auto
qed

lemma map_of_rev_items: "finite (dom m) \<Longrightarrow> map_of (rev (items m)) = m"
proof
  fix k
  assume fin: "finite (dom m)"
  have "distinct (map fst (rev (items m)))"
    using sorted_items strict_sorted_iff by (metis distinct_rev rev_map)
  then have "map_of (rev (items m)) k = Some v \<longleftrightarrow> m k = Some v" for v
    using set_items [OF fin] by simp
  then show "map_of (rev (items m)) k = m k" by (metis not_None_eq)
qed

lemma put_last_applied_refines:
  assumes "put_last_applied L inc t = Inr t'"
  shows "txn_view V t' =
      (case inc of None \<Rightarrow> txn_view V t | Some l \<Rightarrow> with_last_applied l (txn_view V t)) \<and>
    txn_dbs V t' = txn_dbs V t"
proof (cases inc)
  case (Some l)
  then obtain t1 where
    "db_put L t DB_META META_LAST_APPLIED_INDEX (to_le_bytes (log_index l)) = Inr t1"
    "db_put L t1 DB_META META_LAST_APPLIED_TERM (to_le_bytes (log_term l)) = Inr t'"
    using assms by (auto simp: put_last_applied_def and_then_eq_Inr)
  then show ?thesis using Some put by (fastforce simp: with_last_applied_def)
qed (use assms in \<open>simp add: put_last_applied_def\<close>)

lemma restore_refines:
  assumes "restore_blocking L env msize meta file = Inr env'"
  shows "\<exists>snap. open_env L file msize 3 = Inr snap \<and> DB_KV \<in> env_dbs V snap \<and>
    env_view V env' =
      (case last_included meta of None \<Rightarrow> id | Some l \<Rightarrow> with_last_applied l)
        (set_kv (env_view V snap DB_KV) (env_view V env)) \<and>
    env_dbs V env' = env_dbs V env"
proof -
  obtain snap rt wt t1 its t2 t3 where steps:
    "open_env L file msize 3 = Inr snap" "read_txn L snap = Inr rt"
    "open_database L rt DB_KV = Inr True" "write_txn L env = Inr wt"
    "db_clear L wt DB_KV = Inr t1" "db_iter L rt DB_KV = Inr its"
    "copy_items L its t1 = Inr t2" "put_last_applied L (last_included meta) t2 = Inr t3"
    "txn_commit L t3 = Inr env'"
    using assms by (auto simp: restore_blocking_def and_then_eq_Inr split: if_splits)
  have its: "its = map Inr (items (txn_view V rt DB_KV))"
    using copy_items_all_ok [OF steps(7)] iter [OF steps(6)] by blast
  note copied = copy_items_refines [OF steps(7) [unfolded its]]
  note facts = read_txn [OF steps(2)] open_db [OF steps(3)] write_txn [OF steps(4)]
    clear [OF steps(5)] copied put_last_applied_refines [OF steps(8)] commit [OF steps(9)]
    map_of_rev_items [OF finite_txn, of rt DB_KV]
  have "env_view V env' = (case last_included meta of None \<Rightarrow> id | Some l \<Rightarrow> with_last_applied l)
      (set_kv (env_view V snap DB_KV) (env_view V env))"
    using facts by (auto simp: set_kv_def split: option.split)
  then show ?thesis using steps(1) facts by simp
qed

lemma reset_refines:
  assumes "sm_reset L s = (Inr (), s')"
  shows "env_view V (sm_env s') = (env_view V (sm_env s))
      (DB_KV := Map.empty, DB_META := Map.empty, DB_INTERNAL := Map.empty)"
    and "last_applied s' = \<lparr>log_index = 0, log_term = 0\<rparr>"
    and "snapshot_meta s' = None" "entry_terms s' = Map.empty"
proof -
  obtain t0 t1 t2 t3 env where steps:
    "write_txn L (sm_env s) = Inr t0" "db_clear L t0 DB_KV = Inr t1"
    "db_clear L t1 DB_META = Inr t2" "db_clear L t2 DB_INTERNAL = Inr t3"
    "txn_commit L t3 = Inr env"
    and s': "s' = s\<lparr>sm_env := env, last_applied_index := 0, last_applied_term := 0,
                     snapshot_meta := None, entry_terms := Map.empty\<rparr>"
    using assms by (auto simp: sm_reset_def and_then_eq_Inr split: sum.splits)
  show "env_view V (sm_env s') = (env_view V (sm_env s))
      (DB_KV := Map.empty, DB_META := Map.empty, DB_INTERNAL := Map.empty)"
    using write_txn [OF steps(1)] clear [OF steps(2)] clear [OF steps(3)] clear [OF steps(4)]
      commit [OF steps(5)] s' by simp
qed (use assms in \<open>auto simp: sm_reset_def last_applied_def split: sum.splits\<close>)

end


section \<open>The invariant of the stored data\<close>

definition keys_admissible :: "('e, 't) lmdb_api \<Rightarrow> kv \<Rightarrow> bool" where
  "keys_admissible L m \<longleftrightarrow> (\<forall>k \<in> dom m. admissible_key L k)"

definition meta_wf :: "kv \<Rightarrow> bool" where
  "meta_wf m \<longleftrightarrow> (\<forall>key b. key \<in> {META_LAST_APPLIED_INDEX, META_LAST_APPLIED_TERM} \<longrightarrow>
     m key = Some b \<longrightarrow> length b = 8)"

text \<open>
  The three databases exist, every stored key is one LMDB admits, and the two counters, where
  present, are eight bytes long (so \<open>u64_from_bytes\<close> never falls back to zero).
\<close>

definition env_wf :: "('e, 't) lmdb_api \<Rightarrow> ('e, 't) lmdb_view \<Rightarrow> 'e \<Rightarrow> bool" where
  "env_wf L V e \<longleftrightarrow> {DB_KV, DB_META, DB_INTERNAL} \<subseteq> env_dbs V e \<and>
     keys_admissible L (env_view V e DB_KV) \<and> meta_wf (env_view V e DB_META)"

text \<open>Every state the engine and the readers can drive a state machine into.\<close>

inductive sm_reachable :: "('e, 't) lmdb_api \<Rightarrow> 'e state_machine \<Rightarrow> bool"
  for L :: "('e, 't) lmdb_api" where
  opened: "sm_new L mkdir None config = Inr s \<Longrightarrow> sm_reachable L s"
| reopened: "sm_reachable L s \<Longrightarrow> sm_new L mkdir (Some (sm_env s)) config = Inr s' \<Longrightarrow>
    sm_reachable L s'"
| applied: "sm_reachable L s \<Longrightarrow> apply_chunk L chunk s = (r, s') \<Longrightarrow> sm_reachable L s'"
| deleted: "sm_reachable L s \<Longrightarrow> delete_local L k s = (r, s') \<Longrightarrow> sm_reachable L s'"
| persisted: "sm_reachable L s \<Longrightarrow> persist_last_applied L l s = (r, s') \<Longrightarrow> sm_reachable L s'"
| restored: "sm_reachable L s \<Longrightarrow> apply_snapshot_from_file L m f s = (r, s') \<Longrightarrow> sm_reachable L s'"
| generated: "sm_reachable L s \<Longrightarrow> generate_snapshot_data L mkdir old l s = (g, s') \<Longrightarrow>
    sm_reachable L s'"
| reset: "sm_reachable L s \<Longrightarrow> sm_reset L s = (r, s') \<Longrightarrow> sm_reachable L s'"
| started: "sm_reachable L s \<Longrightarrow> sm_reachable L (sm_start s)"
| stopped: "sm_reachable L s \<Longrightarrow> sm_reachable L (sm_stop s)"

lemma keys_admissible_simps [simp]:
  "keys_admissible L Map.empty"
  "keys_admissible L m \<Longrightarrow> keys_admissible L (m(k := None))"
  "keys_admissible L m \<Longrightarrow> admissible_key L k \<Longrightarrow> keys_admissible L (m(k \<mapsto> v))"
  by (auto simp: keys_admissible_def)

lemma meta_wf_with_last_applied: "meta_wf (view DB_META) \<Longrightarrow> meta_wf (with_last_applied l view DB_META)"
  by (auto simp: meta_wf_def with_last_applied_def)

lemma with_last_applied_other [simp]: "d \<noteq> DB_META \<Longrightarrow> with_last_applied l view d = view d"
  by (simp add: with_last_applied_def)

context lmdb
begin

lemma put_admits:
  assumes "db_put L t d k v = Inr t'"
  shows "admissible_key L k"
proof (rule ccontr)
  assume "\<not> admissible_key L k"
  then obtain e where "db_put L t d k v = Inl e" using put_refused by blast
  then show False using assms by simp
qed

lemma put_keys:
  "db_put L t DB_KV k v = Inr t' \<Longrightarrow> keys_admissible L (txn_view V t DB_KV) \<Longrightarrow>
   keys_admissible L (txn_view V t' DB_KV)"
  using put_kv put_admits by simp

lemma delete_keys:
  "db_delete L t DB_KV k = Inr (b, t') \<Longrightarrow> keys_admissible L (txn_view V t DB_KV) \<Longrightarrow>
   keys_admissible L (txn_view V t' DB_KV)"
  using delete_kv by simp

lemma apply_batch_keys:
  "apply_batch L ops t = Inr t' \<Longrightarrow> keys_admissible L (txn_view V t DB_KV) \<Longrightarrow>
   keys_admissible L (txn_view V t' DB_KV)"
proof (induction ops arbitrary: t)
  case (Cons op ops)
  then show ?case
    by (cases op) (auto simp: and_then_eq_Inr dest: put_keys delete_keys)
qed simp

lemma apply_command_keys:
  "apply_command L i c t = Inr (t', r) \<Longrightarrow> keys_admissible L (txn_view V t DB_KV) \<Longrightarrow>
   keys_admissible L (txn_view V t' DB_KV)"
  by (cases c)
    (auto simp: and_then_eq_Inr split: if_splits dest: put_keys delete_keys apply_batch_keys)

lemma apply_loop_keys:
  "apply_loop L chunk t rs h ts = (Inr (t', rs', h'), ts') \<Longrightarrow>
   keys_admissible L (txn_view V t DB_KV) \<Longrightarrow> keys_admissible L (txn_view V t' DB_KV)"
proof (induction chunk arbitrary: t rs h ts)
  case (Cons e chunk)
  then show ?case by (auto split: sum.splits dest: apply_command_keys)
qed simp

lemma copy_items_keys:
  "copy_items L its t = Inr t' \<Longrightarrow> keys_admissible L (txn_view V t DB_KV) \<Longrightarrow>
   keys_admissible L (txn_view V t' DB_KV)"
proof (induction its arbitrary: t)
  case (Cons x its)
  then show ?case by (auto simp: and_then_eq_Inr dest: put_keys)
qed simp

lemma apply_chunk_env_wf:
  assumes "apply_chunk L chunk s = (r, s')" and "env_wf L V (sm_env s)"
  shows "env_wf L V (sm_env s')"
proof (cases r)
  case (Inl e)
  then show ?thesis using assms apply_chunk_error_frame by fastforce
next
  case (Inr rs)
  note facts = apply_chunk_refines [OF assms(1) [unfolded Inr]]
  obtain t t' h ts env where steps: "write_txn L (sm_env s) = Inr t"
    "apply_loop L chunk t [] None (entry_terms s) = (Inr (t', rs, h), ts)"
    "txn_commit L t' = Inr env" and "sm_env s' = env"
    using assms(1) Inr
    by (auto simp: apply_chunk_def update_last_applied_def split: sum.splits prod.splits option.splits)
  then have "keys_admissible L (env_view V (sm_env s') DB_KV)"
    using apply_loop_keys [OF steps(2)] write_txn [OF steps(1)] commit [OF steps(3)] assms(2)
    by (simp add: env_wf_def)
  then show ?thesis using facts(2,3) assms(2) by (simp add: env_wf_def)
qed

lemma restore_env_wf:
  assumes "restore_blocking L env msize meta file = Inr env'" and "env_wf L V env"
  shows "env_wf L V env'"
proof -
  obtain wt t1 its t2 t3 where steps:
    "write_txn L env = Inr wt" "db_clear L wt DB_KV = Inr t1" "copy_items L its t1 = Inr t2"
    "put_last_applied L (last_included meta) t2 = Inr t3" "txn_commit L t3 = Inr env'"
    using assms by (auto simp: restore_blocking_def and_then_eq_Inr split: if_splits)
  have "keys_admissible L (txn_view V t2 DB_KV)"
    using copy_items_keys [OF steps(3)] clear [OF steps(2)] by simp
  then have "keys_admissible L (env_view V env' DB_KV)"
    using put_last_applied_refines [OF steps(4)] commit [OF steps(5)]
    by (simp split: option.splits)
  moreover have "meta_wf (env_view V env' DB_META)" "env_dbs V env' = env_dbs V env"
    using restore_refines [OF assms(1)] assms(2)
    by (auto simp: env_wf_def set_kv_def intro!: meta_wf_with_last_applied split: option.splits)
  ultimately show ?thesis using assms(2) by (simp add: env_wf_def)
qed

lemma apply_snapshot_env_wf:
  assumes "apply_snapshot_from_file L m f s = (r, s')" and "env_wf L V (sm_env s)"
  shows "env_wf L V (sm_env s')"
  using assms restore_env_wf
  by (fastforce simp: apply_snapshot_from_file_def Let_def update_last_applied_def
      update_last_snapshot_metadata_def split: sum.splits option.splits)

lemma persist_env_wf:
  assumes "persist_last_applied L l s = (r, s')" and "env_wf L V (sm_env s)"
  shows "env_wf L V (sm_env s')"
proof (cases r)
  case (Inl e)
  then show ?thesis using assms by (auto simp: persist_last_applied_def split: sum.splits)
next
  case (Inr u)
  then have "persist_last_applied L l s = (Inr (), s')" using assms(1) by simp
  from persist_refines [OF this] show ?thesis
    using assms(2) by (simp add: env_wf_def meta_wf_with_last_applied)
qed

lemma delete_local_refines:
  assumes "delete_local L k s = (Inr (), s')"
  shows "env_view V (sm_env s') = set_kv ((kv_of V s)(k := None)) (env_view V (sm_env s))"
    and "env_dbs V (sm_env s') = env_dbs V (sm_env s)"
    and "s' = s\<lparr>sm_env := sm_env s'\<rparr>"
proof -
  obtain t0 b t1 env where steps: "write_txn L (sm_env s) = Inr t0"
    "db_delete L t0 DB_KV k = Inr (b, t1)" "txn_commit L t1 = Inr env"
    and s': "s' = s\<lparr>sm_env := env\<rparr>"
    using assms by (auto simp: delete_local_def and_then_eq_Inr split: sum.splits prod.splits)
  note facts = write_txn [OF steps(1)] delete_kv [OF steps(2)] commit [OF steps(3)]
  show "env_view V (sm_env s') = set_kv ((kv_of V s)(k := None)) (env_view V (sm_env s))"
    using facts s' by (simp add: kv_of_def)
  show "env_dbs V (sm_env s') = env_dbs V (sm_env s)" using facts s' by simp
  show "s' = s\<lparr>sm_env := sm_env s'\<rparr>" using s' by simp
qed

lemma delete_local_env_wf:
  assumes "delete_local L k s = (r, s')" and "env_wf L V (sm_env s)"
  shows "env_wf L V (sm_env s')"
proof (cases r)
  case (Inl e)
  then show ?thesis using assms by (auto simp: delete_local_def split: sum.splits)
next
  case (Inr u)
  then have "delete_local L k s = (Inr (), s')" using assms(1) by simp
  from delete_local_refines [OF this] show ?thesis
    using assms(2) by (simp add: env_wf_def kv_of_def)
qed

lemma reset_env_wf:
  assumes "sm_reset L s = (r, s')" and "env_wf L V (sm_env s)"
  shows "env_wf L V (sm_env s')"
proof (cases r)
  case (Inl e)
  then show ?thesis using assms by (auto simp: sm_reset_def split: sum.splits)
next
  case (Inr u)
  then have run: "sm_reset L s = (Inr (), s')" using assms(1) by simp
  obtain t0 t1 t2 t3 env where steps:
    "write_txn L (sm_env s) = Inr t0" "db_clear L t0 DB_KV = Inr t1"
    "db_clear L t1 DB_META = Inr t2" "db_clear L t2 DB_INTERNAL = Inr t3"
    "txn_commit L t3 = Inr env" "sm_env s' = env"
    using run by (auto simp: sm_reset_def and_then_eq_Inr split: sum.splits)
  have "env_dbs V (sm_env s') = env_dbs V (sm_env s)"
    using write_txn [OF steps(1)] clear [OF steps(2)] clear [OF steps(3)] clear [OF steps(4)]
      commit [OF steps(5)] steps(6) by simp
  then show ?thesis
    using reset_refines(1) [OF run] assms(2) by (simp add: env_wf_def meta_wf_def)
qed

lemma sm_new_env_wf:
  assumes "sm_new L mkdir f config = Inr s"
    and "case f of None \<Rightarrow> True | Some e \<Rightarrow> env_wf L V e"
  shows "env_wf L V (sm_env s)"
  using sm_new_refines(1,3) [OF assms(1)] assms(2)
  by (cases f) (auto simp: env_wf_def meta_wf_def)

lemma reachable_env_wf: "sm_reachable L s \<Longrightarrow> env_wf L V (sm_env s)"
proof (induction rule: sm_reachable.induct)
  case (generated s mkdir old l g s')
  then show ?case
    by (auto simp: generate_snapshot_data_def Let_def persist_last_snapshot_metadata_def
        update_last_snapshot_metadata_def split: sum.splits)
qed (auto simp: sm_start_def sm_stop_def intro: sm_new_env_wf apply_chunk_env_wf
    delete_local_env_wf persist_env_wf apply_snapshot_env_wf reset_env_wf)

end


section \<open>Progress on a healthy store\<close>

context lmdb_live
begin

lemmas meta_keys_ok = meta_keys_admissible [OF key_size]

lemma sm_new_live: "\<exists>s. sm_new L (Inr ()) f config = Inr s"
proof -
  obtain e t0 t1 t2 t3 where "open_env L f (map_size_gb config) 3 = Inr e" "write_txn L e = Inr t0"
    "create_database L t0 DB_KV = Inr t1" "create_database L t1 DB_META = Inr t2"
    "create_database L t2 DB_INTERNAL = Inr t3"
    using open_env_ok write_txn_ok create_ok by meson
  moreover obtain i j e' where "db_get L t3 DB_META META_LAST_APPLIED_INDEX = Inr i"
    "db_get L t3 DB_META META_LAST_APPLIED_TERM = Inr j" "txn_commit L t3 = Inr e'"
    using get_ok commit_ok meta_keys_ok by meson
  ultimately show ?thesis by (simp add: sm_new_def)
qed

lemma persist_live: "\<exists>s'. persist_last_applied L l s = (Inr (), s')"
proof -
  obtain t0 where t0: "write_txn L (sm_env s) = Inr t0" using write_txn_ok by blast
  obtain t1 where t1:
    "db_put L t0 DB_META META_LAST_APPLIED_INDEX (to_le_bytes (log_index l)) = Inr t1"
    using put_ok meta_keys_ok by blast
  obtain t2 where t2: "db_put L t1 DB_META META_LAST_APPLIED_TERM (to_le_bytes (log_term l)) = Inr t2"
    using put_ok meta_keys_ok by blast
  obtain e where "txn_commit L t2 = Inr e" using commit_ok by blast
  then show ?thesis using t0 t1 t2 by (simp add: persist_last_applied_def)
qed

lemma delete_local_live: "admissible_key L k \<Longrightarrow> \<exists>s'. delete_local L k s = (Inr (), s')"
proof -
  assume k: "admissible_key L k"
  obtain t0 b t1 e where "write_txn L (sm_env s) = Inr t0" "db_delete L t0 DB_KV k = Inr (b, t1)"
    "txn_commit L t1 = Inr e"
    using write_txn_ok delete_ok [OF k] commit_ok by meson
  then show ?thesis by (simp add: delete_local_def)
qed

lemma reset_live: "\<exists>s'. sm_reset L s = (Inr (), s')"
proof -
  obtain t0 t1 t2 t3 e where "write_txn L (sm_env s) = Inr t0" "db_clear L t0 DB_KV = Inr t1"
    "db_clear L t1 DB_META = Inr t2" "db_clear L t2 DB_INTERNAL = Inr t3" "txn_commit L t3 = Inr e"
    using write_txn_ok clear_ok commit_ok by meson
  then show ?thesis by (simp add: sm_reset_def)
qed

lemma copy_items_live:
  "\<forall>(k, v) \<in> set xs. admissible_key L k \<Longrightarrow> \<exists>t'. copy_items L (map Inr xs) t = Inr t'"
proof (induction xs arbitrary: t)
  case (Cons x xs)
  obtain k v where x: "x = (k, v)" by (cases x)
  obtain t1 where "db_put L t DB_KV k v = Inr t1" using put_ok Cons.prems x by fastforce
  then show ?case using Cons x by simp
qed simp

lemma put_last_applied_live: "\<exists>t'. put_last_applied L inc t = Inr t'"
proof (cases inc)
  case (Some l)
  obtain t1 where t1:
    "db_put L t DB_META META_LAST_APPLIED_INDEX (to_le_bytes (log_index l)) = Inr t1"
    using put_ok meta_keys_ok by blast
  obtain t2 where "db_put L t1 DB_META META_LAST_APPLIED_TERM (to_le_bytes (log_term l)) = Inr t2"
    using put_ok meta_keys_ok by blast
  then show ?thesis using t1 Some by (simp add: put_last_applied_def)
qed (simp add: put_last_applied_def)

lemma restore_live:
  assumes "env_wf L V e0"
  shows "\<exists>env'. restore_blocking L env msize meta (Some e0) = Inr env'"
proof -
  obtain snap where snap: "open_env L (Some e0) msize 3 = Inr snap" using open_env_ok by blast
  obtain rt where rt: "read_txn L snap = Inr rt" using read_txn_ok by blast
  have view: "txn_view V rt = env_view V e0" "txn_dbs V rt = env_dbs V e0"
    using open_env_old [OF snap] read_txn [OF rt] by simp_all
  obtain b where b: "open_database L rt DB_KV = Inr b" using open_db_ok by blast
  then have b': "b" using open_db [OF b] view assms by (simp add: env_wf_def)
  obtain wt where wt: "write_txn L env = Inr wt" using write_txn_ok by blast
  obtain t1 where t1: "db_clear L wt DB_KV = Inr t1" using clear_ok by blast
  have "\<forall>(k, v) \<in> set (items (txn_view V rt DB_KV)). admissible_key L k"
    using assms by (auto simp: view set_items [OF finite_env] env_wf_def keys_admissible_def)
  then obtain t2 where t2: "copy_items L (map Inr (items (txn_view V rt DB_KV))) t1 = Inr t2"
    using copy_items_live by blast
  obtain t3 where t3: "put_last_applied L (last_included meta) t2 = Inr t3"
    using put_last_applied_live by blast
  obtain e where "txn_commit L t3 = Inr e" using commit_ok by blast
  then show ?thesis
    by (simp add: restore_blocking_def snap rt b b' wt t1 iter_ok t2 t3)
qed

end


section \<open>Properties\<close>

text \<open>C27. In every state the node can reach, whatever calls fail, the three databases exist, every
  stored key is one LMDB admits, and the stored counters have the length that is read back.\<close>

theorem reachable_store_wf:
  assumes "lmdb L V" and "sm_reachable L s"
  shows "env_wf L V (sm_env s)"
  using lmdb.reachable_env_wf [OF assms] .

definition demo_config :: dlmdb_config where
  "demo_config = config_new [''data'']"

lemma demo_opened: "\<exists>s. sm_new mem_api (Inr ()) None demo_config = Inr s \<and> sm_reachable mem_api s"
  using mem.sm_new_live sm_reachable.opened by blast

theorem reachable_store_wf_witness:
  "\<exists>s. sm_new mem_api (Inr ()) None demo_config = Inr s \<and> env_wf mem_api mem_view (sm_env s)"
  using demo_opened reachable_store_wf [OF mem.lmdb_axioms] by blast

text \<open>C11. A clean shutdown loses nothing: dropping the state machine stores \<open>last_applied\<close>, and
  opening the directory again gives the same \<open>last_applied\<close> and the same contents.\<close>

theorem drop_then_reopen:
  assumes "lmdb_live L V"
  shows "\<exists>s'. sm_new L (Inr ()) (Some (sm_env (sm_drop L s))) config = Inr s' \<and>
    last_applied s' = last_applied s \<and> kv_of V s' = kv_of V s \<and> running s'"
proof -
  have lmdb: "lmdb L V" using assms by (rule lmdb_live.axioms)
  obtain s1 where s1: "persist_last_applied L (last_applied s) s = (Inr (), s1)"
    using lmdb_live.persist_live [OF assms] by blast
  obtain s' where s': "sm_new L (Inr ()) (Some (sm_env s1)) config = Inr s'"
    using lmdb_live.sm_new_live [OF assms] by blast
  note p = lmdb.persist_refines [OF lmdb s1] and n = lmdb.sm_new_refines [OF lmdb s']
  have view: "env_view V (sm_env s') = with_last_applied (last_applied s) (env_view V (sm_env s))"
    using n(1) p(1) by simp
  show ?thesis
    using s1 s' n(2,4) view stored_with_last_applied [OF view] by (simp add: sm_drop_def kv_of_def)
qed

theorem drop_then_reopen_witness:
  "\<exists>s'. sm_new mem_api (Inr ()) (Some (sm_env (sm_drop mem_api
        (demo_sm\<lparr>last_applied_index := 7, last_applied_term := 300\<rparr>)))) demo_config = Inr s' \<and>
    last_applied s' = \<lparr>log_index = 7, log_term = 300\<rparr>"
  using drop_then_reopen [OF mem.lmdb_live_axioms,
      of "demo_sm\<lparr>last_applied_index := 7, last_applied_term := 300\<rparr>" demo_config]
  by (auto simp: last_applied_def)

text \<open>A chunk with no compare-and-swap overwrites blindly: the last write to a key wins.\<close>

fun last_op :: "batch_op list \<Rightarrow> bytes \<Rightarrow> bytes option option" where
  "last_op [] k = None"
| "last_op (op # ops) k =
     (case last_op ops k of
        Some w \<Rightarrow> Some w
      | None \<Rightarrow> (case op of
            BatchInsert j v \<Rightarrow> if j = k then Some (Some v) else None
          | BatchDelete j \<Rightarrow> if j = k then Some None else None))"

fun command_ops :: "command \<Rightarrow> batch_op list" where
  "command_ops (Insert k v ttl) = [BatchInsert k v]"
| "command_ops (Delete k) = [BatchDelete k]"
| "command_ops (CompareAndSwap k expected v) = []"
| "command_ops (Batch ops) = ops"
| "command_ops Noop = []"

fun is_cas :: "command \<Rightarrow> bool" where
  "is_cas (CompareAndSwap k expected v) = True"
| "is_cas _ = False"

definition cas_free :: "apply_entry list \<Rightarrow> bool" where
  "cas_free chunk \<longleftrightarrow> (\<forall>e \<in> set chunk. \<not> is_cas (entry_command e))"

definition chunk_ops :: "apply_entry list \<Rightarrow> batch_op list" where
  "chunk_ops chunk = concat (map (\<lambda>e. command_ops (entry_command e)) chunk)"

lemma fold_spec_op: "fold spec_op ops m k = (case last_op ops k of None \<Rightarrow> m k | Some w \<Rightarrow> w)"
proof (induction ops arbitrary: m)
  case (Cons op ops)
  then show ?case by (cases op) (auto split: option.splits)
qed simp

lemma cas_free_spec: "cas_free chunk \<Longrightarrow> snd (spec_chunk chunk m) = fold spec_op (chunk_ops chunk) m"
proof (induction chunk arbitrary: m)
  case (Cons e chunk)
  then have "snd (spec_command (entry_command e) m) = fold spec_op (command_ops (entry_command e)) m"
    by (cases "entry_command e") (auto simp: cas_free_def)
  then show ?case
    using Cons by (auto simp: case_prod_beta chunk_ops_def cas_free_def)
qed (simp add: chunk_ops_def)

lemma cas_free_idempotent:
  "cas_free chunk \<Longrightarrow> snd (spec_chunk chunk (snd (spec_chunk chunk m))) = snd (spec_chunk chunk m)"
  by (simp add: cas_free_spec fun_eq_iff fold_spec_op split: option.split)

text \<open>A crash after a chunk was committed (so without \<open>Drop\<close>) loses \<open>last_applied\<close>: the node
  comes back with the contents of after the chunk and the \<open>last_applied\<close> of before it, so the
  engine hands it the chunk again. For a chunk without compare-and-swap the second application
  is harmless: it ends in the same contents and the same \<open>last_applied\<close>.\<close>

theorem crash_replay_safe:
  assumes "lmdb_live L V" and "sm_new L (Inr ()) f config = Inr s0"
    and "chunk_admissible L chunk" and "cas_free chunk" and "chunk \<noteq> []"
  shows "\<exists>r1 s1 s2 r3 s3. apply_chunk L chunk s0 = (Inr r1, s1) \<and>
    sm_new L (Inr ()) (Some (sm_env s1)) config = Inr s2 \<and>
    last_applied s2 = last_applied s0 \<and> kv_of V s2 = kv_of V s1 \<and>
    apply_chunk L chunk s2 = (Inr r3, s3) \<and>
    kv_of V s3 = kv_of V s1 \<and> last_applied s3 = last_applied s1"
proof -
  have lmdb: "lmdb L V" using assms(1) by (rule lmdb_live.axioms)
  obtain s1 where s1: "apply_chunk L chunk s0 = (Inr (fst (spec_chunk chunk (kv_of V s0))), s1)"
    using lmdb_live.apply_chunk_live [OF assms(1,3)] by blast
  obtain s2 where s2: "sm_new L (Inr ()) (Some (sm_env s1)) config = Inr s2"
    using lmdb_live.sm_new_live [OF assms(1)] by blast
  obtain s3 where s3: "apply_chunk L chunk s2 = (Inr (fst (spec_chunk chunk (kv_of V s2))), s3)"
    using lmdb_live.apply_chunk_live [OF assms(1,3)] by blast
  note n0 = lmdb.sm_new_refines [OF lmdb assms(2)] and n2 = lmdb.sm_new_refines [OF lmdb s2]
    and a1 = lmdb.apply_chunk_refines [OF lmdb s1] and a3 = lmdb.apply_chunk_refines [OF lmdb s3]
  have kv: "kv_of V s2 = kv_of V s1" using n2(1) by (simp add: kv_of_def)
  have "last_applied s2 = last_applied s0"
    using n0(2) n2(1,2) a1(2) by (simp add: stored_last_applied_def stored_u64_def)
  moreover have "kv_of V s3 = kv_of V s1"
    using a1(2) a3(2) kv cas_free_idempotent [OF assms(4)] by (simp add: kv_of_def)
  moreover have "last_applied s3 = last_applied s1" using a1(4) a3(4) assms(5) by simp
  ultimately show ?thesis using s1 s2 s3 kv by blast
qed

theorem crash_replay_safe_witness:
  "\<exists>s0 r1 s1 s2 r3 s3. sm_new mem_api (Inr ()) None demo_config = Inr s0 \<and>
    apply_chunk mem_api [demo_entry 1 (Insert [5] [1] None)] s0 = (Inr r1, s1) \<and>
    sm_new mem_api (Inr ()) (Some (sm_env s1)) demo_config = Inr s2 \<and>
    last_applied s2 = last_applied s0 \<and>
    apply_chunk mem_api [demo_entry 1 (Insert [5] [1] None)] s2 = (Inr r3, s3) \<and>
    kv_of mem_view s3 = kv_of mem_view s1"
proof -
  obtain s0 where s0: "sm_new mem_api (Inr ()) None demo_config = Inr s0" using demo_opened by blast
  have "chunk_admissible mem_api [demo_entry 1 (Insert [5] [1] None)]"
    by (simp add: chunk_admissible_def demo_entry_def admissible_key_def mem_defs mem_max_key_def)
  from crash_replay_safe [OF mem.lmdb_live_axioms s0 this] show ?thesis
    using s0 by (simp add: cas_free_def demo_entry_def) blast
qed

text \<open>The same crash with compare-and-swap in the chunk: the first entry fails at first and
  succeeds when it is replayed.\<close>

definition cas_chunk :: "apply_entry list" where
  "cas_chunk =
    [demo_entry 1 (CompareAndSwap [5] (Some [2]) [3]),
     demo_entry 2 (CompareAndSwap [5] None [2])]"

lemma cas_chunk_admissible: "chunk_admissible mem_api cas_chunk"
  by (simp add: chunk_admissible_def demo_entry_def cas_chunk_def admissible_key_def mem_defs
      mem_max_key_def)

text \<open>Replaying is not harmless with compare-and-swap: a node that crashes after this chunk
  and gets it again ends with value 3 where a node that did not crash holds value 2. The
  replicas have diverged for good, because \<open>apply_chunk\<close> does not store \<open>last_applied\<close> in the
  transaction that stores the chunk's writes.\<close>

theorem crash_replay_cas_diverges:
  "\<exists>s0 r1 s1 s2 r3 s3. sm_new mem_api (Inr ()) None demo_config = Inr s0 \<and>
    apply_chunk mem_api cas_chunk s0 = (Inr r1, s1) \<and>
    sm_new mem_api (Inr ()) (Some (sm_env s1)) demo_config = Inr s2 \<and>
    apply_chunk mem_api cas_chunk s2 = (Inr r3, s3) \<and>
    last_applied s3 = last_applied s1 \<and>
    kv_of mem_view s1 [5] = Some [2] \<and> kv_of mem_view s3 [5] = Some [3]"
proof -
  obtain s0 where s0: "sm_new mem_api (Inr ()) None demo_config = Inr s0" using demo_opened by blast
  obtain s1 where s1: "apply_chunk mem_api cas_chunk s0 =
      (Inr (fst (spec_chunk cas_chunk (kv_of mem_view s0))), s1)"
    using mem.apply_chunk_live [OF cas_chunk_admissible] by blast
  obtain s2 where s2: "sm_new mem_api (Inr ()) (Some (sm_env s1)) demo_config = Inr s2"
    using mem.sm_new_live by blast
  obtain s3 where s3: "apply_chunk mem_api cas_chunk s2 =
      (Inr (fst (spec_chunk cas_chunk (kv_of mem_view s2))), s3)"
    using mem.apply_chunk_live [OF cas_chunk_admissible] by blast
  note a1 = mem.apply_chunk_refines [OF s1] and a3 = mem.apply_chunk_refines [OF s3]
  have kv0: "kv_of mem_view s0 = Map.empty"
    using mem.sm_new_refines(1) [OF s0] by (simp add: kv_of_def)
  have kv1: "kv_of mem_view s1 = [[5] \<mapsto> [2]]"
    using a1(2) by (simp add: kv_of_def [of _ s1] kv0) (simp add: cas_chunk_def demo_entry_def)
  have kv2: "kv_of mem_view s2 = [[5] \<mapsto> [2]]"
    using mem.sm_new_refines(1) [OF s2] kv1 by (simp add: kv_of_def)
  have "kv_of mem_view s3 = [[5] \<mapsto> [3]]"
    using a3(2) by (simp add: kv_of_def [of _ s3] kv2) (simp add: cas_chunk_def demo_entry_def)
  then show ?thesis using s0 s1 s2 s3 kv1 a1(4) a3(4) by (fastforce simp: cas_chunk_def)
qed

lemma snapshot_transferred:
  assumes "lmdb_live L V" and "env_wf L V (sm_env a)"
  shows "\<exists>sum file a' b' b''.
    generate_snapshot_data L (Inr ()) old l a = (Inr (sum, file), a') \<and>
    apply_snapshot_from_file L \<lparr>last_included = Some l, checksum = sum\<rparr> (Some file) b = (Inr (), b') \<and>
    kv_of V a' = kv_of V a \<and> kv_of V b' = kv_of V a \<and> last_applied b' = l \<and>
    entry_terms b' = Map.empty \<and> running b' \<and>
    snapshot_meta b' = Some \<lparr>last_included = Some l, checksum = sum\<rparr> \<and>
    sm_new L (Inr ()) (Some (sm_env b')) config = Inr b'' \<and>
    last_applied b'' = l \<and> kv_of V b'' = kv_of V a"
proof -
  have lmdb: "lmdb L V" using assms(1) by (rule lmdb_live.axioms)
  define meta where "meta = \<lparr>last_included = Some l, checksum = replicate 32 0\<rparr>"
  obtain f where f: "copy_env L (sm_env a) old = Inr f"
    using lmdb_live.copy_env_ok [OF assms(1)] by blast
  have view_f: "env_view V f = env_view V (sm_env a)" "env_dbs V f = env_dbs V (sm_env a)"
    using lmdb.copy_env [OF lmdb f] by simp_all
  have "env_wf L V f" using assms(2) view_f by (simp add: env_wf_def)
  then obtain e where e: "restore_blocking L (sm_env b) (map_size b) meta (Some f) = Inr e"
    using lmdb_live.restore_live [OF assms(1)] by blast
  have view_e: "env_view V e = with_last_applied l
      (set_kv (env_view V (sm_env a) DB_KV) (env_view V (sm_env b)))"
    using lmdb.restore_refines [OF lmdb e] lmdb.open_env_old [OF lmdb] view_f
    by (auto simp: meta_def)
  have included: "last_included meta = Some l" by (simp add: meta_def)
  define b' where "b' = snd (apply_snapshot_from_file L meta (Some f) b)"
  have b': "apply_snapshot_from_file L meta (Some f) b = (Inr (), b')" "sm_env b' = e"
    "last_applied b' = l" "entry_terms b' = Map.empty" "running b'" "snapshot_meta b' = Some meta"
    by (simp_all add: b'_def apply_snapshot_from_file_def e included Let_def update_last_applied_def
        last_applied_def update_last_snapshot_metadata_def)
  obtain b'' where b'': "sm_new L (Inr ()) (Some (sm_env b')) config = Inr b''"
    using lmdb_live.sm_new_live [OF assms(1)] by blast
  note n = lmdb.sm_new_refines [OF lmdb b'']
  have "generate_snapshot_data L (Inr ()) old l a =
      (Inr (replicate 32 0, f), a\<lparr>snapshot_meta := Some meta\<rparr>)"
    by (simp add: generate_snapshot_data_def f meta_def Let_def persist_last_snapshot_metadata_def
        update_last_snapshot_metadata_def)
  moreover have "kv_of V b' = kv_of V a" "kv_of V b'' = kv_of V a"
    using n(1) view_e b'(2) by (simp_all add: kv_of_def)
  moreover have "last_applied b'' = l"
    using n(1,2) stored_with_last_applied [of V e l] view_e b'(2)
    by (simp add: stored_last_applied_def stored_u64_def)
  ultimately show ?thesis using b' b'' by (fastforce simp: meta_def kv_of_def)
qed

text \<open>C10. Snapshot transfer: a snapshot generated by one node and applied by another makes the
  second node hold exactly the first one's contents, with \<open>last_applied\<close> at the snapshot's log
  position in memory and on disk (a restart keeps it), the term cache empty, and the node
  running again.\<close>

theorem snapshot_transfer:
  assumes "lmdb_live L V" and "env_wf L V (sm_env a)"
  shows "\<exists>sum file a' b' b''.
    generate_snapshot_data L (Inr ()) old l a = (Inr (sum, file), a') \<and>
    apply_snapshot_from_file L \<lparr>last_included = Some l, checksum = sum\<rparr> (Some file) b = (Inr (), b') \<and>
    kv_of V a' = kv_of V a \<and> kv_of V b' = kv_of V a \<and> last_applied b' = l \<and>
    entry_terms b' = Map.empty \<and> running b' \<and>
    snapshot_meta b' = Some \<lparr>last_included = Some l, checksum = sum\<rparr> \<and>
    sm_new L (Inr ()) (Some (sm_env b')) config = Inr b'' \<and>
    last_applied b'' = l \<and> kv_of V b'' = kv_of V a"
  by (rule snapshot_transferred [OF assms])

theorem snapshot_transfer_witness:
  "\<exists>a sum file a' b'. sm_new mem_api (Inr ()) None demo_config = Inr a \<and>
    generate_snapshot_data mem_api (Inr ()) None \<lparr>log_index = 9, log_term = 2\<rparr> a =
      (Inr (sum, file), a') \<and>
    apply_snapshot_from_file mem_api
      \<lparr>last_included = Some \<lparr>log_index = 9, log_term = 2\<rparr>, checksum = sum\<rparr> (Some file) demo_sm =
      (Inr (), b') \<and> last_applied b' = \<lparr>log_index = 9, log_term = 2\<rparr>"
proof -
  obtain a where a: "sm_new mem_api (Inr ()) None demo_config = Inr a" "sm_reachable mem_api a"
    using demo_opened by blast
  show ?thesis
    using snapshot_transfer [OF mem.lmdb_live_axioms mem.reachable_env_wf [OF a(2)],
        of None "\<lparr>log_index = 9, log_term = 2\<rparr>" demo_sm demo_config] a(1) by blast
qed

text \<open>A snapshot that cannot be restored, at whatever step, changes nothing: contents,
  \<open>last_applied\<close>, metadata and term cache are those of before, and the node is running again.\<close>

theorem failed_restore_frame:
  assumes "apply_snapshot_from_file L m f s = (Inl e, s')"
  shows "s' = s\<lparr>running := True\<rparr>"
  using assms by (auto simp: apply_snapshot_from_file_def Let_def split: sum.splits)

theorem failed_restore_frame_witness:
  "snd (apply_snapshot_from_file mem_api \<lparr>last_included = None, checksum = []\<rparr> None demo_sm) = demo_sm"
proof -
  have "apply_snapshot_from_file mem_api \<lparr>last_included = None, checksum = []\<rparr> None demo_sm =
      (Inl (Fatal ''snapshot missing kv database''), demo_sm)"
    by (simp add: apply_snapshot_from_file_def restore_blocking_def demo_defs mem_defs fatal_def)
  from failed_restore_frame [OF this] show ?thesis
    by (simp add: \<open>apply_snapshot_from_file _ _ _ _ = _\<close>)
qed

text \<open>\<open>reset\<close> on a healthy store makes the node indistinguishable from a new one: all three
  databases are empty, \<open>last_applied\<close> is zero in memory and after a restart, and no snapshot
  metadata or cached term is left.\<close>

theorem reset_is_fresh:
  assumes "lmdb_live L V"
  shows "\<exists>s' s''. sm_reset L s = (Inr (), s') \<and>
    (\<forall>d \<in> {DB_KV, DB_META, DB_INTERNAL}. env_view V (sm_env s') d = Map.empty) \<and>
    last_applied s' = \<lparr>log_index = 0, log_term = 0\<rparr> \<and> snapshot_meta s' = None \<and>
    entry_terms s' = Map.empty \<and>
    sm_new L (Inr ()) (Some (sm_env s')) config = Inr s'' \<and>
    last_applied s'' = \<lparr>log_index = 0, log_term = 0\<rparr> \<and> kv_of V s'' = Map.empty"
proof -
  have lmdb: "lmdb L V" using assms by (rule lmdb_live.axioms)
  obtain s' where s': "sm_reset L s = (Inr (), s')"
    using lmdb_live.reset_live [OF assms] by blast
  obtain s'' where s'': "sm_new L (Inr ()) (Some (sm_env s')) config = Inr s''"
    using lmdb_live.sm_new_live [OF assms] by blast
  note r = lmdb.reset_refines [OF lmdb s'] and n = lmdb.sm_new_refines [OF lmdb s'']
  have "last_applied s'' = \<lparr>log_index = 0, log_term = 0\<rparr>" "kv_of V s'' = Map.empty"
    using n(1,2) r(1) by (simp_all add: stored_last_applied_def stored_u64_def kv_of_def)
  then show ?thesis using s' s'' r by fastforce
qed

theorem reset_is_fresh_witness:
  "\<exists>s'. sm_reset mem_api (snd (apply_chunk mem_api demo_chunk demo_sm)) = (Inr (), s') \<and>
    last_applied s' = \<lparr>log_index = 0, log_term = 0\<rparr>"
  using reset_is_fresh [OF mem.lmdb_live_axioms] by blast

end
