(* ===== verification/Scan.thy ===== *)
theory Scan
  imports Recovery
begin

text \<open>
  The scans of \<open>LmdbStateMachine\<close>: forward over a range, over everything, over a prefix with
  pagination, and backward with a sliding window. The specification of each is a slice of the
  ordered contents of the \<open>kv\<close> database, with the caller's filter applied before the limit.
  \<open>next_prefix\<close>, which turns a prefix into an exclusive upper bound, is characterised first.
\<close>


section \<open>The successor of a prefix\<close>

function next_prefix :: "bytes \<Rightarrow> bytes option" where
  "next_prefix next =
     (if next = [] then None
      else if last next < 0xFF then Some (butlast next @ [last next + 1])
      else next_prefix (butlast next))"
  by pat_completeness auto
termination
  by (relation "measure length") auto

declare next_prefix.simps [simp del]

lemma append_le_append [simp]: "xs @ ys \<le> xs @ zs \<longleftrightarrow> ys \<le> (zs :: bytes)"
  by (induction xs) auto

lemma prefix_le: "prefix p k \<Longrightarrow> p \<le> (k :: bytes)"
  by (auto simp: prefix_def) (metis Nil_le_Cons append_Nil2 append_le_append)

lemma byte_max: "\<not> b < (0xFF :: u8) \<Longrightarrow> b = 0xFF"
proof -
  have "(0xFF :: u8) = - 1" by simp
  then have "b \<le> 0xFF" by (metis word_order.extremum)
  then show "\<not> b < (0xFF :: u8) \<Longrightarrow> b = 0xFF" by simp
qed

lemma byte_succ_less:
  assumes "b < (0xFF :: u8)"
  shows "c < b + 1 \<longleftrightarrow> c \<le> b"
proof -
  have "unat b < 255" using assms by (simp add: word_less_nat_alt)
  then have "unat (b + 1) = unat b + 1" by (simp add: unat_word_ariths)
  then show ?thesis by (auto simp: word_less_nat_alt word_le_nat_alt)
qed

lemma prefix_snoc_range:
  assumes "b < (0xFF :: u8)"
  shows "prefix (ps @ [b]) k \<longleftrightarrow> ps @ [b] \<le> k \<and> k < ps @ [b + 1]"
proof (induction ps arbitrary: k)
  case Nil
  show ?case
  proof (cases k)
    case (Cons c r)
    then show ?thesis
      unfolding Cons append_Nil Cons_prefix_Cons Cons_le_Cons Cons_less_Cons
        byte_succ_less [OF assms]
      by (metis Nil_le_Cons Nil_prefix not_less_Nil order_antisym_conv order_less_imp_le order_refl)
  qed simp
next
  case (Cons a ps)
  show ?case by (cases k) (auto simp: Cons.IH)
qed

text \<open>Every key with the prefix, and no other, lies from the prefix up to its successor.\<close>

definition below :: "bytes option \<Rightarrow> bytes \<Rightarrow> bool" where
  "below hi k = (case hi of None \<Rightarrow> True | Some e \<Rightarrow> k < e)"

lemma prefix_iff_below: "prefix p k \<longleftrightarrow> p \<le> k \<and> below (next_prefix p) k"
proof (induction p arbitrary: k rule: next_prefix.induct)
  case (1 p)
  consider "p = []" | "p \<noteq> []" "last p < 0xFF" | "p \<noteq> []" "\<not> last p < 0xFF" by blast
  then show ?case
  proof cases
    case 1
    then show ?thesis by (simp add: next_prefix.simps below_def)
  next
    case 2
    then show ?thesis
      using prefix_snoc_range [OF 2(2), of "butlast p"]
      by (simp add: next_prefix.simps [of p] below_def)
  next
    case 3
    obtain ps where p: "p = ps @ [0xFF]"
      using 3 byte_max by (metis append_butlast_last_id)
    have IH: "\<And>k. prefix ps k \<longleftrightarrow> ps \<le> k \<and> below (next_prefix ps) k"
      using "1.IH" 3 p by simp
    have shift: "next_prefix p = next_prefix ps"
      using 3 by (subst next_prefix.simps) (simp add: p)
    show ?thesis
    proof
      assume "prefix p k"
      then have "prefix ps k" using p by (simp add: append_prefixD)
      then show "p \<le> k \<and> below (next_prefix p) k"
        using prefix_le [OF \<open>prefix p k\<close>] IH shift by simp
    next
      assume k: "p \<le> k \<and> below (next_prefix p) k"
      have "ps \<le> p" using p by (intro prefix_le) simp
      then have "prefix ps k" using k IH shift by (metis order_trans)
      then obtain r where r: "k = ps @ r" by (auto simp: prefix_def)
      then have "[0xFF] \<le> r" using k p by simp
      then obtain c r' where c: "r = c # r'" "0xFF \<le> c" by (cases r) auto
      then have "c = 0xFF" using byte_max by force
      then show "prefix p k" using p r c by simp
    qed
  qed
qed


section \<open>The scan loops\<close>

text \<open>\<open>None\<close> as a filter returns the stored bytes as they are.\<close>

type_synonym scan_filter = "(bytes \<Rightarrow> bytes option) option"

definition candidate :: "scan_filter \<Rightarrow> bytes \<Rightarrow> bytes option" where
  "candidate filt v = (case filt of Some f \<Rightarrow> f v | None \<Rightarrow> Some v)"

lemma candidate_simps [simp]: "candidate None v = Some v" "candidate (Some f) v = f v"
  by (simp_all add: candidate_def)

definition limit_cap :: "nat option \<Rightarrow> nat" where
  "limit_cap limit = (case limit of Some n \<Rightarrow> n | None \<Rightarrow> usize_max)"

definition reached_end :: "bytes option \<Rightarrow> bytes \<Rightarrow> bool" where
  "reached_end hi k = (case hi of Some e \<Rightarrow> e \<le> k | None \<Rightarrow> False)"

fun scan_loop ::
  "(heed_error + bytes \<times> bytes) list \<Rightarrow> bytes option \<Rightarrow> nat \<Rightarrow> scan_filter \<Rightarrow>
   (bytes \<times> bytes) list \<Rightarrow> engine_error + (bytes \<times> bytes) list" where
  "scan_loop [] hi cap filt entries = Inr entries"
| "scan_loop (result # rest) hi cap filt entries =
     (if cap \<le> length entries then Inr entries
      else and_then (map_err lmdb_err result) (\<lambda>(k, v).
        if reached_end hi k then Inr entries
        else (case candidate filt v of
                Some payload \<Rightarrow> scan_loop rest hi cap filt (entries @ [(k, payload)])
              | None \<Rightarrow> scan_loop rest hi cap filt entries)))"

definition scan_range_core ::
  "('e, 't) lmdb_api \<Rightarrow> 'e state_machine \<Rightarrow> bound \<Rightarrow> bytes option \<Rightarrow> nat option \<Rightarrow> scan_filter \<Rightarrow>
   engine_error + scan_result" where
  "scan_range_core L s start hi limit filt =
    and_then (map_err lmdb_err (read_txn L (sm_env s))) (\<lambda>rtxn.
    and_then (map_err lmdb_err (db_range L rtxn DB_KV start Unbounded)) (\<lambda>iter.
    map_ok (\<lambda>entries. \<lparr>scan_entries = entries, scan_revision = last_applied_index s\<rparr>)
      (scan_loop iter hi (limit_cap limit) filt [])))"

definition empty_key_guard :: "'e state_machine \<Rightarrow> scan_result" where
  "empty_key_guard s = \<lparr>scan_entries = [], scan_revision = last_applied_index s\<rparr>"

definition scan_range ::
  "('e, 't) lmdb_api \<Rightarrow> 'e state_machine \<Rightarrow> bytes \<Rightarrow> bytes option \<Rightarrow> nat option \<Rightarrow> scan_filter \<Rightarrow>
   engine_error + scan_result" where
  "scan_range L s start hi limit filt =
    (if start = [] then Inr (empty_key_guard s)
     else scan_range_core L s (Included start) hi limit filt)"

definition scan_all ::
  "('e, 't) lmdb_api \<Rightarrow> 'e state_machine \<Rightarrow> nat option \<Rightarrow> scan_filter \<Rightarrow>
   engine_error + scan_result" where
  "scan_all L s limit filt = scan_range_core L s Unbounded None limit filt"

definition scan_prefix_bounded ::
  "('e, 't) lmdb_api \<Rightarrow> 'e state_machine \<Rightarrow> bytes \<Rightarrow> bytes option \<Rightarrow> nat option \<Rightarrow> scan_filter \<Rightarrow>
   engine_error + scan_result" where
  "scan_prefix_bounded L s pfx after limit filt =
    (if pfx = [] then Inr (empty_key_guard s)
     else scan_range_core L s (case after of Some a \<Rightarrow> Excluded a | None \<Rightarrow> Included pfx)
            (next_prefix pfx) limit filt)"

definition scan_prefix ::
  "('e, 't) lmdb_api \<Rightarrow> 'e state_machine \<Rightarrow> bytes \<Rightarrow> engine_error + scan_result" where
  "scan_prefix L s pfx = scan_prefix_bounded L s pfx None None None"

text \<open>The sliding window of the backward scan; \<open>tl\<close> is \<open>pop_front\<close>, a no-op when empty.\<close>

fun rev_loop ::
  "(heed_error + bytes \<times> bytes) list \<Rightarrow> nat \<Rightarrow> scan_filter \<Rightarrow> (bytes \<times> bytes) list \<Rightarrow>
   engine_error + (bytes \<times> bytes) list" where
  "rev_loop [] cap filt window = Inr window"
| "rev_loop (result # rest) cap filt window =
     and_then (map_err lmdb_err result) (\<lambda>(k, v).
       (case candidate filt v of
          Some payload \<Rightarrow>
            rev_loop rest cap filt
              ((if cap \<le> length window then tl window else window) @ [(k, payload)])
        | None \<Rightarrow> rev_loop rest cap filt window))"

definition scan_range_rev ::
  "('e, 't) lmdb_api \<Rightarrow> 'e state_machine \<Rightarrow> bytes \<Rightarrow> bytes \<Rightarrow> nat option \<Rightarrow> scan_filter \<Rightarrow>
   engine_error + scan_result" where
  "scan_range_rev L s start hi limit filt =
    (if start = [] then Inr (empty_key_guard s)
     else
      and_then (map_err lmdb_err (read_txn L (sm_env s))) (\<lambda>rtxn.
      and_then (map_err lmdb_err (db_range L rtxn DB_KV (Included start) (Excluded hi))) (\<lambda>iter.
      map_ok (\<lambda>window. \<lparr>scan_entries = rev window, scan_revision = last_applied_index s\<rparr>)
        (rev_loop iter (limit_cap limit) filt []))))"


section \<open>What the loops compute\<close>

text \<open>The entries the filter lets through, with the payload it gives them.\<close>

fun visible :: "scan_filter \<Rightarrow> (bytes \<times> bytes) list \<Rightarrow> (bytes \<times> bytes) list" where
  "visible filt [] = []"
| "visible filt ((k, v) # xs) =
     (case candidate filt v of
        Some payload \<Rightarrow> (k, payload) # visible filt xs
      | None \<Rightarrow> visible filt xs)"

lemma visible_append [simp]: "visible filt (xs @ ys) = visible filt xs @ visible filt ys"
  by (induction xs rule: visible.induct) (auto split: option.split)

lemma set_visible:
  "(k, p) \<in> set (visible filt xs) \<longleftrightarrow> (\<exists>v. (k, v) \<in> set xs \<and> candidate filt v = Some p)"
  by (induction filt xs rule: visible.induct) (auto split: option.split)

lemma visible_None [simp]: "visible None xs = xs"
  by (induction "None :: scan_filter" xs rule: visible.induct) auto

lemma visible_filter_keys:
  "visible filt (filter (\<lambda>(k, _). P k) xs) = filter (\<lambda>(k, _). P k) (visible filt xs)"
  by (induction filt xs rule: visible.induct) (auto split: option.split)

lemma sorted_visible: "sorted_keys xs \<Longrightarrow> sorted_keys (visible filt xs)"
proof (induction filt xs rule: visible.induct)
  case (2 filt k v xs)
  have "\<forall>j \<in> set (map fst (visible filt xs)). k < j"
    using 2(3) by (fastforce simp: set_visible)
  then show ?case using 2 by (auto split: option.split)
qed simp

lemma reads_as_Nil: "reads_as its [] \<longleftrightarrow> its = [] \<or> (\<exists>e rest. its = Inl e # rest)"
  by (auto simp: reads_as_def)

lemma reads_as_Cons:
  "reads_as its (x # xs) \<longleftrightarrow>
     (\<exists>its'. its = Inr x # its' \<and> reads_as its' xs) \<or> (\<exists>e rest. its = Inl e # rest)"
proof
  assume "reads_as its (x # xs)"
  then consider "its = map Inr (x # xs)"
    | n e rest where "its = map Inr (take n (x # xs)) @ Inl e # rest"
    by (auto simp: reads_as_def)
  then show "(\<exists>its'. its = Inr x # its' \<and> reads_as its' xs) \<or> (\<exists>e rest. its = Inl e # rest)"
  proof cases
    case (2 n e rest)
    then show ?thesis by (cases n) (auto simp: reads_as_def)
  qed (simp add: reads_as_def)
next
  assume "(\<exists>its'. its = Inr x # its' \<and> reads_as its' xs) \<or> (\<exists>e rest. its = Inl e # rest)"
  then show "reads_as its (x # xs)"
  proof
    assume "\<exists>its'. its = Inr x # its' \<and> reads_as its' xs"
    then obtain its' where its: "its = Inr x # its'" "reads_as its' xs" by blast
    from its(2) consider "its' = map Inr xs"
      | n e rest where "its' = map Inr (take n xs) @ Inl e # rest"
      by (auto simp: reads_as_def)
    then show ?thesis
    proof cases
      case (2 n e rest)
      then have "its = map Inr (take (Suc n) (x # xs)) @ Inl e # rest" using its by simp
      then show ?thesis unfolding reads_as_def by blast
    qed (simp add: its reads_as_def)
  qed (auto simp: reads_as_def intro: exI [of _ 0])
qed

lemma scan_loop_sound:
  "reads_as its xs \<Longrightarrow> scan_loop its hi cap filt acc = Inr es \<Longrightarrow> length acc \<le> cap \<Longrightarrow>
   es = acc @ take (cap - length acc) (visible filt (takeWhile (\<lambda>(k, _). \<not> reached_end hi k) xs))"
proof (induction xs arbitrary: its acc)
  case Nil
  then show ?case by (auto simp: reads_as_Nil split: if_splits)
next
  case (Cons x xs)
  obtain k v where x: "x = (k, v)" by (cases x)
  show ?case
  proof (cases "cap \<le> length acc")
    case True
    then show ?thesis using Cons.prems by (auto simp: reads_as_Cons)
  next
    case False
    then obtain its' where its: "its = Inr x # its'" "reads_as its' xs"
      using Cons.prems by (auto simp: reads_as_Cons)
    show ?thesis
    proof (cases "reached_end hi k")
      case True
      then show ?thesis using Cons.prems False its x by auto
    next
      case go: False
      show ?thesis
      proof (cases "candidate filt v")
        case None
        then show ?thesis using Cons.IH [OF its(2)] Cons.prems False its x go by simp
      next
        case (Some p)
        then have "es = (acc @ [(k, p)]) @ take (cap - Suc (length acc))
            (visible filt (takeWhile (\<lambda>(k, _). \<not> reached_end hi k) xs))"
          using Cons.IH [OF its(2), of "acc @ [(k, p)]"] Cons.prems False its x go by simp
        moreover have "cap - length acc = Suc (cap - Suc (length acc))" using False by simp
        ultimately show ?thesis using Some x go by simp
      qed
    qed
  qed
qed

lemma scan_loop_total: "\<exists>es. scan_loop (map Inr xs) hi cap filt acc = Inr es"
  by (induction xs arbitrary: acc) (auto split: option.split)

text \<open>The window always holds the last entries seen, at least one once there is one.\<close>

definition last_n :: "nat \<Rightarrow> 'a list \<Rightarrow> 'a list" where
  "last_n n xs = drop (length xs - n) xs"

lemma rev_last_n: "rev (last_n n xs) = take n (rev xs)"
  by (cases "n \<le> length xs") (simp_all add: last_n_def rev_drop)

lemma last_n_last_n: "last_n n (last_n n xs @ ys) = last_n n (xs @ ys)"
  by (cases "n \<le> length xs") (simp_all add: last_n_def drop_append add.commute)

lemma rev_loop_sound:
  "rev_loop its cap filt w = Inr es \<Longrightarrow> reads_as its xs \<Longrightarrow> length w \<le> max 1 cap \<Longrightarrow>
   es = last_n (max 1 cap) (w @ visible filt xs)"
proof (induction xs arbitrary: its w)
  case Nil
  then show ?case by (auto simp: reads_as_Nil last_n_def)
next
  case (Cons x xs)
  obtain k v where x: "x = (k, v)" by (cases x)
  obtain its' where its: "its = Inr x # its'" "reads_as its' xs"
    using Cons.prems by (auto simp: reads_as_Cons)
  show ?case
  proof (cases "candidate filt v")
    case None
    then show ?thesis using Cons.IH [OF _ its(2)] Cons.prems its x by simp
  next
    case (Some p)
    define w' where "w' = (if cap \<le> length w then tl w else w) @ [(k, p)]"
    have len: "length w' \<le> max 1 cap" using Cons.prems(3) by (auto simp: w'_def max_def)
    have "w' = last_n (max 1 cap) (w @ [(k, p)])"
      using Cons.prems(3) by (cases w) (auto simp: w'_def last_n_def max_def drop_Suc split: if_splits)
    moreover have "es = last_n (max 1 cap) (w' @ visible filt xs)"
      using Cons.IH [OF _ its(2) len] Cons.prems its x Some by (simp add: w'_def)
    ultimately show ?thesis using Some x by (simp add: last_n_last_n)
  qed
qed

lemma rev_loop_total: "\<exists>es. rev_loop (map Inr xs) cap filt w = Inr es"
  by (induction xs arbitrary: w) (auto split: option.split)


section \<open>The scans as slices of the contents\<close>

definition end_bound :: "bytes option \<Rightarrow> bound" where
  "end_bound hi = (case hi of None \<Rightarrow> Unbounded | Some e \<Rightarrow> Excluded e)"

lemma takeWhile_range_items:
  "takeWhile (\<lambda>(k, _). \<not> reached_end hi k) (range_items m lo Unbounded) = range_items m lo (end_bound hi)"
proof -
  have "(\<lambda>(k, _). \<not> reached_end hi k) = (\<lambda>(k, _ :: bytes). before_end (end_bound hi) k)"
    by (auto simp: fun_eq_iff reached_end_def end_bound_def not_le split: option.splits)
  moreover have "range_items m lo Unbounded = filter (\<lambda>(k, _). after_start lo k) (items m)"
    by (simp add: range_items_def in_bounds_def)
  ultimately show ?thesis by (simp add: range_items_split [of m lo "end_bound hi"])
qed

context lmdb
begin

lemma scan_range_core_sound:
  assumes "scan_range_core L s start hi limit filt = Inr r"
  shows "r = \<lparr>scan_entries = take (limit_cap limit)
      (visible filt (range_items (kv_of V s) start (end_bound hi))),
    scan_revision = last_applied_index s\<rparr>"
proof -
  obtain t its es where steps: "read_txn L (sm_env s) = Inr t"
    "db_range L t DB_KV start Unbounded = Inr its"
    "scan_loop its hi (limit_cap limit) filt [] = Inr es"
    and r: "r = \<lparr>scan_entries = es, scan_revision = last_applied_index s\<rparr>"
    using assms by (auto simp: scan_range_core_def and_then_eq_Inr)
  show ?thesis
    using scan_loop_sound [OF range [OF steps(2)] steps(3)] read_txn [OF steps(1)] r
    by (simp add: takeWhile_range_items kv_of_def)
qed

lemma scan_range_rev_sound:
  assumes "scan_range_rev L s start hi limit filt = Inr r" and "start \<noteq> []"
  shows "r = \<lparr>scan_entries = take (max 1 (limit_cap limit))
      (rev (visible filt (range_items (kv_of V s) (Included start) (Excluded hi)))),
    scan_revision = last_applied_index s\<rparr>"
proof -
  obtain t its w where steps: "read_txn L (sm_env s) = Inr t"
    "db_range L t DB_KV (Included start) (Excluded hi) = Inr its"
    "rev_loop its (limit_cap limit) filt [] = Inr w"
    and r: "r = \<lparr>scan_entries = rev w, scan_revision = last_applied_index s\<rparr>"
    using assms by (auto simp: scan_range_rev_def and_then_eq_Inr)
  show ?thesis
    using rev_loop_sound [OF steps(3) range [OF steps(2)]] read_txn [OF steps(1)] r
    by (simp add: rev_last_n kv_of_def)
qed

end

text \<open>The contents with the given prefix that come after \<open>after\<close>.\<close>

definition prefix_items :: "kv \<Rightarrow> bytes \<Rightarrow> bytes option \<Rightarrow> (bytes \<times> bytes) list" where
  "prefix_items m p after =
     filter (\<lambda>(k, _). prefix p k \<and> (case after of None \<Rightarrow> True | Some a \<Rightarrow> a < k)) (items m)"

lemma prefix_range_items:
  assumes "case after of None \<Rightarrow> True | Some a \<Rightarrow> p \<le> a"
  shows "range_items m (case after of Some a \<Rightarrow> Excluded a | None \<Rightarrow> Included p)
      (end_bound (next_prefix p)) = prefix_items m p after"
  using assms
  unfolding range_items_def prefix_items_def prefix_iff_below below_def end_bound_def in_bounds_def
  by (intro filter_cong refl) (auto split: option.splits)

context lmdb_live
begin

lemma scan_range_core_live:
  assumes "\<not> empty_start start"
  shows "\<exists>r. scan_range_core L s start hi limit filt = Inr r"
proof -
  obtain t where "read_txn L (sm_env s) = Inr t" using read_txn_ok by blast
  moreover obtain es where "scan_loop (map Inr (range_items (txn_view V t DB_KV) start Unbounded)) hi
      (limit_cap limit) filt [] = Inr es" using scan_loop_total by blast
  ultimately show ?thesis using range_ok [OF assms] by (simp add: scan_range_core_def)
qed

lemma scan_all_live:
  "scan_all L s limit filt = Inr
    \<lparr>scan_entries = take (limit_cap limit) (visible filt (items (kv_of V s))),
     scan_revision = last_applied_index s\<rparr>"
proof -
  obtain r where r: "scan_range_core L s Unbounded None limit filt = Inr r"
    using scan_range_core_live [of Unbounded s None limit filt] by (auto simp: empty_start_def)
  have "range_items (kv_of V s) Unbounded Unbounded = items (kv_of V s)"
    by (simp add: range_items_def in_bounds_def case_prod_unfold)
  then show ?thesis
    using scan_range_core_sound [OF r] r by (simp add: scan_all_def end_bound_def)
qed

lemma scan_prefix_bounded_live:
  assumes "p \<noteq> []" and "case after of None \<Rightarrow> True | Some a \<Rightarrow> p \<le> a"
  shows "scan_prefix_bounded L s p after limit filt = Inr
    \<lparr>scan_entries = take (limit_cap limit) (visible filt (prefix_items (kv_of V s) p after)),
     scan_revision = last_applied_index s\<rparr>"
proof -
  define start where "start = (case after of Some a \<Rightarrow> Excluded a | None \<Rightarrow> Included p)"
  have start: "\<not> empty_start start"
    using assms by (auto simp: start_def empty_start_def split: option.splits)
  obtain r where r: "scan_range_core L s start (next_prefix p) limit filt = Inr r"
    using scan_range_core_live [OF start] by blast
  show ?thesis
    using scan_range_core_sound [OF r] r assms(1) prefix_range_items [OF assms(2), of "kv_of V s"]
    by (simp add: scan_prefix_bounded_def start_def)
qed

lemma scan_range_live:
  "scan_range L s start hi limit filt = Inr
    \<lparr>scan_entries = (if start = [] then [] else take (limit_cap limit) (visible filt
       (filter (\<lambda>(k, _). start \<le> k \<and> (case hi of None \<Rightarrow> True | Some e \<Rightarrow> k < e))
         (items (kv_of V s))))),
     scan_revision = last_applied_index s\<rparr>"
proof (cases "start = []")
  case False
  then obtain r where r: "scan_range_core L s (Included start) hi limit filt = Inr r"
    using scan_range_core_live [of "Included start" s hi limit filt] by (auto simp: empty_start_def)
  have "range_items (kv_of V s) (Included start) (end_bound hi) =
      filter (\<lambda>(k, _). start \<le> k \<and> (case hi of None \<Rightarrow> True | Some e \<Rightarrow> k < e)) (items (kv_of V s))"
    unfolding range_items_def
    by (intro filter_cong refl) (auto simp: in_bounds_def end_bound_def split: option.splits)
  then show ?thesis
    using scan_range_core_sound [OF r] r False by (simp add: scan_range_def)
qed (simp add: scan_range_def empty_key_guard_def)

lemma scan_range_rev_live:
  assumes "start \<noteq> []"
  shows "\<exists>r. scan_range_rev L s start hi limit filt = Inr r"
proof -
  obtain t where "read_txn L (sm_env s) = Inr t" using read_txn_ok by blast
  moreover obtain w where "rev_loop (map Inr (range_items (txn_view V t DB_KV)
      (Included start) (Excluded hi))) (limit_cap limit) filt [] = Inr w"
    using rev_loop_total by blast
  ultimately show ?thesis
    using range_ok [of "Included start"] assms by (simp add: scan_range_rev_def empty_start_def)
qed

end


section \<open>Properties\<close>

text \<open>\<open>next_prefix\<close> is the right upper bound: a key starts with the prefix exactly when it is
  at least the prefix and below the successor (and, when there is no successor, exactly when it
  is at least the prefix).\<close>

theorem next_prefix_exact:
  "prefix p k \<longleftrightarrow> p \<le> k \<and> (case next_prefix p of None \<Rightarrow> True | Some e \<Rightarrow> k < e)"
  using prefix_iff_below [of p k] by (simp add: below_def)

text \<open>C12. A prefix scan on a healthy store returns, in key order, the first \<open>limit\<close> entries whose
  key starts with the prefix, comes after \<open>after\<close>, and whose value the filter keeps, provided
  \<open>after\<close>, when given, is not below the prefix; nothing is skipped and the limit counts kept
  entries only.\<close>

theorem scan_prefix_exact:
  assumes "lmdb_live L V" and "p \<noteq> []" and "case after of None \<Rightarrow> True | Some a \<Rightarrow> p \<le> a"
  shows "scan_prefix_bounded L s p after limit filt = Inr
    \<lparr>scan_entries = take (limit_cap limit) (visible filt (prefix_items (kv_of V s) p after)),
     scan_revision = last_applied_index s\<rparr>"
  by (rule lmdb_live.scan_prefix_bounded_live [OF assms])

definition scan_data :: "(bytes \<times> bytes) list" where
  "scan_data = [([1], [0, 1]), ([2], [0, 2]), ([2, 7], [0, 3]), ([2, 9], [0, 4]), ([3], [0, 5])]"

definition scan_sm :: "mem state_machine" where
  "scan_sm = demo_sm\<lparr>sm_env := mem_set mem_empty DB_KV scan_data\<rparr>"

lemma scan_sm_items: "items (kv_of mem_view scan_sm) = scan_data"
proof -
  have "kv_of mem_view scan_sm = map_of scan_data"
    by (simp add: kv_of_def scan_sm_def demo_defs mem_defs)
  moreover have "sorted_keys scan_data" by (simp add: scan_data_def)
  ultimately show ?thesis by (simp add: items_map_of)
qed

lemma scan_sm_revision [simp]: "last_applied_index scan_sm = 0"
  by (simp add: scan_sm_def demo_defs)

theorem scan_prefix_exact_witness:
  "scan_prefix_bounded mem_api scan_sm [2] (Some [2]) (Some 1) None =
    Inr \<lparr>scan_entries = [([2, 7], [0, 3])], scan_revision = 0\<rparr>"
  using scan_prefix_exact [OF mem.lmdb_live_axioms, of "[2]" "Some [2]" scan_sm "Some 1" None]
  by (simp add: prefix_items_def scan_sm_items scan_data_def limit_cap_def)

text \<open>The proviso is needed: with \<open>after\<close> below the prefix the scan returns keys that do not
  start with the prefix, because \<open>after\<close> replaces the prefix as the lower bound.\<close>

theorem scan_prefix_escapes:
  "scan_prefix_bounded mem_api scan_sm [3] (Some [1]) (Some 2) None =
     Inr \<lparr>scan_entries = [([2], [0, 2]), ([2, 7], [0, 3])], scan_revision = 0\<rparr> \<and>
   \<not> prefix [3 :: u8] [2]"
proof -
  have "range_items (kv_of mem_view scan_sm) (Excluded [1]) (end_bound (next_prefix [3])) =
      [([2], [0, 2]), ([2, 7], [0, 3]), ([2, 9], [0, 4]), ([3], [0, 5])]"
    by (simp add: range_items_def scan_sm_items scan_data_def next_prefix.simps [of "[3]"] end_bound_def
        in_bounds_def)
  moreover obtain r where
    r: "scan_range_core mem_api scan_sm (Excluded [1]) (next_prefix [3]) (Some 2) None = Inr r"
    using mem.scan_range_core_live [of "Excluded [1]" scan_sm "next_prefix [3]" "Some 2" None]
    by (auto simp: empty_start_def)
  ultimately show ?thesis
    using mem.scan_range_core_sound [OF r]
    by (simp add: scan_prefix_bounded_def limit_cap_def)
qed

lemma filter_after_key:
  assumes "sorted_keys (xs @ (k, v) # ys)"
  shows "filter (\<lambda>(j, _). k < j) (xs @ (k, v) # ys) = ys"
proof -
  have "\<forall>j \<in> set (map fst xs). \<not> k < j" "\<forall>j \<in> set (map fst ys). k < j"
    using assms by (auto simp: sorted_wrt_append)
  then have "filter (\<lambda>(j, _). k < j) xs = []" "filter (\<lambda>(j, _). k < j) ys = ys"
    by (auto simp: filter_empty_conv filter_id_conv)
  then show ?thesis by simp
qed

text \<open>Pagination is exact: passing the last key of a page as \<open>after\<close> gives the next page. If
  the unlimited scan of the prefix returns \<open>xs\<close>, then the entry \<open>(k, v)\<close>, then \<open>ys\<close>, the scan
  after \<open>k\<close> returns the first \<open>limit\<close> entries of \<open>ys\<close>; no entry is repeated or lost.\<close>

theorem scan_prefix_pages:
  assumes "lmdb_live L V" and "p \<noteq> []"
    and "visible filt (prefix_items (kv_of V s) p None) = xs @ (k, v) # ys"
  shows "scan_prefix_bounded L s p (Some k) limit filt = Inr
    \<lparr>scan_entries = take (limit_cap limit) ys, scan_revision = last_applied_index s\<rparr>"
proof -
  have fin: "finite (dom (kv_of V s))"
    using lmdb.finite_env [OF lmdb_live.axioms(1) [OF assms(1)]] by (simp add: kv_of_def)
  have "(k, v) \<in> set (visible filt (prefix_items (kv_of V s) p None))" using assms(3) by simp
  then have "prefix p k" by (auto simp: set_visible prefix_items_def)
  then have "p \<le> k" by (rule prefix_le)
  have "prefix_items (kv_of V s) p (Some k) =
      filter (\<lambda>(j, _). k < j) (prefix_items (kv_of V s) p None)"
    by (simp add: prefix_items_def case_prod_unfold conj_commute)
  then have "visible filt (prefix_items (kv_of V s) p (Some k)) =
      filter (\<lambda>(j, _). k < j) (xs @ (k, v) # ys)"
    using assms(3) by (simp only: visible_filter_keys)
  moreover have "sorted_keys (xs @ (k, v) # ys)"
    unfolding assms(3) [symmetric] prefix_items_def
    by (intro sorted_visible sorted_filter_keys sorted_items)
  ultimately show ?thesis
    using lmdb_live.scan_prefix_bounded_live [OF assms(1,2), of "Some k"] \<open>p \<le> k\<close> filter_after_key by simp
qed

theorem scan_prefix_pages_witness:
  "scan_prefix_bounded mem_api scan_sm [2] (Some [2, 7]) (Some 5) None =
    Inr \<lparr>scan_entries = [([2, 9], [0, 4])], scan_revision = 0\<rparr>"
proof -
  have "visible None (prefix_items (kv_of mem_view scan_sm) [2] None) =
      [([2], [0, 2])] @ ([2, 7], [0, 3]) # [([2, 9], [0, 4])]"
    by (simp add: prefix_items_def scan_sm_items scan_data_def)
  from scan_prefix_pages [OF mem.lmdb_live_axioms _ this, of "Some 5"] show ?thesis
    by (simp add: limit_cap_def)
qed

text \<open>A range scan on a healthy store returns, in key order, the first \<open>limit\<close> entries of
  \<open>[start, end)\<close> that the filter keeps; an empty \<open>start\<close> matches nothing.\<close>

theorem scan_range_exact:
  assumes "lmdb_live L V"
  shows "scan_range L s start hi limit filt = Inr
      \<lparr>scan_entries = (if start = [] then [] else take (limit_cap limit) (visible filt
         (filter (\<lambda>(k, _). start \<le> k \<and> (case hi of None \<Rightarrow> True | Some e \<Rightarrow> k < e))
           (items (kv_of V s))))),
       scan_revision = last_applied_index s\<rparr>"
  by (rule lmdb_live.scan_range_live [OF assms])

theorem scan_range_exact_witness:
  "scan_range mem_api scan_sm [2] (Some [3]) (Some 2)
     (Some (\<lambda>v. if v = [0, 2] then None else Some (tl v))) =
    Inr \<lparr>scan_entries = [([2, 7], [3]), ([2, 9], [4])], scan_revision = 0\<rparr>"
  using scan_range_exact [OF mem.lmdb_live_axioms, of scan_sm "[2]" "Some [3]" "Some 2"
      "Some (\<lambda>v. if v = [0, 2] then None else Some (tl v))"]
  by (simp add: scan_sm_items scan_data_def limit_cap_def)

text \<open>The backward scan on a healthy store returns the last \<open>limit\<close> entries of \<open>[start, end)\<close>
  that the filter keeps, in descending key order, for every limit but zero; its window never
  holds more than that.\<close>

theorem scan_range_rev_exact:
  assumes "lmdb_live L V" and "start \<noteq> []" and "limit \<noteq> Some 0"
  shows "scan_range_rev L s start hi limit filt = Inr
    \<lparr>scan_entries = take (limit_cap limit) (rev (visible filt
       (filter (\<lambda>(k, _). start \<le> k \<and> k < hi) (items (kv_of V s))))),
     scan_revision = last_applied_index s\<rparr>"
proof -
  obtain r where r: "scan_range_rev L s start hi limit filt = Inr r"
    using lmdb_live.scan_range_rev_live [OF assms(1,2)] by blast
  have "range_items (kv_of V s) (Included start) (Excluded hi) =
      filter (\<lambda>(k, _). start \<le> k \<and> k < hi) (items (kv_of V s))"
    by (simp add: range_items_def in_bounds_def)
  moreover have "max 1 (limit_cap limit) = limit_cap limit"
    using assms(3) by (auto simp: limit_cap_def usize_max_def max_def split: option.split)
  ultimately show ?thesis
    using lmdb.scan_range_rev_sound [OF lmdb_live.axioms(1) [OF assms(1)] r assms(2)] r by simp
qed

theorem scan_range_rev_exact_witness:
  "scan_range_rev mem_api scan_sm [1] [3] (Some 2) None =
    Inr \<lparr>scan_entries = [([2, 9], [0, 4]), ([2, 7], [0, 3])], scan_revision = 0\<rparr>"
  using scan_range_rev_exact [OF mem.lmdb_live_axioms, of "[1]" "Some 2" scan_sm "[3]" None]
  by (simp add: scan_sm_items scan_data_def limit_cap_def)

text \<open>With a limit of zero the backward scan returns one entry whenever there is one, which
  exceeds its documented bound of \<open>limit\<close> entries; the forward scan returns none.\<close>

theorem scan_range_rev_zero_limit:
  assumes "lmdb_live L V" and "start \<noteq> []"
    and "visible filt (filter (\<lambda>(k, _). start \<le> k \<and> k < hi) (items (kv_of V s))) = xs @ [x]"
  shows "scan_range_rev L s start hi (Some 0) filt =
      Inr \<lparr>scan_entries = [x], scan_revision = last_applied_index s\<rparr> \<and>
    scan_range L s start (Some hi) (Some 0) filt =
      Inr \<lparr>scan_entries = [], scan_revision = last_applied_index s\<rparr>"
proof -
  obtain r where r: "scan_range_rev L s start hi (Some 0) filt = Inr r"
    using lmdb_live.scan_range_rev_live [OF assms(1,2)] by blast
  have "range_items (kv_of V s) (Included start) (Excluded hi) =
      filter (\<lambda>(k, _). start \<le> k \<and> k < hi) (items (kv_of V s))"
    by (simp add: range_items_def in_bounds_def)
  then have "scan_range_rev L s start hi (Some 0) filt =
      Inr \<lparr>scan_entries = [x], scan_revision = last_applied_index s\<rparr>"
    using lmdb.scan_range_rev_sound [OF lmdb_live.axioms(1) [OF assms(1)] r assms(2)] r assms(3)
    by (simp add: limit_cap_def)
  moreover obtain q where q: "scan_range_core L s (Included start) (Some hi) (Some 0) filt = Inr q"
    using lmdb_live.scan_range_core_live [OF assms(1), of "Included start" s "Some hi" "Some 0" filt]
      assms(2) by (auto simp: empty_start_def)
  ultimately show ?thesis
    using lmdb.scan_range_core_sound [OF lmdb_live.axioms(1) [OF assms(1)] q] assms(2)
    by (simp add: scan_range_def limit_cap_def)
qed

theorem scan_range_rev_zero_limit_witness:
  "scan_range_rev mem_api scan_sm [1] [3] (Some 0) None =
    Inr \<lparr>scan_entries = [([2, 9], [0, 4])], scan_revision = 0\<rparr>"
  using scan_range_rev_zero_limit [OF mem.lmdb_live_axioms, of "[1]" None "[3]" scan_sm
      "[([1], [0, 1]), ([2], [0, 2]), ([2, 7], [0, 3])]" "([2, 9], [0, 4])"]
  by (simp add: scan_sm_items scan_data_def)

text \<open>The empty-key guard covers the prefix but not \<open>after\<close>: an empty \<open>after\<close> reaches LMDB as
  a range bound, and the scan fails at the first entry it asks for (with the limit zero it asks for none).\<close>

theorem scan_prefix_empty_after:
  assumes "lmdb L V" and "p \<noteq> []" and "limit \<noteq> Some 0"
  shows "\<exists>e. scan_prefix_bounded L s p (Some []) limit filt = Inl e"
proof (cases "read_txn L (sm_env s)")
  case (Inr t)
  have "limit_cap limit \<noteq> 0" using assms(3) by (cases limit) (auto simp: limit_cap_def usize_max_def)
  then show ?thesis
    using Inr assms(2) lmdb.range_refused [OF assms(1), of "Excluded []" t DB_KV Unbounded]
    by (cases "db_range L t DB_KV (Excluded []) Unbounded")
      (auto simp: scan_prefix_bounded_def scan_range_core_def empty_start_def)
qed (use assms(2) in \<open>simp add: scan_prefix_bounded_def scan_range_core_def\<close>)

theorem scan_prefix_empty_after_witness:
  "\<exists>e. scan_prefix_bounded mem_api scan_sm [2] (Some []) None None = Inl e"
  by (rule scan_prefix_empty_after [OF mem.lmdb_axioms]) simp_all

end
