(* ===== verification/Wal.thy ===== *)
theory Wal
  imports Scan
begin

text \<open>
  \<open>LmdbStorageEngine\<close> and \<open>LmdbWal\<close> (\<open>storage_engine.rs\<close>): the Raft log and the Raft metadata in
  one LMDB environment. Entries, log ids and the hard state are encoded by third-party code
  (prost, bincode), so the codec is a parameter with its round trips as laws. The specification
  reads the log database as a finite map from indices to entries; \<open>get_entries\<close>, \<open>truncate\<close> and
  the recovery of \<open>last_index\<close> are correct because big-endian keys sort like the indices.
\<close>


section \<open>The codec\<close>

record ('en, 'hs) wal_codec =
  entry_idx :: "'en \<Rightarrow> u64"
  encode_entry :: "'en \<Rightarrow> bytes"
  decode_entry :: "bytes \<Rightarrow> string + 'en"
  encode_log_id :: "log_id \<Rightarrow> bytes"
  decode_log_id :: "bytes \<Rightarrow> string + log_id"
  serialize_hs :: "'hs \<Rightarrow> string + bytes"
  deserialize_hs :: "bytes \<Rightarrow> string + 'hs"

locale entry_codec =
  fixes C :: "('en, 'hs) wal_codec"
  assumes entry_roundtrip: "decode_entry C (encode_entry C en) = Inr en"
    and log_id_roundtrip: "decode_log_id C (encode_log_id C l) = Inr l"
    and hs_roundtrip: "serialize_hs C h = Inr b \<Longrightarrow> deserialize_hs C b = Inr h"


section \<open>State and operations\<close>

definition DB_LOG :: string where
  "DB_LOG = ''log''"

definition WAL_DB_META :: string where
  "WAL_DB_META = ''meta''"

definition KEY_HARD_STATE :: bytes where
  "KEY_HARD_STATE = str_bytes ''hard_state''"

definition KEY_PURGE_BOUNDARY :: bytes where
  "KEY_PURGE_BOUNDARY = str_bytes ''purge_boundary''"

definition WAL_MAP_SIZE :: u64 where
  "WAL_MAP_SIZE = 128 * 1024 * 1024"

record 'e wal =
  wal_env :: 'e
  wal_last_index :: u64

definition db_err :: "heed_error \<Rightarrow> engine_error" where
  "db_err m = StorageErr (DbError m)"

definition decode_err :: "string \<Rightarrow> engine_error" where
  "decode_err m = StorageErr (SerializationError m)"

definition bincode_err :: "string \<Rightarrow> engine_error" where
  "bincode_err m = StorageErr (BincodeError m)"

text \<open>The index in the last key, zero when there is none or it has the wrong length.\<close>

definition tail_index :: "(bytes \<times> bytes) option \<Rightarrow> u64" where
  "tail_index tail =
    (case tail of
       None \<Rightarrow> 0
     | Some (k, _) \<Rightarrow> if length k = 8 then from_be_bytes k else 0)"

definition wal_new ::
  "('e, 't) lmdb_api \<Rightarrow> io_error + unit \<Rightarrow> 'e option \<Rightarrow> engine_error + 'e wal" where
  "wal_new L mkdir file =
    and_then (map_err db_err mkdir) (\<lambda>_.
    and_then (map_err db_err (open_env L file WAL_MAP_SIZE 2)) (\<lambda>env.
    and_then (map_err db_err (write_txn L env)) (\<lambda>wtxn.
    and_then (map_err db_err (create_database L wtxn DB_LOG)) (\<lambda>wtxn.
    and_then (map_err db_err (create_database L wtxn WAL_DB_META)) (\<lambda>wtxn.
    and_then (map_err db_err (db_last L wtxn DB_LOG)) (\<lambda>tail.
    and_then (map_err db_err (txn_commit L wtxn)) (\<lambda>env.
    Inr \<lparr>wal_env = env, wal_last_index = tail_index tail\<rparr>)))))))"

fun persist_loop ::
  "('e, 't) lmdb_api \<Rightarrow> ('en, 'hs) wal_codec \<Rightarrow> 'en list \<Rightarrow> 't \<Rightarrow> u64 \<Rightarrow> engine_error + 't \<times> u64" where
  "persist_loop L C [] wtxn max_index = Inr (wtxn, max_index)"
| "persist_loop L C (en # ens) wtxn max_index =
    and_then (map_err db_err
      (db_put L wtxn DB_LOG (to_be_bytes (entry_idx C en)) (encode_entry C en))) (\<lambda>wtxn.
    persist_loop L C ens wtxn (max max_index (entry_idx C en)))"

definition persist_entries ::
  "('e, 't) lmdb_api \<Rightarrow> ('en, 'hs) wal_codec \<Rightarrow> 'en list \<Rightarrow> 'e wal \<Rightarrow>
   (engine_error + unit) \<times> 'e wal" where
  "persist_entries L C ens w =
    (if ens = [] then (Inr (), w)
     else case
       and_then (map_err db_err (write_txn L (wal_env w))) (\<lambda>wtxn.
       and_then (persist_loop L C ens wtxn 0) (\<lambda>(wtxn, max_index).
       and_then (map_err db_err (txn_commit L wtxn)) (\<lambda>env. Inr (env, max_index))))
      of Inl e \<Rightarrow> (Inl e, w)
       | Inr (env, max_index) \<Rightarrow>
           (Inr (), w\<lparr>wal_env := env, wal_last_index := max (wal_last_index w) max_index\<rparr>))"

definition wal_entry ::
  "('e, 't) lmdb_api \<Rightarrow> ('en, 'hs) wal_codec \<Rightarrow> 'e wal \<Rightarrow> u64 \<Rightarrow> engine_error + 'en option" where
  "wal_entry L C w index =
    and_then (map_err db_err (read_txn L (wal_env w))) (\<lambda>rtxn.
    and_then (map_err db_err (db_get L rtxn DB_LOG (to_be_bytes index))) (\<lambda>found.
    (case found of
       Some b \<Rightarrow> map_err decode_err (map_ok Some (decode_entry C b))
     | None \<Rightarrow> Inr None)))"

fun entries_loop ::
  "('en, 'hs) wal_codec \<Rightarrow> u64 \<Rightarrow> (heed_error + bytes \<times> bytes) list \<Rightarrow> 'en list \<Rightarrow>
   engine_error + 'en list" where
  "entries_loop C stop [] acc = Inr acc"
| "entries_loop C stop (result # rest) acc =
    and_then (map_err db_err result) (\<lambda>(k, v).
    if length k \<noteq> 8 then Inl (StorageErr (DbError ''invalid log key length''))
    else if stop < from_be_bytes k then Inr acc
    else and_then (map_err decode_err (decode_entry C v)) (\<lambda>en.
      entries_loop C stop rest (acc @ [en])))"

definition get_entries ::
  "('e, 't) lmdb_api \<Rightarrow> ('en, 'hs) wal_codec \<Rightarrow> 'e wal \<Rightarrow> u64 \<Rightarrow> u64 \<Rightarrow> engine_error + 'en list" where
  "get_entries L C w start stop =
    and_then (map_err db_err (read_txn L (wal_env w))) (\<lambda>rtxn.
    and_then (map_err db_err (db_range L rtxn DB_LOG (Included (to_be_bytes start)) Unbounded)) (\<lambda>its.
    entries_loop C stop its []))"

definition purge ::
  "('e, 't) lmdb_api \<Rightarrow> ('en, 'hs) wal_codec \<Rightarrow> log_id \<Rightarrow> 'e wal \<Rightarrow> (engine_error + unit) \<times> 'e wal"
where
  "purge L C cutoff w =
    (case
       and_then (map_err db_err (write_txn L (wal_env w))) (\<lambda>wtxn.
       and_then (map_err db_err (db_delete_range L wtxn DB_LOG (Included (to_be_bytes 0))
         (Excluded (to_be_bytes (saturating_add_u64 (log_index cutoff) 1))))) (\<lambda>(_, wtxn).
       and_then (map_err db_err
         (db_put L wtxn WAL_DB_META KEY_PURGE_BOUNDARY (encode_log_id C cutoff))) (\<lambda>wtxn.
       map_err db_err (txn_commit L wtxn))))
     of Inl e \<Rightarrow> (Inl e, w) | Inr env \<Rightarrow> (Inr (), w\<lparr>wal_env := env\<rparr>))"

definition truncate ::
  "('e, 't) lmdb_api \<Rightarrow> u64 \<Rightarrow> 'e wal \<Rightarrow> (engine_error + unit) \<times> 'e wal" where
  "truncate L from_index w =
    (case
       and_then (map_err db_err (write_txn L (wal_env w))) (\<lambda>wtxn.
       and_then (map_err db_err
         (db_delete_range L wtxn DB_LOG (Included (to_be_bytes from_index)) Unbounded)) (\<lambda>(_, wtxn).
       and_then (map_err db_err (db_last L wtxn DB_LOG)) (\<lambda>tail.
       and_then (map_err db_err (txn_commit L wtxn)) (\<lambda>env. Inr (env, tail_index tail)))))
     of Inl e \<Rightarrow> (Inl e, w)
      | Inr (env, new_last) \<Rightarrow> (Inr (), w\<lparr>wal_env := env, wal_last_index := new_last\<rparr>))"

definition is_write_durable :: "'e wal \<Rightarrow> bool" where
  "is_write_durable w = True"

definition wal_get_last_index :: "'e wal \<Rightarrow> u64" where
  "wal_get_last_index w = wal_last_index w"

definition load_purge_boundary ::
  "('e, 't) lmdb_api \<Rightarrow> ('en, 'hs) wal_codec \<Rightarrow> 'e wal \<Rightarrow> engine_error + log_id option" where
  "load_purge_boundary L C w =
    and_then (map_err db_err (read_txn L (wal_env w))) (\<lambda>rtxn.
    and_then (map_err db_err (db_get L rtxn WAL_DB_META KEY_PURGE_BOUNDARY)) (\<lambda>found.
    (case found of
       Some b \<Rightarrow> map_err decode_err (map_ok Some (decode_log_id C b))
     | None \<Rightarrow> Inr None)))"

definition wal_reset :: "('e, 't) lmdb_api \<Rightarrow> 'e wal \<Rightarrow> (engine_error + unit) \<times> 'e wal" where
  "wal_reset L w =
    (case
       and_then (map_err db_err (write_txn L (wal_env w))) (\<lambda>wtxn.
       and_then (map_err db_err (db_clear L wtxn DB_LOG)) (\<lambda>wtxn.
       map_err db_err (txn_commit L wtxn)))
     of Inl e \<Rightarrow> (Inl e, w) | Inr env \<Rightarrow> (Inr (), w\<lparr>wal_env := env, wal_last_index := 0\<rparr>))"

definition save_hard_state ::
  "('e, 't) lmdb_api \<Rightarrow> ('en, 'hs) wal_codec \<Rightarrow> 'hs \<Rightarrow> 'e wal \<Rightarrow> (engine_error + unit) \<times> 'e wal"
where
  "save_hard_state L C h w =
    (case
       and_then (map_err bincode_err (serialize_hs C h)) (\<lambda>serialized.
       and_then (map_err db_err (write_txn L (wal_env w))) (\<lambda>wtxn.
       and_then (map_err db_err (db_put L wtxn WAL_DB_META KEY_HARD_STATE serialized)) (\<lambda>wtxn.
       map_err db_err (txn_commit L wtxn))))
     of Inl e \<Rightarrow> (Inl e, w) | Inr env \<Rightarrow> (Inr (), w\<lparr>wal_env := env\<rparr>))"

definition load_hard_state ::
  "('e, 't) lmdb_api \<Rightarrow> ('en, 'hs) wal_codec \<Rightarrow> 'e wal \<Rightarrow> engine_error + 'hs option" where
  "load_hard_state L C w =
    and_then (map_err db_err (read_txn L (wal_env w))) (\<lambda>rtxn.
    and_then (map_err db_err (db_get L rtxn WAL_DB_META KEY_HARD_STATE)) (\<lambda>found.
    (case found of
       Some b \<Rightarrow> map_err bincode_err (map_ok Some (deserialize_hs C b))
     | None \<Rightarrow> Inr None)))"


section \<open>Abstraction: the log as a map\<close>

definition raw_log :: "('e, 't) lmdb_view \<Rightarrow> 'e wal \<Rightarrow> kv" where
  "raw_log V w = env_view V (wal_env w) DB_LOG"

definition log_map :: "('en, 'hs) wal_codec \<Rightarrow> kv \<Rightarrow> u64 \<rightharpoonup> 'en" where
  "log_map C m i =
    (case m (to_be_bytes i) of
       None \<Rightarrow> None
     | Some b \<Rightarrow> (case decode_entry C b of Inl _ \<Rightarrow> None | Inr en \<Rightarrow> Some en))"

definition log_of ::
  "('e, 't) lmdb_view \<Rightarrow> ('en, 'hs) wal_codec \<Rightarrow> 'e wal \<Rightarrow> u64 \<rightharpoonup> 'en" where
  "log_of V C w = log_map C (raw_log V w)"

text \<open>The largest index of a log, zero for the empty one.\<close>

definition tail_of :: "(u64 \<rightharpoonup> 'en) \<Rightarrow> u64" where
  "tail_of m = (if m = Map.empty then 0 else Max (dom m))"

text \<open>
  Every log key is an eight-byte index holding the encoding of the entry with that index, and
  no index is above \<open>last_index\<close>.
\<close>

definition log_wf :: "('en, 'hs) wal_codec \<Rightarrow> kv \<Rightarrow> bool" where
  "log_wf C m \<longleftrightarrow> (\<forall>k b. m k = Some b \<longrightarrow>
     length k = 8 \<and> (\<exists>en. b = encode_entry C en \<and> entry_idx C en = from_be_bytes k))"

definition wal_wf :: "('e, 't) lmdb_view \<Rightarrow> ('en, 'hs) wal_codec \<Rightarrow> 'e wal \<Rightarrow> bool" where
  "wal_wf V C w \<longleftrightarrow> log_wf C (raw_log V w) \<and>
     (\<forall>k. raw_log V w k \<noteq> None \<longrightarrow> from_be_bytes k \<le> wal_last_index w)"

text \<open>The log with the given entries written over it, one after the other.\<close>

fun log_put :: "('en, 'hs) wal_codec \<Rightarrow> 'en list \<Rightarrow> (u64 \<rightharpoonup> 'en) \<Rightarrow> u64 \<rightharpoonup> 'en" where
  "log_put C [] m = m"
| "log_put C (en # ens) m = log_put C ens (m(entry_idx C en \<mapsto> en))"

definition max_idx :: "('en, 'hs) wal_codec \<Rightarrow> 'en list \<Rightarrow> u64 \<Rightarrow> u64" where
  "max_idx C ens i = fold (\<lambda>en j. max j (entry_idx C en)) ens i"


lemma DB_LOG_neq [simp]: "DB_LOG \<noteq> WAL_DB_META" "WAL_DB_META \<noteq> DB_LOG"
  by (simp_all add: DB_LOG_def WAL_DB_META_def)

lemma wal_keys_distinct [simp]:
  "KEY_HARD_STATE \<noteq> KEY_PURGE_BOUNDARY" "KEY_PURGE_BOUNDARY \<noteq> KEY_HARD_STATE"
proof -
  have "length KEY_HARD_STATE \<noteq> length KEY_PURGE_BOUNDARY"
    by (simp add: KEY_HARD_STATE_def KEY_PURGE_BOUNDARY_def)
  then show "KEY_HARD_STATE \<noteq> KEY_PURGE_BOUNDARY" "KEY_PURGE_BOUNDARY \<noteq> KEY_HARD_STATE"
    by auto
qed

lemma wal_keys_admissible:
  assumes "511 \<le> max_key_size L"
  shows "admissible_key L (to_be_bytes i)" "admissible_key L KEY_HARD_STATE"
    "admissible_key L KEY_PURGE_BOUNDARY"
proof -
  have "length KEY_HARD_STATE = 10" "length KEY_PURGE_BOUNDARY = 14"
    by (simp_all add: KEY_HARD_STATE_def KEY_PURGE_BOUNDARY_def)
  then show "admissible_key L (to_be_bytes i)" "admissible_key L KEY_HARD_STATE"
    "admissible_key L KEY_PURGE_BOUNDARY"
    using assms by (auto simp: admissible_key_def)
qed

lemma zero_key_le: "length k = 8 \<Longrightarrow> to_be_bytes 0 \<le> k"
  by (metis to_from_be_bytes to_be_bytes_le_iff word_zero_le)

lemma key_less_iff: "length k = 8 \<Longrightarrow> k < to_be_bytes i \<longleftrightarrow> from_be_bytes k < i"
  by (metis to_from_be_bytes to_be_bytes_less_iff)

lemma key_le_iff: "length k = 8 \<Longrightarrow> to_be_bytes i \<le> k \<longleftrightarrow> i \<le> from_be_bytes k"
  by (metis to_from_be_bytes to_be_bytes_le_iff)

lemma list_of_strict_sorted:
  fixes xs :: "'a :: linorder list"
  shows "sorted_wrt (<) xs \<Longrightarrow> set xs = A \<Longrightarrow> xs = sorted_list_of_set A"
  by (auto simp: strict_sorted_iff sorted_list_of_set.idem_if_sorted_distinct)

lemma from_be_bytes_less: "length k = 8 \<Longrightarrow> length k' = 8 \<Longrightarrow> k < k' \<Longrightarrow> from_be_bytes k < from_be_bytes k'"
  using key_less_iff [of k "from_be_bytes k'"] by (simp add: to_from_be_bytes)

lemma sorted_indices:
  "sorted_wrt (<) ks \<Longrightarrow> \<forall>k \<in> set ks. length k = 8 \<Longrightarrow> sorted_wrt (<) (map from_be_bytes ks)"
  by (induction ks) (auto intro: from_be_bytes_less)

lemma max_idx_ge: "i \<le> max_idx C ens i \<and> (\<forall>en \<in> set ens. entry_idx C en \<le> max_idx C ens i)"
proof (induction ens arbitrary: i)
  case (Cons en ens)
  show ?case
    using Cons.IH [of "max i (entry_idx C en)"] by (auto simp: max_idx_def)
qed (simp add: max_idx_def)

lemma log_wf_Map_empty [simp]: "log_wf C Map.empty"
  by (simp add: log_wf_def)

lemma log_map_Map_empty [simp]: "log_map C Map.empty = Map.empty"
  by (simp add: log_map_def fun_eq_iff)

lemma log_wf_subset: "log_wf C m \<Longrightarrow> (\<And>k b. m' k = Some b \<Longrightarrow> m k = Some b) \<Longrightarrow> log_wf C m'"
  by (fastforce simp: log_wf_def)

lemma log_wf_put:
  "log_wf C m \<Longrightarrow> log_wf C (m(to_be_bytes (entry_idx C en) \<mapsto> encode_entry C en))"
  by (auto simp: log_wf_def)

context entry_codec
begin

lemma log_map_put:
  "log_map C (m(to_be_bytes (entry_idx C en) \<mapsto> encode_entry C en)) = (log_map C m)(entry_idx C en \<mapsto> en)"
  by (auto simp: log_map_def fun_eq_iff entry_roundtrip)

lemma log_map_Some:
  assumes "log_wf C m"
  shows "log_map C m i = Some en \<longleftrightarrow> m (to_be_bytes i) = Some (encode_entry C en) \<and> entry_idx C en = i"
proof
  assume "log_map C m i = Some en"
  then obtain b where b: "m (to_be_bytes i) = Some b" "decode_entry C b = Inr en"
    by (auto simp: log_map_def split: option.splits sum.splits)
  then obtain en' where "b = encode_entry C en'" "entry_idx C en' = i"
    using assms by (fastforce simp: log_wf_def)
  then show "m (to_be_bytes i) = Some (encode_entry C en) \<and> entry_idx C en = i"
    using b entry_roundtrip by simp
qed (simp add: log_map_def entry_roundtrip)

lemma dom_log_map:
  assumes "log_wf C m"
  shows "i \<in> dom (log_map C m) \<longleftrightarrow> m (to_be_bytes i) \<noteq> None"
proof
  assume "m (to_be_bytes i) \<noteq> None"
  then obtain b where b: "m (to_be_bytes i) = Some b" by blast
  then obtain en where "b = encode_entry C en" using assms by (fastforce simp: log_wf_def)
  then show "i \<in> dom (log_map C m)" using b by (simp add: log_map_def entry_roundtrip domIff)
qed (auto simp: log_map_def split: option.splits)

lemma raw_in_dom:
  "log_wf C m \<Longrightarrow> m k = Some b \<Longrightarrow>
   length k = 8 \<and> from_be_bytes k \<in> dom (log_map C m) \<and> k = to_be_bytes (from_be_bytes k)"
  using dom_log_map [of m "from_be_bytes k"] to_from_be_bytes [of k]
  by (auto simp: log_wf_def)

lemma log_map_empty_iff: "log_wf C m \<Longrightarrow> log_map C m = Map.empty \<longleftrightarrow> m = Map.empty"
proof
  assume wf: "log_wf C m" and e: "log_map C m = Map.empty"
  show "m = Map.empty"
  proof
    fix k show "m k = None" using raw_in_dom [OF wf] e by (cases "m k") auto
  qed
qed (simp add: log_map_def fun_eq_iff)

lemma tail_index_last_item:
  assumes "log_wf C m" and "finite (dom m)"
  shows "tail_index (last_item m) = tail_of (log_map C m)"
proof (cases "last_item m")
  case None
  then show ?thesis
    using last_item_None [OF assms(2)] by (simp add: tail_index_def tail_of_def)
next
  case (Some kb)
  obtain k b where kb: "kb = (k, b)" by (cases kb)
  note last = last_item_Some [OF assms(2) Some [unfolded kb]]
  note k = raw_in_dom [OF assms(1) last(1)]
  have "Max (dom (log_map C m)) = from_be_bytes k"
  proof (rule Max_eqI)
    fix i assume "i \<in> dom (log_map C m)"
    then have "to_be_bytes i \<le> k" using dom_log_map [OF assms(1)] last(2) by blast
    then show "i \<le> from_be_bytes k" using k key_le_iff by blast
  qed (use k in simp_all)
  moreover have "log_map C m \<noteq> Map.empty" using k by auto
  ultimately show ?thesis using Some kb k by (simp add: tail_index_def tail_of_def)
qed

text \<open>Reading a stretch of the log.\<close>

lemma entries_loop_sound:
  assumes "log_wf C m" and "\<forall>(k, b) \<in> set xs. m k = Some b"
    and "reads_as its xs" and "entries_loop C stop its acc = Inr res"
  shows "res = acc @ map (\<lambda>(k, b). the (log_map C m (from_be_bytes k)))
    (takeWhile (\<lambda>(k, b). from_be_bytes k \<le> stop) xs)"
  using assms(2-)
proof (induction xs arbitrary: its acc)
  case Nil
  then show ?case by (auto simp: reads_as_Nil)
next
  case (Cons x xs)
  obtain k b where x: "x = (k, b)" by (cases x)
  obtain its' where its: "its = Inr x # its'" "reads_as its' xs"
    using Cons.prems by (auto simp: reads_as_Cons)
  have b: "m k = Some b" using Cons.prems x by simp
  then obtain en where en: "b = encode_entry C en" "length k = 8" "entry_idx C en = from_be_bytes k"
    using assms(1) by (fastforce simp: log_wf_def)
  then have "log_map C m (from_be_bytes k) = Some en"
    using b log_map_Some [OF assms(1)] by (simp add: to_from_be_bytes)
  then show ?case
    using Cons.IH [OF _ its(2), of "acc @ [en]"] Cons.prems its x en
    by (auto simp: entry_roundtrip not_le split: if_splits)
qed

lemma entries_loop_total:
  "log_wf C m \<Longrightarrow> \<forall>(k, b) \<in> set xs. m k = Some b \<Longrightarrow>
   \<exists>res. entries_loop C stop (map Inr xs) acc = Inr res"
proof (induction xs arbitrary: acc)
  case (Cons x xs)
  obtain k b where x: "x = (k, b)" by (cases x)
  then have "m k = Some b" using Cons.prems by simp
  then obtain en where "b = encode_entry C en" "length k = 8"
    using Cons.prems(1) by (fastforce simp: log_wf_def)
  then show ?case using Cons x by (simp add: entry_roundtrip)
qed simp

end


section \<open>What the operations do\<close>

locale wal_store = lmdb L V + entry_codec C
  for L :: "('e, 't) lmdb_api" and V :: "('e, 't) lmdb_view" and C :: "('en, 'hs) wal_codec"

locale wal_store_live = lmdb_live L V + entry_codec C
  for L :: "('e, 't) lmdb_api" and V :: "('e, 't) lmdb_view" and C :: "('en, 'hs) wal_codec" +
  assumes hs_serializes: "\<exists>b. serialize_hs C h = Inr b"

sublocale wal_store_live \<subseteq> wal_store
  by unfold_locales

definition meta_of :: "('e, 't) lmdb_view \<Rightarrow> 'e wal \<Rightarrow> kv" where
  "meta_of V w = env_view V (wal_env w) WAL_DB_META"

context wal_store
begin

lemma finite_raw: "finite (dom (raw_log V w))"
  using finite_env by (simp add: raw_log_def)

lemma persist_loop_refines:
  "persist_loop L C ens t i = Inr (t', j) \<Longrightarrow> log_wf C (txn_view V t DB_LOG) \<Longrightarrow>
   log_wf C (txn_view V t' DB_LOG) \<and>
   log_map C (txn_view V t' DB_LOG) = log_put C ens (log_map C (txn_view V t DB_LOG)) \<and>
   txn_view V t' WAL_DB_META = txn_view V t WAL_DB_META \<and> j = max_idx C ens i"
proof (induction ens arbitrary: t i)
  case (Cons en ens)
  obtain t1 where t1: "db_put L t DB_LOG (to_be_bytes (entry_idx C en)) (encode_entry C en) = Inr t1"
    and rest: "persist_loop L C ens t1 (max i (entry_idx C en)) = Inr (t', j)"
    using Cons.prems(1) by (auto simp: and_then_eq_Inr)
  have view: "txn_view V t1 DB_LOG =
      (txn_view V t DB_LOG)(to_be_bytes (entry_idx C en) \<mapsto> encode_entry C en)"
    "txn_view V t1 WAL_DB_META = txn_view V t WAL_DB_META"
    using put [OF t1] by simp_all
  have wf: "log_wf C (txn_view V t1 DB_LOG)"
    unfolding view by (rule log_wf_put) (rule Cons.prems(2))
  have map: "log_map C (txn_view V t1 DB_LOG) =
      (log_map C (txn_view V t DB_LOG))(entry_idx C en \<mapsto> en)"
    unfolding view by (rule log_map_put)
  have idx: "max_idx C (en # ens) i = max_idx C ens (max i (entry_idx C en))"
    by (simp add: max_idx_def)
  show ?case
    using Cons.IH [OF rest wf] unfolding map view(2) log_put.simps(2) idx .
qed (simp add: max_idx_def)

lemma persist_refines_wal:
  assumes "persist_entries L C ens w = (Inr (), w')" and "log_wf C (raw_log V w)"
  shows "log_wf C (raw_log V w')"
    and "log_of V C w' = log_put C ens (log_of V C w)"
    and "wal_last_index w' = max_idx C ens (wal_last_index w)"
    and "meta_of V w' = meta_of V w"
proof -
  have "log_wf C (raw_log V w') \<and> log_of V C w' = log_put C ens (log_of V C w) \<and>
    wal_last_index w' = max_idx C ens (wal_last_index w) \<and> meta_of V w' = meta_of V w"
  proof (cases "ens = []")
    case False
    then obtain t t' i env where steps: "write_txn L (wal_env w) = Inr t"
      "persist_loop L C ens t 0 = Inr (t', i)" "txn_commit L t' = Inr env"
      and w': "w' = w\<lparr>wal_env := env, wal_last_index := max (wal_last_index w) i\<rparr>"
      using assms by (auto simp: persist_entries_def and_then_eq_Inr split: sum.splits)
    have "max j (fold (\<lambda>en j. max j (entry_idx C en)) es i) =
        fold (\<lambda>en j. max j (entry_idx C en)) es (max j i)" for es and i j :: u64
      by (induction es arbitrary: i) (simp_all add: max.assoc)
    then have "max (wal_last_index w) (max_idx C ens 0) = max_idx C ens (wal_last_index w)"
      by (simp add: max_idx_def)
    moreover have "log_wf C (txn_view V t DB_LOG)"
      using write_txn [OF steps(1)] assms(2) by (simp add: raw_log_def)
    ultimately show ?thesis
      using persist_loop_refines [OF steps(2)] write_txn [OF steps(1)] commit [OF steps(3)] w'
      by (simp add: raw_log_def log_of_def meta_of_def)
  qed (use assms in \<open>simp add: persist_entries_def max_idx_def\<close>)
  then show "log_wf C (raw_log V w')" "log_of V C w' = log_put C ens (log_of V C w)"
    "wal_last_index w' = max_idx C ens (wal_last_index w)" "meta_of V w' = meta_of V w"
    by simp_all
qed

lemma truncate_refines:
  assumes "truncate L from w = (Inr (), w')" and "log_wf C (raw_log V w)"
  shows "log_wf C (raw_log V w')"
    and "log_of V C w' = (\<lambda>i. if i < from then log_of V C w i else None)"
    and "wal_last_index w' = tail_of (log_of V C w')"
    and "meta_of V w' = meta_of V w"
proof -
  obtain t n t1 p env where steps: "write_txn L (wal_env w) = Inr t"
    "db_delete_range L t DB_LOG (Included (to_be_bytes from)) Unbounded = Inr (n, t1)"
    "db_last L t1 DB_LOG = Inr p" "txn_commit L t1 = Inr env"
    and w': "w' = w\<lparr>wal_env := env, wal_last_index := tail_index p\<rparr>"
    using assms(1) by (auto simp: truncate_def and_then_eq_Inr split: sum.splits prod.splits)
  have raw: "raw_log V w' = (\<lambda>k. if to_be_bytes from \<le> k then None else raw_log V w k)"
    using write_txn [OF steps(1)] delete_range [OF steps(2)] commit [OF steps(4)] w'
    by (auto simp: raw_log_def in_bounds_def fun_eq_iff)
  show wf: "log_wf C (raw_log V w')"
    using assms(2) by (rule log_wf_subset) (simp add: raw split: if_splits)
  show "log_of V C w' = (\<lambda>i. if i < from then log_of V C w i else None)"
    by (auto simp: log_of_def log_map_def raw fun_eq_iff not_less)
  have "p = last_item (raw_log V w')"
    using last [OF steps(3)] commit [OF steps(4)] w' by (simp add: raw_log_def)
  then show "wal_last_index w' = tail_of (log_of V C w')"
    using tail_index_last_item [OF wf finite_raw] w' by (simp add: log_of_def)
  show "meta_of V w' = meta_of V w"
    using write_txn [OF steps(1)] delete_range [OF steps(2)] commit [OF steps(4)] w'
    by (simp add: meta_of_def)
qed

lemma purge_refines:
  assumes "purge L C cutoff w = (Inr (), w')" and "log_wf C (raw_log V w)"
  shows "log_wf C (raw_log V w')"
    and "log_of V C w' =
      (\<lambda>i. if i < saturating_add_u64 (log_index cutoff) 1 then None else log_of V C w i)"
    and "wal_last_index w' = wal_last_index w"
    and "meta_of V w' = (meta_of V w)(KEY_PURGE_BOUNDARY \<mapsto> encode_log_id C cutoff)"
proof -
  obtain t n t1 t2 env where steps: "write_txn L (wal_env w) = Inr t"
    "db_delete_range L t DB_LOG (Included (to_be_bytes 0))
       (Excluded (to_be_bytes (saturating_add_u64 (log_index cutoff) 1))) = Inr (n, t1)"
    "db_put L t1 WAL_DB_META KEY_PURGE_BOUNDARY (encode_log_id C cutoff) = Inr t2"
    "txn_commit L t2 = Inr env"
    and w': "w' = w\<lparr>wal_env := env\<rparr>"
    using assms(1) by (auto simp: purge_def and_then_eq_Inr split: sum.splits prod.splits)
  note facts = write_txn [OF steps(1)] delete_range [OF steps(2)] put [OF steps(3)]
    commit [OF steps(4)]
  have raw: "raw_log V w' = (\<lambda>k. if to_be_bytes 0 \<le> k \<and>
      k < to_be_bytes (saturating_add_u64 (log_index cutoff) 1) then None else raw_log V w k)"
    using facts w' by (auto simp: raw_log_def in_bounds_def fun_eq_iff)
  show "log_wf C (raw_log V w')"
    using assms(2) by (rule log_wf_subset) (simp add: raw split: if_splits)
  show "log_of V C w' =
      (\<lambda>i. if i < saturating_add_u64 (log_index cutoff) 1 then None else log_of V C w i)"
    by (auto simp: log_of_def log_map_def raw fun_eq_iff)
  show "wal_last_index w' = wal_last_index w" using w' by simp
  show "meta_of V w' = (meta_of V w)(KEY_PURGE_BOUNDARY \<mapsto> encode_log_id C cutoff)"
    using facts w' by (simp add: meta_of_def)
qed

lemma wal_reset_refines:
  assumes "wal_reset L w = (Inr (), w')"
  shows "raw_log V w' = Map.empty" and "wal_last_index w' = 0" and "meta_of V w' = meta_of V w"
proof -
  obtain t t1 env where steps: "write_txn L (wal_env w) = Inr t" "db_clear L t DB_LOG = Inr t1"
    "txn_commit L t1 = Inr env" and w': "w' = w\<lparr>wal_env := env, wal_last_index := 0\<rparr>"
    using assms by (auto simp: wal_reset_def and_then_eq_Inr split: sum.splits)
  note facts = write_txn [OF steps(1)] clear [OF steps(2)] commit [OF steps(3)]
  show "raw_log V w' = Map.empty" "wal_last_index w' = 0" "meta_of V w' = meta_of V w"
    using facts w' by (simp_all add: raw_log_def meta_of_def)
qed

lemma save_refines:
  assumes "save_hard_state L C h w = (Inr (), w')"
  shows "raw_log V w' = raw_log V w" and "wal_last_index w' = wal_last_index w"
    and "\<exists>b. serialize_hs C h = Inr b \<and> meta_of V w' = (meta_of V w)(KEY_HARD_STATE \<mapsto> b)"
proof -
  obtain b t t1 env where steps: "serialize_hs C h = Inr b" "write_txn L (wal_env w) = Inr t"
    "db_put L t WAL_DB_META KEY_HARD_STATE b = Inr t1" "txn_commit L t1 = Inr env"
    and w': "w' = w\<lparr>wal_env := env\<rparr>"
    using assms by (auto simp: save_hard_state_def and_then_eq_Inr split: sum.splits)
  note facts = write_txn [OF steps(2)] put [OF steps(3)] commit [OF steps(4)]
  show "raw_log V w' = raw_log V w" "wal_last_index w' = wal_last_index w"
    "\<exists>b. serialize_hs C h = Inr b \<and> meta_of V w' = (meta_of V w)(KEY_HARD_STATE \<mapsto> b)"
    using facts w' steps(1) by (simp_all add: raw_log_def meta_of_def)
qed

lemma wal_new_refines:
  assumes "wal_new L mkdir f = Inr w" and "case f of None \<Rightarrow> True | Some e \<Rightarrow> log_wf C (env_view V e DB_LOG)"
  shows "case f of None \<Rightarrow> env_view V (wal_env w) = (\<lambda>_. Map.empty)
      | Some e \<Rightarrow> env_view V (wal_env w) = env_view V e"
    and "log_wf C (raw_log V w)"
    and "wal_last_index w = tail_of (log_of V C w)"
proof -
  obtain env t0 t1 t2 p env' where steps: "open_env L f WAL_MAP_SIZE 2 = Inr env"
    "write_txn L env = Inr t0" "create_database L t0 DB_LOG = Inr t1"
    "create_database L t1 WAL_DB_META = Inr t2" "db_last L t2 DB_LOG = Inr p"
    "txn_commit L t2 = Inr env'" and w: "w = \<lparr>wal_env = env', wal_last_index = tail_index p\<rparr>"
    using assms(1) by (auto simp: wal_new_def and_then_eq_Inr)
  note facts = write_txn [OF steps(2)] create [OF steps(3)] create [OF steps(4)] last [OF steps(5)]
    commit [OF steps(6)]
  show view: "case f of None \<Rightarrow> env_view V (wal_env w) = (\<lambda>_. Map.empty)
      | Some e \<Rightarrow> env_view V (wal_env w) = env_view V e"
    using facts steps(1) w by (auto dest: open_env_new open_env_old split: option.split)
  show wf: "log_wf C (raw_log V w)"
    using view assms(2) by (simp add: raw_log_def split: option.splits)
  have "p = last_item (raw_log V w)" using facts w by (simp add: raw_log_def)
  then show "wal_last_index w = tail_of (log_of V C w)"
    using tail_index_last_item [OF wf finite_raw] w by (simp add: log_of_def)
qed

lemma raw_range_items:
  assumes "log_wf C (raw_log V w)"
  shows "map (\<lambda>(k, b). from_be_bytes k)
      (takeWhile (\<lambda>(k, b). from_be_bytes k \<le> stop)
        (range_items (raw_log V w) (Included (to_be_bytes start)) Unbounded)) =
    sorted_list_of_set {i \<in> dom (log_of V C w). start \<le> i \<and> i \<le> stop}"
proof -
  define m where "m = raw_log V w"
  define ys where "ys = range_items m (Included (to_be_bytes start)) (Included (to_be_bytes stop))"
  have wf: "log_wf C m" and fin: "finite (dom m)"
    using assms finite_raw by (simp_all add: m_def)
  have key: "length k = 8" if "m k = Some b" for k b using raw_in_dom [OF wf that] by simp
  have low: "from_be_bytes k \<le> stop \<longleftrightarrow> k \<le> to_be_bytes stop" if "length k = 8" for k
    using that by (metis to_from_be_bytes to_be_bytes_le_iff)
  have "takeWhile (\<lambda>(k, b). from_be_bytes k \<le> stop)
      (range_items m (Included (to_be_bytes start)) Unbounded) =
    takeWhile (\<lambda>(k, _). before_end (Included (to_be_bytes stop)) k)
      (range_items m (Included (to_be_bytes start)) Unbounded)"
    by (intro takeWhile_cong refl) (auto simp: set_range_items [OF fin] dest!: key low)
  also have "\<dots> = ys"
    unfolding ys_def range_items_split [of m "Included (to_be_bytes start)" "Included (to_be_bytes stop)"]
    by (simp add: range_items_def in_bounds_def)
  finally have take: "takeWhile (\<lambda>(k, b). from_be_bytes k \<le> stop)
      (range_items m (Included (to_be_bytes start)) Unbounded) = ys" .
  have "sorted_wrt (<) (map from_be_bytes (map fst ys))"
  proof (rule sorted_indices)
    show "sorted_wrt (<) (map fst ys)" unfolding ys_def by (rule sorted_range_items)
    show "\<forall>k \<in> set (map fst ys). length k = 8"
      using key by (auto simp: ys_def set_range_items [OF fin])
  qed
  moreover have "set (map from_be_bytes (map fst ys)) =
      {i \<in> dom (log_of V C w). start \<le> i \<and> i \<le> stop}"
  proof (intro set_eqI iffI)
    fix i assume "i \<in> set (map from_be_bytes (map fst ys))"
    then obtain k b where kb: "(k, b) \<in> set ys" "i = from_be_bytes k" by auto
    then have k: "m k = Some b" "to_be_bytes start \<le> k" "k \<le> to_be_bytes stop"
      by (auto simp: ys_def set_range_items [OF fin] in_bounds_def)
    then show "i \<in> {i \<in> dom (log_of V C w). start \<le> i \<and> i \<le> stop}"
      using raw_in_dom [OF wf k(1)] kb(2) low key_le_iff by (simp add: log_of_def m_def)
  next
    fix i assume i: "i \<in> {i \<in> dom (log_of V C w). start \<le> i \<and> i \<le> stop}"
    then obtain b where "m (to_be_bytes i) = Some b"
      using dom_log_map [OF wf] by (auto simp: log_of_def m_def)
    then have "(to_be_bytes i, b) \<in> set ys"
      using i by (simp add: ys_def set_range_items [OF fin] in_bounds_def)
    then show "i \<in> set (map from_be_bytes (map fst ys))" by force
  qed
  ultimately have "map from_be_bytes (map fst ys) =
      sorted_list_of_set {i \<in> dom (log_of V C w). start \<le> i \<and> i \<le> stop}"
    by (rule list_of_strict_sorted)
  moreover have "map (\<lambda>(k, b). from_be_bytes k) ys = map from_be_bytes (map fst ys)"
    by (simp add: case_prod_unfold comp_def)
  ultimately show ?thesis using take unfolding m_def by argo
qed

end

end
