(* ===== verification/Wal_Log.thy ===== *)
theory Wal_Log
  imports Wal
begin

text \<open>
  What the Raft log of \<open>storage_engine.rs\<close> promises: the states it can reach and their
  invariant, the exact effect of every operation on the log read as a map, the round trips of the
  hard state and the purge boundary, and what a restart recovers.
\<close>


section \<open>Reachable states\<close>

inductive wal_reachable :: "('e, 't) lmdb_api \<Rightarrow> ('en, 'hs) wal_codec \<Rightarrow> 'e wal \<Rightarrow> bool"
  for L :: "('e, 't) lmdb_api" and C :: "('en, 'hs) wal_codec" where
  fresh: "wal_new L mkdir None = Inr w \<Longrightarrow> wal_reachable L C w"
| reopened: "wal_reachable L C w \<Longrightarrow> wal_new L mkdir (Some (wal_env w)) = Inr w' \<Longrightarrow> wal_reachable L C w'"
| persisted: "wal_reachable L C w \<Longrightarrow> persist_entries L C ens w = (r, w') \<Longrightarrow> wal_reachable L C w'"
| purged: "wal_reachable L C w \<Longrightarrow> purge L C cutoff w = (r, w') \<Longrightarrow> wal_reachable L C w'"
| truncated: "wal_reachable L C w \<Longrightarrow> truncate L i w = (r, w') \<Longrightarrow> wal_reachable L C w'"
| cleared: "wal_reachable L C w \<Longrightarrow> wal_reset L w = (r, w') \<Longrightarrow> wal_reachable L C w'"
| voted: "wal_reachable L C w \<Longrightarrow> save_hard_state L C h w = (r, w') \<Longrightarrow> wal_reachable L C w'"

text \<open>An operation that reports an error has changed nothing.\<close>

lemma wal_error_frame:
  "persist_entries L C ens w = (Inl e, w') \<Longrightarrow> w' = w"
  "purge L C cutoff w = (Inl e, w') \<Longrightarrow> w' = w"
  "truncate L i w = (Inl e, w') \<Longrightarrow> w' = w"
  "wal_reset L w = (Inl e, w') \<Longrightarrow> w' = w"
  "save_hard_state L C h w = (Inl e, w') \<Longrightarrow> w' = w"
  by (auto simp: persist_entries_def purge_def truncate_def wal_reset_def save_hard_state_def
      split: if_splits sum.splits prod.splits)

lemma unit_result_cases: "(r = Inr ()) \<or> (\<exists>e. r = Inl e)" for r :: "'a + unit"
  by (cases r) auto

lemma unat_max: "unat (- 1 :: u64) = 18446744073709551615"
  by (simp add: unsigned_minus_1_eq_mask mask_eq_exp_minus_1)

lemma less_saturating_succ:
  "j < saturating_add_u64 i 1 \<longleftrightarrow> j \<le> i \<and> j \<noteq> (- 1 :: u64)"
proof (cases "i = - 1")
  case True
  then show ?thesis
    by (simp add: saturating_add_u64_def word_order.not_eq_extremum [symmetric] unat_max)
next
  case False
  then have bound: "unat i + 1 < 2 ^ 64"
    using unat_u64_less [of i] word_unat_eq_iff [of i "- 1"] by (simp add: unat_max)
  then have "unat (i + 1) = unat i + 1" by (simp add: unat_word_ariths)
  then have "j < i + 1 \<longleftrightarrow> j \<le> i" by (simp add: word_less_nat_alt word_le_nat_alt less_Suc_eq_le)
  moreover have "j \<le> i \<Longrightarrow> j \<noteq> - 1" using False word_order.extremum_unique [of i] by auto
  ultimately show ?thesis using bound by (auto simp: saturating_add_u64_def)
qed

lemma fold_max_commute:
  "(\<lambda>en j. max j (f en)) = (\<lambda>en. max (f en :: u64))"
  by (simp add: fun_eq_iff max.commute)

lemma le_tail_of:
  fixes m :: "u64 \<rightharpoonup> 'en"
  shows "i \<in> dom m \<Longrightarrow> i \<le> tail_of m"
  by (auto simp: tail_of_def)

lemma log_put_dom: "i \<in> dom (log_put C ens m) \<longleftrightarrow> i \<in> dom m \<or> i \<in> entry_idx C ` set ens"
  by (induction ens arbitrary: m) auto

lemma max_idx_mono: "i \<le> max_idx C ens i"
  using max_idx_ge by blast

context wal_store
begin

text \<open>The invariant in terms of the abstract log.\<close>

lemma wal_wf_iff:
  "wal_wf V C w \<longleftrightarrow> log_wf C (raw_log V w) \<and> (\<forall>i \<in> dom (log_of V C w). i \<le> wal_last_index w)"
proof -
  have "(\<forall>k. raw_log V w k \<noteq> None \<longrightarrow> from_be_bytes k \<le> wal_last_index w) \<longleftrightarrow>
      (\<forall>i \<in> dom (log_of V C w). i \<le> wal_last_index w)" if wf: "log_wf C (raw_log V w)"
  proof (intro iffI ballI allI impI)
    fix i assume "\<forall>k. raw_log V w k \<noteq> None \<longrightarrow> from_be_bytes k \<le> wal_last_index w"
      and "i \<in> dom (log_of V C w)"
    then show "i \<le> wal_last_index w"
      using dom_log_map [OF wf, of i] by (auto simp: log_of_def)
  next
    fix k assume "\<forall>i \<in> dom (log_of V C w). i \<le> wal_last_index w" and "raw_log V w k \<noteq> None"
    then show "from_be_bytes k \<le> wal_last_index w"
      using raw_in_dom [OF wf, of k] unfolding log_of_def by blast
  qed
  then show ?thesis by (auto simp: wal_wf_def)
qed

lemma wal_wfI:
  "log_wf C (raw_log V w) \<Longrightarrow> (\<And>i. i \<in> dom (log_of V C w) \<Longrightarrow> i \<le> wal_last_index w) \<Longrightarrow> wal_wf V C w"
  by (simp add: wal_wf_iff)

lemma persist_wf: "wal_wf V C w \<Longrightarrow> persist_entries L C ens w = (r, w') \<Longrightarrow> wal_wf V C w'"
proof -
  assume wf: "wal_wf V C w" and run: "persist_entries L C ens w = (r, w')"
  consider e where "r = Inl e" | "r = Inr ()" using unit_result_cases by blast
  then show "wal_wf V C w'"
  proof cases
    case 1
    then show ?thesis using run wf wal_error_frame(1) by blast
  next
    case 2
    have log: "log_wf C (raw_log V w)" using wf by (simp add: wal_wf_def)
    note facts = persist_refines_wal [OF run [unfolded 2] log]
    show ?thesis
    proof (rule wal_wfI [OF facts(1)])
      fix i assume "i \<in> dom (log_of V C w')"
      then have "i \<in> dom (log_of V C w) \<or> i \<in> entry_idx C ` set ens"
        by (simp only: facts(2) log_put_dom)
      then show "i \<le> wal_last_index w'"
        unfolding facts(3) using wf [unfolded wal_wf_iff] max_idx_ge [of "wal_last_index w" C ens]
        by (auto intro: order_trans)
    qed
  qed
qed

lemma purge_wf: "wal_wf V C w \<Longrightarrow> purge L C cutoff w = (r, w') \<Longrightarrow> wal_wf V C w'"
proof -
  assume wf: "wal_wf V C w" and run: "purge L C cutoff w = (r, w')"
  consider e where "r = Inl e" | "r = Inr ()" using unit_result_cases by blast
  then show "wal_wf V C w'"
  proof cases
    case 1
    then show ?thesis using run wf wal_error_frame(2) by blast
  next
    case 2
    have log: "log_wf C (raw_log V w)" using wf by (simp add: wal_wf_def)
    note facts = purge_refines [OF run [unfolded 2] log]
    show ?thesis
      using wf facts(1,2,3) by (auto simp: wal_wf_iff split: if_splits)
  qed
qed

lemma truncate_wf: "wal_wf V C w \<Longrightarrow> truncate L i w = (r, w') \<Longrightarrow> wal_wf V C w'"
proof -
  assume wf: "wal_wf V C w" and run: "truncate L i w = (r, w')"
  consider e where "r = Inl e" | "r = Inr ()" using unit_result_cases by blast
  then show "wal_wf V C w'"
  proof cases
    case 1
    then show ?thesis using run wf wal_error_frame(3) by blast
  next
    case 2
    have log: "log_wf C (raw_log V w)" using wf by (simp add: wal_wf_def)
    note facts = truncate_refines [OF run [unfolded 2] log]
    show ?thesis by (rule wal_wfI [OF facts(1)]) (simp add: facts(3) le_tail_of)
  qed
qed

lemma reset_wf: "wal_wf V C w \<Longrightarrow> wal_reset L w = (r, w') \<Longrightarrow> wal_wf V C w'"
  using unit_result_cases [of r] wal_error_frame(4) [of L w _ w'] wal_reset_refines [of w w']
  by (auto simp: wal_wf_def)

lemma save_wf: "wal_wf V C w \<Longrightarrow> save_hard_state L C h w = (r, w') \<Longrightarrow> wal_wf V C w'"
  using unit_result_cases [of r] wal_error_frame(5) [of L C h w _ w'] save_refines [of h w w']
  by (auto simp: wal_wf_def)

lemma wal_new_wf:
  "wal_new L mkdir f = Inr w \<Longrightarrow> case f of None \<Rightarrow> True | Some e \<Rightarrow> log_wf C (env_view V e DB_LOG) \<Longrightarrow>
   wal_wf V C w"
  using wal_new_refines(2,3) [of mkdir f w] by (auto intro!: wal_wfI le_tail_of)

lemma reachable_wal_wf: "wal_reachable L C w \<Longrightarrow> wal_wf V C w"
proof (induction rule: wal_reachable.induct)
  case (fresh mkdir w)
  then show ?case using wal_new_wf [of mkdir None w] by simp
next
  case (reopened w mkdir w')
  then show ?case
    using wal_new_wf [of mkdir "Some (wal_env w)" w'] by (simp add: wal_wf_def raw_log_def)
qed (auto intro: persist_wf purge_wf truncate_wf reset_wf save_wf)

end


section \<open>On a healthy disk the operations succeed\<close>

context wal_store_live
begin

lemmas wal_keys_ok = wal_keys_admissible [OF key_size]

lemma zero_bound_ok [simp]: "\<not> empty_start (Included (to_be_bytes i))"
  using wal_keys_ok(1) by (auto simp: empty_start_def admissible_key_def)

lemma entry_live:
  assumes "log_wf C (raw_log V w)"
  shows "wal_entry L C w i = Inr (log_of V C w i)"
proof -
  obtain t where t: "read_txn L (wal_env w) = Inr t" using read_txn_ok by blast
  obtain r where r: "db_get L t DB_LOG (to_be_bytes i) = Inr r" using get_ok wal_keys_ok(1) by blast
  have view: "r = raw_log V w (to_be_bytes i)"
    using get [OF r] read_txn [OF t] by (simp add: raw_log_def)
  show ?thesis
  proof (cases "raw_log V w (to_be_bytes i)")
    case (Some b)
    then obtain en where "b = encode_entry C en" using assms by (fastforce simp: log_wf_def)
    then show ?thesis
      using t r view Some by (simp add: wal_entry_def log_of_def log_map_def entry_roundtrip)
  qed (use t r view in \<open>simp add: wal_entry_def log_of_def log_map_def\<close>)
qed

lemma get_entries_live:
  assumes "log_wf C (raw_log V w)"
  shows "get_entries L C w start stop = Inr (map (\<lambda>i. the (log_of V C w i))
    (sorted_list_of_set {i \<in> dom (log_of V C w). start \<le> i \<and> i \<le> stop}))"
proof -
  define xs where "xs = range_items (raw_log V w) (Included (to_be_bytes start)) Unbounded"
  obtain t where t: "read_txn L (wal_env w) = Inr t" using read_txn_ok by blast
  have its: "db_range L t DB_LOG (Included (to_be_bytes start)) Unbounded = Inr (map Inr xs)"
    using range_ok [of "Included (to_be_bytes start)" t DB_LOG Unbounded] read_txn [OF t]
    by (simp add: xs_def raw_log_def)
  have mem: "\<forall>(k, b) \<in> set xs. raw_log V w k = Some b"
    by (auto simp: xs_def set_range_items [OF finite_raw])
  obtain res where res: "entries_loop C stop (map Inr xs) [] = Inr res"
    using entries_loop_total [OF assms mem] by blast
  have "res = map (\<lambda>(k, b). the (log_map C (raw_log V w) (from_be_bytes k)))
      (takeWhile (\<lambda>(k, b). from_be_bytes k \<le> stop) xs)"
    using entries_loop_sound [OF assms mem reads_as_map_Inr res] by simp
  also have "\<dots> = map (\<lambda>i. the (log_of V C w i))
      (map (\<lambda>(k, b). from_be_bytes k) (takeWhile (\<lambda>(k, b). from_be_bytes k \<le> stop) xs))"
    by (simp add: log_of_def case_prod_unfold)
  also have "map (\<lambda>(k, b). from_be_bytes k) (takeWhile (\<lambda>(k, b). from_be_bytes k \<le> stop) xs) =
      sorted_list_of_set {i \<in> dom (log_of V C w). start \<le> i \<and> i \<le> stop}"
    unfolding xs_def by (rule raw_range_items [OF assms])
  finally show ?thesis using t its res by (simp add: get_entries_def)
qed

lemma persist_loop_live: "\<exists>t' j. persist_loop L C ens t i = Inr (t', j)"
proof (induction ens arbitrary: t i)
  case (Cons en ens)
  obtain t1 where "db_put L t DB_LOG (to_be_bytes (entry_idx C en)) (encode_entry C en) = Inr t1"
    using put_ok wal_keys_ok(1) by blast
  then show ?case using Cons.IH [of t1 "max i (entry_idx C en)"] by auto
qed simp

lemma persist_entries_live: "\<exists>w'. persist_entries L C ens w = (Inr (), w')"
proof -
  obtain t where "write_txn L (wal_env w) = Inr t" using write_txn_ok by blast
  moreover obtain t' j where "persist_loop L C ens t 0 = Inr (t', j)" using persist_loop_live by blast
  moreover obtain env where "txn_commit L t' = Inr env" using commit_ok by blast
  ultimately show ?thesis by (simp add: persist_entries_def)
qed

lemma purge_live: "\<exists>w'. purge L C cutoff w = (Inr (), w')"
proof -
  define hi where "hi = Excluded (to_be_bytes (saturating_add_u64 (log_index cutoff) 1))"
  obtain t where "write_txn L (wal_env w) = Inr t" using write_txn_ok by blast
  moreover obtain n t1 where "db_delete_range L t DB_LOG (Included (to_be_bytes 0)) hi = Inr (n, t1)"
    using delete_range_ok [OF zero_bound_ok] by blast
  moreover obtain t2 where
    "db_put L t1 WAL_DB_META KEY_PURGE_BOUNDARY (encode_log_id C cutoff) = Inr t2"
    using put_ok wal_keys_ok(3) by blast
  moreover obtain env where "txn_commit L t2 = Inr env" using commit_ok by blast
  ultimately show ?thesis by (simp add: purge_def hi_def)
qed

lemma truncate_live: "\<exists>w'. truncate L i w = (Inr (), w')"
proof -
  obtain t where "write_txn L (wal_env w) = Inr t" using write_txn_ok by blast
  moreover obtain n t1 where
    "db_delete_range L t DB_LOG (Included (to_be_bytes i)) Unbounded = Inr (n, t1)"
    using delete_range_ok [OF zero_bound_ok] by blast
  moreover obtain p where "db_last L t1 DB_LOG = Inr p" using last_ok by blast
  moreover obtain env where "txn_commit L t1 = Inr env" using commit_ok by blast
  ultimately show ?thesis by (simp add: truncate_def)
qed

lemma wal_reset_live: "\<exists>w'. wal_reset L w = (Inr (), w')"
proof -
  obtain t where "write_txn L (wal_env w) = Inr t" using write_txn_ok by blast
  moreover obtain t1 where "db_clear L t DB_LOG = Inr t1" using clear_ok by blast
  moreover obtain env where "txn_commit L t1 = Inr env" using commit_ok by blast
  ultimately show ?thesis by (simp add: wal_reset_def)
qed

lemma save_hard_state_live: "\<exists>w'. save_hard_state L C h w = (Inr (), w')"
proof -
  obtain b where "serialize_hs C h = Inr b" using hs_serializes by blast
  moreover obtain t where "write_txn L (wal_env w) = Inr t" using write_txn_ok by blast
  moreover obtain t1 where "db_put L t WAL_DB_META KEY_HARD_STATE b = Inr t1"
    using put_ok wal_keys_ok(2) by blast
  moreover obtain env where "txn_commit L t1 = Inr env" using commit_ok by blast
  ultimately show ?thesis by (simp add: save_hard_state_def)
qed

lemma wal_new_live: "\<exists>w. wal_new L (Inr ()) f = Inr w"
proof -
  obtain env where "open_env L f WAL_MAP_SIZE 2 = Inr env" using open_env_ok by blast
  moreover obtain t0 where "write_txn L env = Inr t0" using write_txn_ok by blast
  moreover obtain t1 where "create_database L t0 DB_LOG = Inr t1" using create_ok by blast
  moreover obtain t2 where "create_database L t1 WAL_DB_META = Inr t2" using create_ok by blast
  moreover obtain p where "db_last L t2 DB_LOG = Inr p" using last_ok by blast
  moreover obtain env' where "txn_commit L t2 = Inr env'" using commit_ok by blast
  ultimately show ?thesis by (simp add: wal_new_def)
qed

text \<open>The metadata reads are functions of the metadata contents.\<close>

lemma load_hard_state_live:
  "load_hard_state L C w =
    (case meta_of V w KEY_HARD_STATE of
       None \<Rightarrow> Inr None | Some b \<Rightarrow> map_err bincode_err (map_ok Some (deserialize_hs C b)))"
proof -
  obtain t where t: "read_txn L (wal_env w) = Inr t" using read_txn_ok by blast
  obtain r where r: "db_get L t WAL_DB_META KEY_HARD_STATE = Inr r" using get_ok wal_keys_ok(2) by blast
  have "r = meta_of V w KEY_HARD_STATE" using get [OF r] read_txn [OF t] by (simp add: meta_of_def)
  then show ?thesis using t r by (simp add: load_hard_state_def split: option.split)
qed

lemma load_purge_boundary_live:
  "load_purge_boundary L C w =
    (case meta_of V w KEY_PURGE_BOUNDARY of
       None \<Rightarrow> Inr None | Some b \<Rightarrow> map_err decode_err (map_ok Some (decode_log_id C b)))"
proof -
  obtain t where t: "read_txn L (wal_env w) = Inr t" using read_txn_ok by blast
  obtain r where r: "db_get L t WAL_DB_META KEY_PURGE_BOUNDARY = Inr r" using get_ok wal_keys_ok(3) by blast
  have "r = meta_of V w KEY_PURGE_BOUNDARY" using get [OF r] read_txn [OF t] by (simp add: meta_of_def)
  then show ?thesis using t r by (simp add: load_purge_boundary_def split: option.split)
qed

end


section \<open>An instance\<close>

text \<open>A codec that writes index and payload one after the other, and two integers for a hard state.\<close>

definition demo_codec :: "(u64 \<times> bytes, u64 \<times> u64) wal_codec" where
  "demo_codec =
    \<lparr>entry_idx = fst,
     encode_entry = (\<lambda>(i, v). to_be_bytes i @ v),
     decode_entry = (\<lambda>b. if length b < 8 then Inl ''short entry''
       else Inr (from_be_bytes (take 8 b), drop 8 b)),
     encode_log_id = (\<lambda>l. to_be_bytes (log_index l) @ to_be_bytes (log_term l)),
     decode_log_id = (\<lambda>b. if length b \<noteq> 16 then Inl ''bad log id''
       else Inr \<lparr>log_index = from_be_bytes (take 8 b), log_term = from_be_bytes (drop 8 b)\<rparr>),
     serialize_hs = (\<lambda>(i, j). Inr (to_be_bytes i @ to_be_bytes j)),
     deserialize_hs = (\<lambda>b. if length b \<noteq> 16 then Inl ''bad hard state''
       else Inr (from_be_bytes (take 8 b), from_be_bytes (drop 8 b)))\<rparr>"

interpretation demo_wal: wal_store_live mem_api mem_view demo_codec
  by unfold_locales (auto simp: demo_codec_def)

lemma demo_log_opened: "\<exists>w. wal_new mem_api (Inr ()) None = Inr w \<and> wal_reachable mem_api demo_codec w"
  using demo_wal.wal_new_live [of None] wal_reachable.fresh by blast

definition demo_log_wal :: "mem wal" where
  "demo_log_wal =
    \<lparr>wal_env =
       \<lparr>mem_dbs = {DB_LOG, WAL_DB_META},
        mem_kv = (\<lambda>_. [])(DB_LOG := map (\<lambda>en. (to_be_bytes (fst en), to_be_bytes (fst en) @ snd en))
          [(1, [10]), (2, [20]), (300, [30])])\<rparr>,
     wal_last_index = 300\<rparr>"

lemma demo_log_raw: "raw_log mem_view demo_log_wal =
  [to_be_bytes 1 \<mapsto> to_be_bytes 1 @ [10], to_be_bytes 2 \<mapsto> to_be_bytes 2 @ [20],
   to_be_bytes 300 \<mapsto> to_be_bytes 300 @ [30]]"
  by (auto simp: raw_log_def demo_log_wal_def mem_view_def fun_eq_iff)

lemma demo_log_wf: "wal_wf mem_view demo_codec demo_log_wal"
proof -
  have "log_wf demo_codec (raw_log mem_view demo_log_wal)"
    unfolding demo_log_raw by (auto simp: log_wf_def demo_codec_def split: if_splits)
  then show ?thesis
    unfolding wal_wf_def demo_log_raw by (auto simp: demo_log_wal_def split: if_splits)
qed

lemma demo_log_of: "log_of mem_view demo_codec demo_log_wal =
  [1 \<mapsto> (1, [10]), 2 \<mapsto> (2, [20]), 300 \<mapsto> (300, [30])]"
  by (auto simp: log_of_def log_map_def demo_log_raw demo_codec_def fun_eq_iff)


section \<open>Properties\<close>

lemma wal_store_of_live: "wal_store_live L V C \<Longrightarrow> wal_store L V C"
  unfolding wal_store_live_def wal_store_def using lmdb_live.axioms(1) by blast

text \<open>C24. In every state the write-ahead log can reach, with any storage failure on the way and
  across restarts, each key is an eight-byte index that holds the encoding of the entry with that
  index, and no stored index is above the cached \<open>last_index\<close>.\<close>

theorem wal_invariant:
  assumes "wal_store L V C" and "wal_reachable L C w"
  shows "wal_wf V C w"
  using assms by (rule wal_store.reachable_wal_wf)

theorem wal_invariant_witness: "\<exists>w. wal_reachable mem_api demo_codec w \<and> wal_wf mem_view demo_codec w"
  using demo_log_opened wal_invariant [OF demo_wal.wal_store_axioms] by blast

text \<open>C19. Persisting entries writes each of them at its own index over what the log held (later
  entries of the batch win), raises \<open>last_index\<close> to the largest index written and never lowers it,
  keeps the hard state and the purge boundary, and every index read afterwards gives the new log.\<close>

theorem persist_entries_exact:
  assumes "wal_store_live L V C" and "wal_wf V C w"
  shows "\<exists>w'. persist_entries L C ens w = (Inr (), w') \<and> wal_wf V C w' \<and>
    (\<forall>i. wal_entry L C w' i = Inr (log_put C ens (log_of V C w) i)) \<and>
    wal_last_index w' = fold max (map (entry_idx C) ens) (wal_last_index w) \<and>
    load_hard_state L C w' = load_hard_state L C w \<and>
    load_purge_boundary L C w' = load_purge_boundary L C w"
proof -
  have store: "wal_store L V C" using assms(1) by (rule wal_store_of_live)
  obtain w' where w': "persist_entries L C ens w = (Inr (), w')"
    using wal_store_live.persist_entries_live [OF assms(1)] by blast
  have log: "log_wf C (raw_log V w)" using assms(2) by (simp add: wal_wf_def)
  note facts = wal_store.persist_refines_wal [OF store w' log]
  have "wal_last_index w' = fold max (map (entry_idx C) ens) (wal_last_index w)"
    by (simp add: facts(3) max_idx_def fold_map comp_def fold_max_commute)
  moreover have "\<forall>i. wal_entry L C w' i = Inr (log_put C ens (log_of V C w) i)"
    using wal_store_live.entry_live [OF assms(1) facts(1)] facts(2) by simp
  moreover have "wal_wf V C w'" by (rule wal_store.persist_wf [OF store assms(2) w'])
  ultimately show ?thesis
    using w' facts(4) wal_store_live.load_hard_state_live [OF assms(1)]
      wal_store_live.load_purge_boundary_live [OF assms(1)] by simp
qed

theorem persist_entries_exact_witness:
  "\<exists>w'. persist_entries mem_api demo_codec [(3, [33]), (2, [22]), (3, [34])] demo_log_wal = (Inr (), w') \<and>
    wal_entry mem_api demo_codec w' 2 = Inr (Some (2, [22])) \<and>
    wal_entry mem_api demo_codec w' 3 = Inr (Some (3, [34])) \<and> wal_last_index w' = 300"
proof -
  obtain w' where w': "persist_entries mem_api demo_codec [(3, [33]), (2, [22]), (3, [34])] demo_log_wal
      = (Inr (), w')"
    and rd: "\<forall>i. wal_entry mem_api demo_codec w' i =
      Inr (log_put demo_codec [(3, [33]), (2, [22]), (3, [34])] (log_of mem_view demo_codec demo_log_wal) i)"
    and li: "wal_last_index w' =
      fold max (map (entry_idx demo_codec) [(3, [33]), (2, [22]), (3, [34])]) (wal_last_index demo_log_wal)"
    using persist_entries_exact [OF demo_wal.wal_store_live_axioms demo_log_wf] by blast
  have "wal_last_index w' = 300"
    unfolding li by (simp add: demo_codec_def demo_log_wal_def)
  then show ?thesis using w' rd by (simp add: demo_codec_def)
qed

text \<open>C20. Reading a range of the log returns exactly the stored entries whose index lies in the
  range, each once and in increasing order of index, whatever the indices (the byte order of the
  keys is the order of the indices); an empty or inverted range gives no entries.\<close>

theorem get_entries_exact:
  assumes "wal_store_live L V C" and "wal_wf V C w"
  shows "get_entries L C w start stop = Inr (map (\<lambda>i. the (log_of V C w i))
    (sorted_list_of_set {i \<in> dom (log_of V C w). start \<le> i \<and> i \<le> stop}))"
  using assms wal_store_live.get_entries_live by (auto simp: wal_wf_def)

theorem get_entries_exact_witness:
  "get_entries mem_api demo_codec demo_log_wal 2 300 = Inr [(2, [20]), (300, [30])]"
proof -
  have "\<not> 2 \<le> (1 :: u64)" by (simp add: word_le_nat_alt)
  then have "{i \<in> dom (log_of mem_view demo_codec demo_log_wal). 2 \<le> i \<and> i \<le> 300} = {2, 300 :: u64}"
    by (auto simp: demo_log_of)
  then show ?thesis
    using get_entries_exact [OF demo_wal.wal_store_live_axioms demo_log_wf, of 2 300]
    by (simp add: demo_log_of)
qed

text \<open>C21. Truncating from an index removes exactly the entries at and above it, recomputes
  \<open>last_index\<close> as the largest index left (zero for an empty log), and keeps the hard state and
  the purge boundary.\<close>

theorem truncate_exact:
  assumes "wal_store_live L V C" and "wal_wf V C w"
  shows "\<exists>w'. truncate L i w = (Inr (), w') \<and> wal_wf V C w' \<and>
    (\<forall>j. wal_entry L C w' j = Inr (if j < i then log_of V C w j else None)) \<and>
    wal_last_index w' = tail_of (\<lambda>j. if j < i then log_of V C w j else None) \<and>
    load_hard_state L C w' = load_hard_state L C w \<and>
    load_purge_boundary L C w' = load_purge_boundary L C w"
proof -
  have store: "wal_store L V C" using assms(1) by (rule wal_store_of_live)
  obtain w' where w': "truncate L i w = (Inr (), w')"
    using wal_store_live.truncate_live [OF assms(1)] by blast
  have log: "log_wf C (raw_log V w)" using assms(2) by (simp add: wal_wf_def)
  note facts = wal_store.truncate_refines [OF store w' log]
  have "\<forall>j. wal_entry L C w' j = Inr (if j < i then log_of V C w j else None)"
    using wal_store_live.entry_live [OF assms(1) facts(1)] by (simp add: facts(2))
  moreover have "wal_last_index w' = tail_of (\<lambda>j. if j < i then log_of V C w j else None)"
    using facts(3) unfolding facts(2) .
  moreover have "wal_wf V C w'" by (rule wal_store.truncate_wf [OF store assms(2) w'])
  ultimately show ?thesis
    using w' facts(4) wal_store_live.load_hard_state_live [OF assms(1)]
      wal_store_live.load_purge_boundary_live [OF assms(1)] by simp
qed

theorem truncate_exact_witness:
  "\<exists>w'. truncate mem_api 3 demo_log_wal = (Inr (), w') \<and> wal_last_index w' = 2 \<and>
    wal_entry mem_api demo_codec w' 2 = Inr (Some (2, [20])) \<and>
    wal_entry mem_api demo_codec w' 300 = Inr None"
proof -
  have cut: "(\<lambda>j. if j < 3 then log_of mem_view demo_codec demo_log_wal j else None) =
      [1 \<mapsto> (1, [10]), 2 \<mapsto> (2, [20])]"
    by (auto simp: demo_log_of fun_eq_iff)
  have "Max {1, 2 :: u64} = 2" by (rule Max_eqI) auto
  then have "tail_of [1 \<mapsto> (1 :: u64, [10 :: u8]), 2 \<mapsto> (2, [20])] = (2 :: u64)"
    by (simp add: tail_of_def insert_commute)
  then show ?thesis
    using truncate_exact [OF demo_wal.wal_store_live_axioms demo_log_wf, of 3]
    unfolding cut by (auto simp: demo_log_of)
qed

text \<open>C22. Purging up to a cutoff removes exactly the entries at or below it, except that a cutoff
  at the largest 64-bit index leaves the entry with that index in place (the exclusive end of the
  range saturates); it records the cutoff as the purge boundary in the same transaction, and keeps
  the hard state and \<open>last_index\<close>.\<close>

theorem purge_exact:
  assumes "wal_store_live L V C" and "wal_wf V C w"
  shows "\<exists>w'. purge L C cutoff w = (Inr (), w') \<and> wal_wf V C w' \<and>
    (\<forall>j. wal_entry L C w' j =
      Inr (if j \<le> log_index cutoff \<and> j \<noteq> (- 1) then None else log_of V C w j)) \<and>
    load_purge_boundary L C w' = Inr (Some cutoff) \<and>
    load_hard_state L C w' = load_hard_state L C w \<and> wal_last_index w' = wal_last_index w"
proof -
  have store: "wal_store L V C" using assms(1) by (rule wal_store_of_live)
  have codec: "entry_codec C" using store by (rule wal_store.axioms(2))
  obtain w' where w': "purge L C cutoff w = (Inr (), w')"
    using wal_store_live.purge_live [OF assms(1)] by blast
  have log: "log_wf C (raw_log V w)" using assms(2) by (simp add: wal_wf_def)
  note facts = wal_store.purge_refines [OF store w' log]
  have "\<forall>j. wal_entry L C w' j =
      Inr (if j \<le> log_index cutoff \<and> j \<noteq> (- 1) then None else log_of V C w j)"
    using wal_store_live.entry_live [OF assms(1) facts(1)]
    unfolding facts(2) less_saturating_succ by simp
  moreover have "load_purge_boundary L C w' = Inr (Some cutoff)"
    using wal_store_live.load_purge_boundary_live [OF assms(1)]
    by (simp add: facts(4) entry_codec.log_id_roundtrip [OF codec])
  moreover have "wal_wf V C w'" by (rule wal_store.purge_wf [OF store assms(2) w'])
  ultimately show ?thesis
    using w' facts(3,4) wal_store_live.load_hard_state_live [OF assms(1)] by simp
qed

theorem purge_exact_witness:
  "\<exists>w'. purge mem_api demo_codec \<lparr>log_index = 2, log_term = 7\<rparr> demo_log_wal = (Inr (), w') \<and>
    wal_entry mem_api demo_codec w' 2 = Inr None \<and>
    wal_entry mem_api demo_codec w' 300 = Inr (Some (300, [30])) \<and>
    load_purge_boundary mem_api demo_codec w' = Inr (Some \<lparr>log_index = 2, log_term = 7\<rparr>)"
  using purge_exact [OF demo_wal.wal_store_live_axioms demo_log_wf, of "\<lparr>log_index = 2, log_term = 7\<rparr>"]
  by (auto simp: demo_log_of)

text \<open>A saved hard state is what is loaded back, immediately and after a restart, and saving it
  touches neither the log nor the purge boundary.\<close>

theorem hard_state_durable:
  assumes "wal_store_live L V C" and "wal_wf V C w"
  shows "\<exists>w' w''. save_hard_state L C h w = (Inr (), w') \<and>
    wal_new L (Inr ()) (Some (wal_env w')) = Inr w'' \<and>
    load_hard_state L C w' = Inr (Some h) \<and> load_hard_state L C w'' = Inr (Some h) \<and>
    log_of V C w'' = log_of V C w \<and>
    load_purge_boundary L C w'' = load_purge_boundary L C w"
proof -
  have store: "wal_store L V C" using assms(1) by (rule wal_store_of_live)
  have codec: "entry_codec C" using store by (rule wal_store.axioms(2))
  obtain w' where w': "save_hard_state L C h w = (Inr (), w')"
    using wal_store_live.save_hard_state_live [OF assms(1)] by blast
  obtain w'' where w'': "wal_new L (Inr ()) (Some (wal_env w')) = Inr w''"
    using wal_store_live.wal_new_live [OF assms(1)] by blast
  note facts = wal_store.save_refines [OF store w']
  obtain b where b: "serialize_hs C h = Inr b" "meta_of V w' = (meta_of V w)(KEY_HARD_STATE \<mapsto> b)"
    using facts(3) by blast
  have "log_wf C (env_view V (wal_env w') DB_LOG)"
    using assms(2) facts(1) by (simp add: wal_wf_def raw_log_def)
  then have view: "env_view V (wal_env w'') = env_view V (wal_env w')"
    using wal_store.wal_new_refines(1) [OF store w''] by simp
  show ?thesis
    using w' w'' b facts(1) view entry_codec.hs_roundtrip [OF codec b(1)]
      wal_store_live.load_hard_state_live [OF assms(1)]
      wal_store_live.load_purge_boundary_live [OF assms(1)]
    by (auto simp: log_of_def raw_log_def meta_of_def)
qed

theorem hard_state_durable_witness:
  "\<exists>w' w''. save_hard_state mem_api demo_codec (4, 2) demo_log_wal = (Inr (), w') \<and>
    wal_new mem_api (Inr ()) (Some (wal_env w')) = Inr w'' \<and>
    load_hard_state mem_api demo_codec w'' = Inr (Some (4, 2))"
  using hard_state_durable [OF demo_wal.wal_store_live_axioms demo_log_wf, of "(4, 2)"] by blast

text \<open>C23. A restart recovers the whole log, the hard state and the purge boundary, and recomputes
  \<open>last_index\<close> as the largest stored index. When everything was purged it is therefore zero,
  whatever it was before, and only the purge boundary tells how far the log had come.\<close>

theorem wal_reopen:
  assumes "wal_store_live L V C" and "wal_wf V C w"
  shows "\<exists>w'. wal_new L (Inr ()) (Some (wal_env w)) = Inr w' \<and> wal_wf V C w' \<and>
    log_of V C w' = log_of V C w \<and> wal_last_index w' = tail_of (log_of V C w) \<and>
    (log_of V C w = Map.empty \<longrightarrow> wal_last_index w' = 0) \<and>
    load_hard_state L C w' = load_hard_state L C w \<and>
    load_purge_boundary L C w' = load_purge_boundary L C w"
proof -
  have store: "wal_store L V C" using assms(1) by (rule wal_store_of_live)
  obtain w' where w': "wal_new L (Inr ()) (Some (wal_env w)) = Inr w'"
    using wal_store_live.wal_new_live [OF assms(1)] by blast
  have log: "case Some (wal_env w) of None \<Rightarrow> True | Some e \<Rightarrow> log_wf C (env_view V e DB_LOG)"
    using assms(2) by (simp add: wal_wf_def raw_log_def)
  note facts = wal_store.wal_new_refines [OF store w' log]
  have view: "env_view V (wal_env w') = env_view V (wal_env w)" using facts(1) by simp
  then have same: "log_of V C w' = log_of V C w" "meta_of V w' = meta_of V w"
    by (simp_all add: log_of_def raw_log_def meta_of_def)
  show ?thesis
    using w' facts(3) same wal_store.wal_new_wf [OF store w' log]
      wal_store_live.load_hard_state_live [OF assms(1)]
      wal_store_live.load_purge_boundary_live [OF assms(1)]
    by (auto simp: tail_of_def)
qed

theorem wal_reopen_witness:
  "\<exists>w1 w2. purge mem_api demo_codec \<lparr>log_index = 300, log_term = 1\<rparr> demo_log_wal = (Inr (), w1) \<and>
    wal_last_index w1 = 300 \<and>
    wal_new mem_api (Inr ()) (Some (wal_env w1)) = Inr w2 \<and> wal_last_index w2 = 0 \<and>
    load_purge_boundary mem_api demo_codec w2 = Inr (Some \<lparr>log_index = 300, log_term = 1\<rparr>)"
proof -
  let ?cut = "\<lparr>log_index = 300, log_term = 1\<rparr>"
  obtain w1 where w1: "purge mem_api demo_codec ?cut demo_log_wal = (Inr (), w1)"
    using demo_wal.purge_live by blast
  have log: "log_wf demo_codec (raw_log mem_view demo_log_wal)"
    using demo_log_wf by (simp add: wal_wf_def)
  note facts = demo_wal.purge_refines [OF w1 log]
  have "log_of mem_view demo_codec w1 = Map.empty"
    unfolding facts(2) by (auto simp: demo_log_of saturating_add_u64_def fun_eq_iff)
  moreover have "load_purge_boundary mem_api demo_codec w1 = Inr (Some ?cut)"
    using demo_wal.load_purge_boundary_live by (simp add: facts(4) demo_wal.log_id_roundtrip)
  moreover have "wal_wf mem_view demo_codec w1" by (rule demo_wal.purge_wf [OF demo_log_wf w1])
  ultimately show ?thesis
    using wal_reopen [OF demo_wal.wal_store_live_axioms, of w1] w1 facts(3)
    by (auto simp: demo_log_wal_def)
qed

end
