(* ===== verification/Lock.thy ===== *)
theory Lock
  imports Config
begin

text \<open>
  \<open>lock.rs\<close>: the exclusive lock on a node's data directory. The operating system's advisory lock
  is modelled by the set of lock files that are locked; \<open>File::try_lock\<close> refuses a file in the set,
  and closing the file (when the \<open>DataDirLock\<close> is dropped, or its process dies) takes it out
  again. A path stands for the file it resolves to.
\<close>


section \<open>Acquiring and releasing\<close>

datatype try_lock_error = WouldBlock | TryLockIo io_error

text \<open>\<open>fault\<close> is an error of the locking call itself, other than finding the file locked.\<close>

definition try_lock :: "io_error option \<Rightarrow> path \<Rightarrow> path set \<Rightarrow> (try_lock_error + unit) \<times> path set" where
  "try_lock fault file held =
    (case fault of
       Some m \<Rightarrow> (Inl (TryLockIo m), held)
     | None \<Rightarrow> if file \<in> held then (Inl WouldBlock, held) else (Inr (), insert file held))"

definition lock_path :: "path \<Rightarrow> path" where
  "lock_path dir = dir @ [''.d-lmdb.lock'']"

fun display_path :: "path \<Rightarrow> string" where
  "display_path [] = []"
| "display_path [p] = p"
| "display_path (p # ps) = p @ ''/'' @ display_path ps"

fun lock_error :: "path \<Rightarrow> try_lock_error \<Rightarrow> error" where
  "lock_error dir WouldBlock =
     Path (''data_dir '' @ display_path dir @ '' is already in use by another process'')"
| "lock_error dir (TryLockIo m) = Io m"

text \<open>\<open>mkdir\<close> and \<open>opened\<close> are the outcomes of \<open>create_dir_all\<close> and of opening the lock file.\<close>

definition acquire ::
  "io_error + unit \<Rightarrow> io_error + unit \<Rightarrow> io_error option \<Rightarrow> path \<Rightarrow> path set \<Rightarrow> (error + path) \<times> path set"
where
  "acquire mkdir opened fault dir held =
    (case and_then (map_err Io mkdir) (\<lambda>_. map_err Io opened) of
       Inl e \<Rightarrow> (Inl e, held)
     | Inr _ \<Rightarrow>
         (case try_lock fault (lock_path dir) held of
            (Inl e, held') \<Rightarrow> (Inl (lock_error dir e), held')
          | (Inr _, held') \<Rightarrow> (Inr (lock_path dir), held')))"

definition release :: "path \<Rightarrow> path set \<Rightarrow> path set" where
  "release file held = held - {file}"


section \<open>Processes competing for directories\<close>

text \<open>The locks held and which process holds which of them.\<close>

record lock_state =
  locked :: "path set"
  owners :: "(nat \<times> path) list"

inductive lock_step :: "lock_state \<Rightarrow> lock_state \<Rightarrow> bool" where
  acquired: "acquire mkdir opened fault dir (locked s) = (Inr f, held) \<Longrightarrow>
    lock_step s \<lparr>locked = held, owners = (p, f) # owners s\<rparr>"
| refused: "acquire mkdir opened fault dir (locked s) = (Inl e, held) \<Longrightarrow>
    lock_step s (s\<lparr>locked := held\<rparr>)"
| dropped: "(p, f) \<in> set (owners s) \<Longrightarrow>
    lock_step s \<lparr>locked = release f (locked s), owners = remove1 (p, f) (owners s)\<rparr>"

inductive lock_reachable :: "lock_state \<Rightarrow> bool" where
  initial: "lock_reachable \<lparr>locked = {}, owners = []\<rparr>"
| later: "lock_reachable s \<Longrightarrow> lock_step s s' \<Longrightarrow> lock_reachable s'"

inductive_cases lock_stepE [consumes 1, case_names acquired refused dropped]: "lock_step s s'"

definition lock_inv :: "lock_state \<Rightarrow> bool" where
  "lock_inv s \<longleftrightarrow> distinct (map snd (owners s)) \<and> locked s = snd ` set (owners s)"

lemma acquire_Inr:
  "acquire mkdir opened fault dir held = (Inr f, held') \<Longrightarrow>
   f = lock_path dir \<and> f \<notin> held \<and> held' = insert f held"
  by (auto simp: acquire_def try_lock_def split: sum.splits option.splits if_splits)

lemma acquire_Inl: "acquire mkdir opened fault dir held = (Inl e, held') \<Longrightarrow> held' = held"
  by (auto simp: acquire_def try_lock_def split: sum.splits option.splits if_splits)

lemma distinct_snd_remove1:
  "distinct (map snd xs) \<Longrightarrow> (p, f) \<in> set xs \<Longrightarrow>
   distinct (map snd (remove1 (p, f) xs)) \<and> snd ` set (remove1 (p, f) xs) = snd ` set xs - {f}"
proof (induction xs)
  case (Cons x xs)
  show ?case
  proof (cases "x = (p, f)")
    case True
    then show ?thesis using Cons.prems by auto
  next
    case False
    then have "(p, f) \<in> set xs" using Cons.prems by auto
    then have "f \<in> snd ` set xs" by force
    then have "snd x \<noteq> f" "snd x \<notin> snd ` set xs" using Cons.prems by auto
    moreover have "distinct (map snd (remove1 (p, f) xs))" "snd ` set (remove1 (p, f) xs) = snd ` set xs - {f}"
      using Cons.IH Cons.prems \<open>(p, f) \<in> set xs\<close> by simp_all
    ultimately show ?thesis using False by auto
  qed
qed simp

lemma lock_step_inv: "lock_step s s' \<Longrightarrow> lock_inv s \<Longrightarrow> lock_inv s'"
proof (induction rule: lock_step.induct)
  case (acquired mkdir opened fault dir s f held p)
  then show ?case using acquire_Inr by (auto simp: lock_inv_def)
next
  case (refused mkdir opened fault dir s e held)
  then show ?case using acquire_Inl by (auto simp: lock_inv_def)
next
  case (dropped p f s)
  then show ?case using distinct_snd_remove1 [of "owners s" p f] by (simp add: lock_inv_def release_def)
qed

lemma reachable_lock_inv: "lock_reachable s \<Longrightarrow> lock_inv s"
  by (induction rule: lock_reachable.induct) (simp add: lock_inv_def, rule lock_step_inv)


section \<open>Properties\<close>

text \<open>At most one process holds the lock of a data directory at any time, whatever the
  interleaving of acquisitions, failures and drops; while it is held every further acquisition
  is refused, and the refusal does not disturb the holder.\<close>

theorem data_dir_mutual_exclusion:
  assumes "lock_reachable s" and "(p, f) \<in> set (owners s)" and "f = lock_path dir"
  shows "(\<forall>q. (q, f) \<in> set (owners s) \<longrightarrow> q = p) \<and>
    (\<exists>e. acquire mkdir opened fault dir (locked s) = (Inl e, locked s))"
proof -
  have inv: "lock_inv s" by (rule reachable_lock_inv) (rule assms(1))
  have "\<forall>q. (q, f) \<in> set (owners s) \<longrightarrow> q = p"
    using inv assms(2) inj_onD [of snd "set (owners s)" "(_, f)" "(p, f)"]
    by (auto simp: lock_inv_def distinct_map)
  moreover have "f \<in> locked s" using inv assms(2) by (force simp: lock_inv_def)
  ultimately show ?thesis
    using assms(3) by (auto simp: acquire_def try_lock_def split: sum.split option.split)
qed

theorem data_dir_mutual_exclusion_witness:
  "\<exists>s. lock_reachable s \<and> (1, lock_path [''data'']) \<in> set (owners s) \<and>
    (\<exists>e. acquire (Inr ()) (Inr ()) None [''data''] (locked s) = (Inl e, locked s))"
proof -
  let ?s = "\<lparr>locked = {lock_path [''data'']}, owners = [(1 :: nat, lock_path [''data''])]\<rparr>"
  have "acquire (Inr ()) (Inr ()) None [''data''] {} =
      (Inr (lock_path [''data'']), {lock_path [''data'']})"
    by (simp add: acquire_def try_lock_def)
  then have "lock_reachable ?s"
    using lock_reachable.later [OF lock_reachable.initial, of ?s]
      lock_step.acquired [of "Inr ()" "Inr ()" None "[''data'']" "\<lparr>locked = {}, owners = []\<rparr>" _ _ 1]
    by simp
  then show ?thesis
    using data_dir_mutual_exclusion [of ?s 1 "lock_path [''data'']" "[''data'']" "Inr ()" "Inr ()" None]
    by auto
qed

end
