(* ===== verification/Dlmdb.thy ===== *)
theory Dlmdb
  imports Wire Wal_Log Lock
begin

text \<open>
  The public API of the crate (\<open>db.rs\<close>, with \<open>time.rs\<close>): reads that go straight to the local store
  and apply the TTL envelope, writes that go through the Raft engine, and the two ways to open a
  node. The engine is third-party code: \<open>client_api\<close> is the record of its client calls, which act
  on the engine's own state and on the state machine it shares with the node.
\<close>


section \<open>Time and stored values\<close>

text \<open>The system clock in whole seconds since the Unix epoch; reading it before the epoch panics.\<close>

definition unix_now_secs :: "int \<Rightarrow> u64 exec" where
  "unix_now_secs clock = (if clock < 0 then Panic else Return (word_of_int clock))"

datatype decoded_value = Present bytes | Expired

definition corrupt_value :: error where
  "corrupt_value = Storage ''corrupt value: invalid tag byte''"

definition decode_live_value :: "bytes \<Rightarrow> u64 \<Rightarrow> error + decoded_value" where
  "decode_live_value raw now_secs =
    (case decode raw of
       Inr (Raw p) \<Rightarrow> Inr (Present p)
     | Inr (Ttl ts p) \<Rightarrow> if ts \<le> now_secs then Inr Expired else Inr (Present p)
     | Inl _ \<Rightarrow> Inl corrupt_value)"

text \<open>
  The scan filter reads the clock once per TTL value; here every reading of one scan is
  \<open>now_secs\<close>, and \<open>Scan_Clock\<close> lets them differ.
\<close>

definition decode_for_scan :: "u64 \<Rightarrow> bytes \<Rightarrow> bytes option" where
  "decode_for_scan now_secs raw =
    (case decode raw of
       Inr (Raw p) \<Rightarrow> Some p
     | Inr (Ttl ts p) \<Rightarrow> if now_secs < ts then Some p else None
     | Inl _ \<Rightarrow> None)"

definition validate_key :: "bytes \<Rightarrow> nat \<Rightarrow> error + unit" where
  "validate_key key limit = (if limit < length key then Inl (KeyTooLarge (length key)) else Inr ())"

definition validate_value :: "bytes \<Rightarrow> nat \<Rightarrow> error + unit" where
  "validate_value v limit = (if limit < length v then Inl (ValueTooLarge (length v)) else Inr ())"


section \<open>The node\<close>

record ('g, 'e) node =
  inner :: 'g
  node_sm :: "'e state_machine"
  data_dir_lock :: path
  node_max_key :: nat
  node_max_value :: nat

text \<open>The calls of the engine's client, on the engine's state and the shared state machine.\<close>

type_synonym ('g, 'e, 'r) client_op = "'g \<times> 'e state_machine \<Rightarrow> (client_api_error + 'r) \<times> 'g \<times> 'e state_machine"

record ('g, 'e) client_api =
  c_put :: "bytes \<Rightarrow> bytes \<Rightarrow> ('g, 'e, unit) client_op"
  c_delete :: "bytes \<Rightarrow> ('g, 'e, unit) client_op"
  c_batch :: "batch_op list \<Rightarrow> ('g, 'e, unit) client_op"
  c_cas :: "bytes \<Rightarrow> bytes option \<Rightarrow> bytes \<Rightarrow> ('g, 'e, bool) client_op"
  c_get_linearizable :: "bytes \<Rightarrow> ('g, 'e, bytes option) client_op"
  c_get_lease :: "bytes \<Rightarrow> ('g, 'e, bytes option) client_op"

definition via_client ::
  "('g, 'e, 'r) client_op \<Rightarrow> ('g, 'e) node \<Rightarrow> (error + 'r) \<times> ('g, 'e) node" where
  "via_client call n =
    (case call (inner n, node_sm n) of
       (r, g, s) \<Rightarrow> (map_err Client r, n\<lparr>inner := g, node_sm := s\<rparr>))"


section \<open>Reads\<close>

definition decode_and_reap ::
  "('e, 't) lmdb_api \<Rightarrow> int \<Rightarrow> bytes \<Rightarrow> bytes option \<Rightarrow> ('g, 'e) node \<Rightarrow>
   ((error + bytes option) \<times> ('g, 'e) node) exec" where
  "decode_and_reap L clock key raw n =
    (case raw of
       None \<Rightarrow> Return (Inr None, n)
     | Some b \<Rightarrow>
         exec_bind (unix_now_secs clock) (\<lambda>now_secs.
         (case decode_live_value b now_secs of
            Inl e \<Rightarrow> Return (Inl e, n)
          | Inr (Present p) \<Rightarrow> Return (Inr (Some p), n)
          | Inr Expired \<Rightarrow>
              (case delete_local L key (node_sm n) of
                 (Inl e, s) \<Rightarrow> Return (Inl (EngineErr e), n\<lparr>node_sm := s\<rparr>)
               | (Inr _, s) \<Rightarrow> Return (Inr None, n\<lparr>node_sm := s\<rparr>)))))"

definition fetch_local ::
  "('e, 't) lmdb_api \<Rightarrow> int \<Rightarrow> bytes \<Rightarrow> ('g, 'e) node \<Rightarrow> ((error + bytes option) \<times> ('g, 'e) node) exec"
where
  "fetch_local L clock key n =
    (case sm_get L (node_sm n) key of
       Inl e \<Rightarrow> Return (Inl (EngineErr e), n)
     | Inr raw \<Rightarrow> decode_and_reap L clock key raw n)"

definition node_get ::
  "('e, 't) lmdb_api \<Rightarrow> int \<Rightarrow> bytes \<Rightarrow> ('g, 'e) node \<Rightarrow> ((error + bytes option) \<times> ('g, 'e) node) exec"
where
  "node_get L clock key n = fetch_local L clock key n"

definition node_exists ::
  "('e, 't) lmdb_api \<Rightarrow> int \<Rightarrow> bytes \<Rightarrow> ('g, 'e) node \<Rightarrow> ((error + bool) \<times> ('g, 'e) node) exec" where
  "node_exists L clock key n =
    exec_bind (fetch_local L clock key n) (\<lambda>(r, n'). Return (map_ok (\<lambda>v. v \<noteq> None) r, n'))"

text \<open>\<open>get_multi\<close> stops at the first error; each read sees the clock of its own moment.\<close>

fun node_get_multi ::
  "('e, 't) lmdb_api \<Rightarrow> (int \<times> bytes) list \<Rightarrow> ('g, 'e) node \<Rightarrow>
   ((error + bytes option list) \<times> ('g, 'e) node) exec" where
  "node_get_multi L [] n = Return (Inr [], n)"
| "node_get_multi L ((clock, key) # keys) n =
    exec_bind (fetch_local L clock key n) (\<lambda>(r, n').
    (case r of
       Inl e \<Rightarrow> Return (Inl e, n')
     | Inr v \<Rightarrow>
         exec_bind (node_get_multi L keys n') (\<lambda>(rs, n''). Return (map_ok ((#) v) rs, n''))))"

definition node_len :: "('e, 't) lmdb_api \<Rightarrow> ('g, 'e) node \<Rightarrow> nat" where
  "node_len L n = sm_len L (node_sm n)"

definition node_is_empty :: "('e, 't) lmdb_api \<Rightarrow> ('g, 'e) node \<Rightarrow> bool" where
  "node_is_empty L n \<longleftrightarrow> node_len L n = 0"

definition node_scan_all ::
  "('e, 't) lmdb_api \<Rightarrow> u64 \<Rightarrow> nat option \<Rightarrow> ('g, 'e) node \<Rightarrow> error + scan_result" where
  "node_scan_all L now_secs limit n =
    map_err EngineErr (scan_all L (node_sm n) limit (Some (decode_for_scan now_secs)))"

definition node_scan_prefix ::
  "('e, 't) lmdb_api \<Rightarrow> u64 \<Rightarrow> bytes \<Rightarrow> bytes option \<Rightarrow> nat option \<Rightarrow> ('g, 'e) node \<Rightarrow> error + scan_result"
where
  "node_scan_prefix L now_secs pfx after limit n =
    map_err EngineErr
      (scan_prefix_bounded L (node_sm n) pfx after limit (Some (decode_for_scan now_secs)))"

definition node_scan_range ::
  "('e, 't) lmdb_api \<Rightarrow> u64 \<Rightarrow> bytes \<Rightarrow> bytes \<Rightarrow> nat option \<Rightarrow> ('g, 'e) node \<Rightarrow> error + scan_result"
where
  "node_scan_range L now_secs start hi limit n =
    map_err EngineErr
      (scan_range L (node_sm n) start (Some hi) limit (Some (decode_for_scan now_secs)))"

definition node_scan_range_rev ::
  "('e, 't) lmdb_api \<Rightarrow> u64 \<Rightarrow> bytes \<Rightarrow> bytes \<Rightarrow> nat option \<Rightarrow> ('g, 'e) node \<Rightarrow> error + scan_result"
where
  "node_scan_range_rev L now_secs start hi limit n =
    map_err EngineErr
      (scan_range_rev L (node_sm n) start hi limit (Some (decode_for_scan now_secs)))"

definition node_get_linearizable ::
  "('e, 't) lmdb_api \<Rightarrow> ('g, 'e) client_api \<Rightarrow> int \<Rightarrow> bytes \<Rightarrow> ('g, 'e) node \<Rightarrow>
   ((error + bytes option) \<times> ('g, 'e) node) exec" where
  "node_get_linearizable L A clock key n =
    (case via_client (c_get_linearizable A key) n of
       (Inl e, n') \<Rightarrow> Return (Inl e, n')
     | (Inr raw, n') \<Rightarrow> decode_and_reap L clock key raw n')"

definition node_get_lease ::
  "('e, 't) lmdb_api \<Rightarrow> ('g, 'e) client_api \<Rightarrow> int \<Rightarrow> bytes \<Rightarrow> ('g, 'e) node \<Rightarrow>
   ((error + bytes option) \<times> ('g, 'e) node) exec" where
  "node_get_lease L A clock key n =
    (case via_client (c_get_lease A key) n of
       (Inl e, n') \<Rightarrow> Return (Inl e, n')
     | (Inr raw, n') \<Rightarrow> decode_and_reap L clock key raw n')"


section \<open>Writes\<close>

definition check_sizes :: "bytes \<Rightarrow> bytes \<Rightarrow> ('g, 'e) node \<Rightarrow> error + unit" where
  "check_sizes key v n =
    and_then (validate_key key (node_max_key n)) (\<lambda>_. validate_value v (node_max_value n))"

definition node_put ::
  "('g, 'e) client_api \<Rightarrow> bytes \<Rightarrow> bytes \<Rightarrow> ('g, 'e) node \<Rightarrow> (error + unit) \<times> ('g, 'e) node" where
  "node_put A key v n =
    (case check_sizes key v n of
       Inl e \<Rightarrow> (Inl e, n)
     | Inr _ \<Rightarrow> via_client (c_put A key (encode_raw v)) n)"

text \<open>\<open>checks\<close> says whether the build traps overflow in \<open>unix_now_secs() + ttl_secs\<close>.\<close>

definition node_put_with_ttl ::
  "bool \<Rightarrow> ('g, 'e) client_api \<Rightarrow> int \<Rightarrow> bytes \<Rightarrow> bytes \<Rightarrow> u64 \<Rightarrow> ('g, 'e) node \<Rightarrow>
   ((error + unit) \<times> ('g, 'e) node) exec" where
  "node_put_with_ttl checks A clock key v ttl_secs n =
    (case check_sizes key v n of
       Inl e \<Rightarrow> Return (Inl e, n)
     | Inr _ \<Rightarrow>
         exec_bind (unix_now_secs clock) (\<lambda>now_secs.
         exec_bind (add_u64 checks now_secs ttl_secs) (\<lambda>expiry.
         Return (via_client (c_put A key (encode_ttl v (Some expiry))) n))))"

fun encode_op :: "batch_op \<Rightarrow> batch_op" where
  "encode_op (BatchInsert k v) = BatchInsert k (encode_raw v)"
| "encode_op (BatchDelete k) = BatchDelete k"

definition node_batch ::
  "('g, 'e) client_api \<Rightarrow> batch_op list \<Rightarrow> ('g, 'e) node \<Rightarrow> (error + unit) \<times> ('g, 'e) node" where
  "node_batch A ops n = via_client (c_batch A (map encode_op ops)) n"

definition node_delete ::
  "('g, 'e) client_api \<Rightarrow> bytes \<Rightarrow> ('g, 'e) node \<Rightarrow> (error + unit) \<times> ('g, 'e) node" where
  "node_delete A key n = via_client (c_delete A key) n"

definition node_put_if_absent ::
  "('g, 'e) client_api \<Rightarrow> bytes \<Rightarrow> bytes \<Rightarrow> ('g, 'e) node \<Rightarrow> (error + bool) \<times> ('g, 'e) node" where
  "node_put_if_absent A key v n = via_client (c_cas A key None (encode_raw v)) n"

definition node_compare_and_swap ::
  "('g, 'e) client_api \<Rightarrow> bytes \<Rightarrow> bytes option \<Rightarrow> bytes \<Rightarrow> ('g, 'e) node \<Rightarrow>
   (error + bool) \<times> ('g, 'e) node" where
  "node_compare_and_swap A key expected new_value n =
    via_client (c_cas A key (map_option encode_raw expected) (encode_raw new_value)) n"

definition max_value_bytes_of :: "('g, 'e) node \<Rightarrow> nat" where
  "max_value_bytes_of n = node_max_value n"


section \<open>Leadership and membership\<close>

text \<open>
  What the node passes on from the engine: waiting for a leader, the current leader, and a
  snapshot of the cluster. \<open>'l\<close> is the engine's \<open>LeaderInfo\<close>; of its \<open>MembershipSnapshot\<close> the
  record has the fields the repository uses.
\<close>

record membership =
  mb_members :: "u32 list"
  mb_learners :: "u32 list"
  mb_committed_index :: u64

record ('g, 'e, 'l) engine_api =
  e_wait_ready :: "nat \<Rightarrow> 'g \<times> 'e state_machine \<Rightarrow> (engine_error + unit) \<times> 'g \<times> 'e state_machine"
  e_leader_info :: "'g \<Rightarrow> 'l option"
  e_is_leader :: "'g \<Rightarrow> bool"
  e_membership :: "'g \<Rightarrow> membership"

definition node_wait_ready ::
  "('g, 'e, 'l) engine_api \<Rightarrow> nat \<Rightarrow> ('g, 'e) node \<Rightarrow> (error + unit) \<times> ('g, 'e) node" where
  "node_wait_ready E timeout n =
    (case e_wait_ready E timeout (inner n, node_sm n) of
       (r, g, s) \<Rightarrow> (map_err EngineErr r, n\<lparr>inner := g, node_sm := s\<rparr>))"

definition node_leader :: "('g, 'e, 'l) engine_api \<Rightarrow> ('g, 'e) node \<Rightarrow> 'l option" where
  "node_leader E n = e_leader_info E (inner n)"

definition node_is_leader :: "('g, 'e, 'l) engine_api \<Rightarrow> ('g, 'e) node \<Rightarrow> bool" where
  "node_is_leader E n = e_is_leader E (inner n)"

definition node_cluster_info :: "('g, 'e, 'l) engine_api \<Rightarrow> ('g, 'e) node \<Rightarrow> membership" where
  "node_cluster_info E n = e_membership E (inner n)"


section \<open>Opening a node\<close>

text \<open>
  What the two constructors meet: the outcomes of creating the directories and of locking, the
  data files found under \<open>raft/\<close> and \<open>lmdb/\<close>, the locks held by all processes, and the engine's
  start functions. A constructor that fails after it took the lock drops it again. What a failed
  open leaves in the two directories is not modelled.
\<close>

record ('g, 'e, 'c) host =
  h_mkdir :: "path \<Rightarrow> io_error + unit"
  h_open_lock :: "path \<Rightarrow> io_error + unit"
  h_lock_fault :: "io_error option"
  h_file :: "path \<Rightarrow> 'e option"
  h_raft_config :: "engine_error + 'c"
  h_start_node :: "path \<Rightarrow> 'e wal \<Rightarrow> 'e state_machine \<Rightarrow> 'c \<Rightarrow> engine_error + 'g \<times> 'e state_machine"
  h_start_custom :: "path \<Rightarrow> 'e wal \<Rightarrow> 'e state_machine \<Rightarrow> string \<Rightarrow> engine_error + 'g \<times> 'e state_machine"

definition raft_dir :: "path \<Rightarrow> path" where
  "raft_dir d = d @ [''raft'']"

definition lmdb_dir :: "path \<Rightarrow> path" where
  "lmdb_dir d = d @ [''lmdb'']"

text \<open>The part the two constructors share, after the configuration is known.\<close>

definition open_stores ::
  "('e, 't) lmdb_api \<Rightarrow> ('g, 'e, 'c) host \<Rightarrow> path \<Rightarrow> dlmdb_config \<Rightarrow> error + 'e wal \<times> 'e state_machine"
where
  "open_stores L H d config =
    and_then (map_err EngineErr (wal_new L (h_mkdir H (raft_dir d)) (h_file H (raft_dir d)))) (\<lambda>w.
    and_then (sm_new L (h_mkdir H (lmdb_dir d)) (h_file H (lmdb_dir d)) config) (\<lambda>s.
    Inr (w, s)))"

definition finish_open ::
  "path \<Rightarrow> path set \<Rightarrow> dlmdb_config \<Rightarrow> error + 'g \<times> 'e state_machine \<Rightarrow>
   (error + ('g, 'e) node) \<times> path set" where
  "finish_open lock held config started =
    (case started of
       Inl e \<Rightarrow> (Inl e, release lock held)
     | Inr (g, s) \<Rightarrow>
         (Inr \<lparr>inner = g, node_sm = s, data_dir_lock = lock,
               node_max_key = max_key_bytes config, node_max_value = max_value_bytes config\<rparr>, held))"

definition node_open ::
  "('e, 't) lmdb_api \<Rightarrow> ('g, 'e, 'c) host \<Rightarrow> path \<Rightarrow> path set \<Rightarrow> (error + ('g, 'e) node) \<times> path set"
where
  "node_open L H data_path held =
    (let config = config_new data_path
     in case acquire (h_mkdir H data_path) (h_open_lock H data_path) (h_lock_fault H) data_path held of
          (Inl e, held') \<Rightarrow> (Inl e, held')
        | (Inr lock, held') \<Rightarrow>
            finish_open lock held' config
              (and_then (open_stores L H data_path config) (\<lambda>(w, s).
               and_then (map_err EngineErr (h_raft_config H)) (\<lambda>raft_config.
               map_err EngineErr (h_start_node H data_path w s raft_config)))))"

definition node_open_from_file ::
  "bool \<Rightarrow> (string \<Rightarrow> config_error + lmdb_table) \<Rightarrow> ('e, 't) lmdb_api \<Rightarrow> ('g, 'e, 'c) host \<Rightarrow>
   string option \<Rightarrow> path set \<Rightarrow> ((error + ('g, 'e) node) \<times> path set) exec" where
  "node_open_from_file checks load L H path_str held =
    exec_bind (config_from_file checks load path_str) (\<lambda>loaded.
    (case loaded of
       Inl e \<Rightarrow> Return (Inl e, held)
     | Inr config \<Rightarrow>
         (let d = data_dir config
          in case acquire (h_mkdir H d) (h_open_lock H d) (h_lock_fault H) d held of
               (Inl e, held') \<Rightarrow> Return (Inl e, held')
             | (Inr lock, held') \<Rightarrow>
                 Return (finish_open lock held' config
                   (and_then (open_stores L H d config) (\<lambda>(w, s).
                    map_err EngineErr (h_start_custom H d w s (the path_str))))))))"

text \<open>\<open>close\<close> consumes the node: the engine stops, then the fields are dropped, the state machine
  writing its position and the lock being released, whatever \<open>stop\<close> returned.\<close>

definition node_close ::
  "('e, 't) lmdb_api \<Rightarrow> ('g \<times> 'e state_machine \<Rightarrow> (engine_error + unit) \<times> 'e state_machine) \<Rightarrow>
   ('g, 'e) node \<Rightarrow> path set \<Rightarrow> (error + unit) \<times> 'e state_machine \<times> path set" where
  "node_close L stop n held =
    (case stop (inner n, node_sm n) of
       (r, s) \<Rightarrow> (map_err EngineErr r, sm_drop L s, release (data_dir_lock n) held))"

end
