(* ===== verification/Dlmdb_Client.thy ===== *)
theory Dlmdb_Client
  imports Dlmdb
begin

text \<open>
  What a caller of \<open>db.rs\<close> sees. \<open>logical\<close> reads a store at a point in time: envelopes stripped,
  expired values absent. The locale \<open>leader_client\<close> states what the engine's client promises on
  a node that applies its own writes before they are reported, as the leader or the only node of a cluster does,
  while no other client writes (a write reported as done has been applied as one entry; one
  reported as failed was applied or not, never half), and the lemmas inside it give the effect of
  every operation of the node. \<open>solo_api\<close>, a one-node engine built on \<open>apply_chunk\<close>, satisfies it.
  On a node that has not yet applied a write, an eventual read may be stale, which this locale does not cover: \<open>Concurrent\<close>
  states the promise of a cluster (\<open>replicated_client\<close>), with several nodes and clients at once, \<open>Cluster\<close> and \<open>Orderly\<close>
  say what a node that is behind answers, and the example programs let other nodes write between any two calls.
\<close>


section \<open>The logical store\<close>

definition live_value :: "u64 \<Rightarrow> bytes \<Rightarrow> bytes option" where
  "live_value now b =
    (case decode_live_value b now of Inr (Present p) \<Rightarrow> Some p | _ \<Rightarrow> None)"

definition logical :: "u64 \<Rightarrow> kv \<Rightarrow> kv" where
  "logical now m k = (case m k of None \<Rightarrow> None | Some b \<Rightarrow> live_value now b)"

definition expired :: "u64 \<Rightarrow> kv \<Rightarrow> bytes \<Rightarrow> bool" where
  "expired now m k \<longleftrightarrow> (case m k of None \<Rightarrow> False | Some b \<Rightarrow> decode_live_value b now = Inr Expired)"

definition reap :: "u64 \<Rightarrow> bytes \<Rightarrow> kv \<Rightarrow> kv" where
  "reap now k m = (if expired now m k then m(k := None) else m)"

text \<open>Every stored value carries a valid envelope.\<close>

definition values_wf :: "kv \<Rightarrow> bool" where
  "values_wf m \<longleftrightarrow> (\<forall>k b. m k = Some b \<longrightarrow> (\<exists>v. decode b = Inr v))"

definition node_kv :: "('e, 't) lmdb_view \<Rightarrow> ('g, 'e) node \<Rightarrow> kv" where
  "node_kv V n = kv_of V (node_sm n)"

lemma live_value_simps [simp]:
  "live_value now (encode_raw v) = Some v"
  "live_value now (encode_ttl v (Some ts)) = (if ts \<le> now then None else Some v)"
  by (simp_all add: live_value_def decode_live_value_def)

lemma scan_filter_is_live_value: "decode_for_scan now = live_value now"
  by (auto simp: fun_eq_iff decode_for_scan_def live_value_def decode_live_value_def
      split: sum.split wire_value.split)

lemma expired_iff: "expired now m k \<longleftrightarrow> (\<exists>ts p. m k = Some (encode_ttl p (Some ts)) \<and> ts \<le> now)"
  by (auto simp: expired_def decode_live_value_def decode_eq_Ttl
      split: option.split sum.splits wire_value.splits if_splits)

lemma expired_mono: "expired now m k \<Longrightarrow> now \<le> now' \<Longrightarrow> expired now' m k"
  by (force simp: expired_iff)

lemma logical_expired: "expired now m k \<Longrightarrow> logical now m k = None"
  by (auto simp: expired_iff logical_def)

lemma logical_upd [simp]:
  "logical now (m(k \<mapsto> b)) = (logical now m)(k := live_value now b)"
  "logical now (m(k := None)) = (logical now m)(k := None)"
  by (auto simp: logical_def fun_eq_iff)

lemma logical_empty [simp]: "logical now Map.empty = Map.empty"
  by (simp add: logical_def fun_eq_iff)

text \<open>Physically removing an expired value changes no read at that time or later.\<close>

lemma logical_reap:
  assumes "now \<le> now'"
  shows "logical now' (reap now k m) = logical now' m"
  using logical_expired [OF expired_mono [OF _ assms]]
  by (auto simp: reap_def fun_eq_iff)

lemma values_wf_simps [simp]:
  "values_wf Map.empty"
  "values_wf m \<Longrightarrow> values_wf (m(k := None))"
  "values_wf m \<Longrightarrow> values_wf (m(k \<mapsto> encode_raw v))"
  "values_wf m \<Longrightarrow> values_wf (m(k \<mapsto> encode_ttl v (Some ts)))"
  by (auto simp: values_wf_def)

lemma values_wf_reap [simp]: "values_wf m \<Longrightarrow> values_wf (reap now k m)"
  by (simp add: reap_def)

lemma values_wf_encode_op: "values_wf m \<Longrightarrow> values_wf (spec_op (encode_op op) m)"
  by (cases op) simp_all

lemma values_wf_encode_ops: "values_wf m \<Longrightarrow> values_wf (fold spec_op (map encode_op ops) m)"
  by (induction ops arbitrary: m) (simp_all add: values_wf_encode_op)

lemma decode_live_wf:
  "values_wf m \<Longrightarrow> m k = Some b \<Longrightarrow> \<exists>d. decode_live_value b now = Inr d"
  by (fastforce simp: values_wf_def decode_live_value_def split: wire_value.split)

lemma unix_now_ok: "0 \<le> clock \<Longrightarrow> unix_now_secs clock = Return (word_of_int clock)"
  by (simp add: unix_now_secs_def)


section \<open>Point reads\<close>

context lmdb
begin

lemma decode_and_reap_sound:
  assumes "decode_and_reap L clock k (node_kv V n k) n = Return (Inr v, n')" and "0 \<le> clock"
  shows "v = logical (word_of_int clock) (node_kv V n) k"
    and "node_kv V n' = reap (word_of_int clock) k (node_kv V n)"
    and "n' = n\<lparr>node_sm := (node_sm n)\<lparr>sm_env := sm_env (node_sm n')\<rparr>\<rparr>"
proof -
  let ?now = "word_of_int clock"
  have "v = logical ?now (node_kv V n) k \<and> node_kv V n' = reap ?now k (node_kv V n) \<and>
    n' = n\<lparr>node_sm := (node_sm n)\<lparr>sm_env := sm_env (node_sm n')\<rparr>\<rparr>"
  proof (cases "node_kv V n k")
    case None
    then show ?thesis using assms by (auto simp: decode_and_reap_def logical_def reap_def expired_def)
  next
    case (Some b)
    show ?thesis
    proof (cases "decode_live_value b ?now")
      case (Inr d)
      show ?thesis
      proof (cases d)
        case (Present p)
        then show ?thesis
          using assms Some Inr
          by (auto simp: decode_and_reap_def logical_def reap_def expired_def live_value_def unix_now_ok)
      next
        case Expired
        then obtain s where s: "delete_local L k (node_sm n) = (Inr (), s)"
          and n': "n' = n\<lparr>node_sm := s\<rparr>" and v: "v = None"
          using assms Some Inr by (auto simp: decode_and_reap_def unix_now_ok split: sum.splits prod.splits)
        have "kv_of V s = (kv_of V (node_sm n))(k := None)"
          using delete_local_refines(1) [OF s] by (simp add: kv_of_def)
        then show ?thesis
          using delete_local_refines(3) [OF s] n' v Some Inr Expired
          by (simp add: node_kv_def logical_def reap_def expired_def live_value_def)
      qed
    qed (use assms Some in \<open>simp add: decode_and_reap_def unix_now_ok\<close>)
  qed
  then show "v = logical ?now (node_kv V n) k" "node_kv V n' = reap ?now k (node_kv V n)"
    "n' = n\<lparr>node_sm := (node_sm n)\<lparr>sm_env := sm_env (node_sm n')\<rparr>\<rparr>"
    by simp_all
qed

lemma sm_get_sound: "sm_get L s k = Inr r \<Longrightarrow> r = kv_of V s k"
  by (auto simp: sm_get_def kv_of_def and_then_eq_Inr dest!: read_txn get)

lemma fetch_local_sound:
  assumes "fetch_local L clock k n = Return (Inr v, n')" and "0 \<le> clock"
  shows "v = logical (word_of_int clock) (node_kv V n) k"
    and "node_kv V n' = reap (word_of_int clock) k (node_kv V n)"
    and "n' = n\<lparr>node_sm := (node_sm n)\<lparr>sm_env := sm_env (node_sm n')\<rparr>\<rparr>"
proof -
  obtain r where r: "sm_get L (node_sm n) k = Inr r"
    using assms(1) by (auto simp: fetch_local_def split: sum.splits)
  then have "decode_and_reap L clock k (node_kv V n k) n = Return (Inr v, n')"
    using assms(1) sm_get_sound [OF r] by (simp add: fetch_local_def node_kv_def)
  note facts = decode_and_reap_sound [OF this assms(2)]
  show "v = logical (word_of_int clock) (node_kv V n) k"
    "node_kv V n' = reap (word_of_int clock) k (node_kv V n)"
    "n' = n\<lparr>node_sm := (node_sm n)\<lparr>sm_env := sm_env (node_sm n')\<rparr>\<rparr>"
    using facts by simp_all
qed

end

context lmdb_live
begin

lemma sm_get_live: "admissible_key L k \<Longrightarrow> sm_get L s k = Inr (kv_of V s k)"
proof -
  assume k: "admissible_key L k"
  obtain t where t: "read_txn L (sm_env s) = Inr t" using read_txn_ok by blast
  obtain r where "db_get L t DB_KV k = Inr r" using get_ok [OF k] by blast
  then show ?thesis using t sm_get_sound [of s k r] by (simp add: sm_get_def)
qed

lemma fetch_local_live:
  assumes "admissible_key L k" and "values_wf (node_kv V n)" and "0 \<le> clock"
  shows "\<exists>n'. fetch_local L clock k n = Return (Inr (logical (word_of_int clock) (node_kv V n) k), n')"
proof -
  obtain s where s: "delete_local L k (node_sm n) = (Inr (), s)"
    using delete_local_live [OF assms(1)] by blast
  have "\<exists>v n'. fetch_local L clock k n = Return (Inr v, n')"
  proof (cases "node_kv V n k")
    case None
    then show ?thesis
      using sm_get_live [OF assms(1)] by (simp add: fetch_local_def decode_and_reap_def node_kv_def)
  next
    case (Some b)
    then obtain d where "decode_live_value b (word_of_int clock) = Inr d"
      using decode_live_wf [OF assms(2)] by blast
    then show ?thesis
      using sm_get_live [OF assms(1), of "node_sm n"] Some s unix_now_ok [OF assms(3)]
      by (cases d) (simp_all add: fetch_local_def decode_and_reap_def node_kv_def)
  qed
  then show ?thesis using fetch_local_sound(1) [OF _ assms(3)] by blast
qed

end


section \<open>The engine's client\<close>

text \<open>
  The calls are those of one client on the node that applies the write before it is reported, with no other writer
  during the call. \<open>committed L c s s' ok\<close>: the state machine went from \<open>s\<close> to \<open>s'\<close> by applying one log entry with
  command \<open>c\<close>, and \<open>ok\<close> is whether the entry reported success (as opposed to a failed comparison).
\<close>

definition committed ::
  "('e, 't) lmdb_api \<Rightarrow> command \<Rightarrow> 'e state_machine \<Rightarrow> 'e state_machine \<Rightarrow> bool \<Rightarrow> bool" where
  "committed L c s s' ok \<longleftrightarrow>
     (\<exists>e. entry_command e = c \<and> apply_chunk L [e] s = (Inr [spec_result e ok], s'))"

text \<open>An attempt whose outcome the caller does not know: it took effect as a whole or not at all.\<close>

definition attempted ::
  "('e, 't) lmdb_view \<Rightarrow> command \<Rightarrow> 'e state_machine \<Rightarrow> 'e state_machine \<Rightarrow> bool" where
  "attempted V c s s' \<longleftrightarrow>
     kv_of V s' = kv_of V s \<or> kv_of V s' = snd (spec_command c (kv_of V s))"

locale leader_client = lmdb L V
  for L :: "('e, 't) lmdb_api" and V :: "('e, 't) lmdb_view" +
  fixes A :: "('g, 'e) client_api"
  assumes put_done: "c_put A k v (g, s) = (Inr (), g', s') \<Longrightarrow> committed L (Insert k v None) s s' True"
    and delete_done: "c_delete A k (g, s) = (Inr (), g', s') \<Longrightarrow> committed L (Delete k) s s' True"
    and batch_done: "c_batch A ops (g, s) = (Inr (), g', s') \<Longrightarrow> committed L (Batch ops) s s' True"
    and cas_done: "c_cas A k x v (g, s) = (Inr b, g', s') \<Longrightarrow> committed L (CompareAndSwap k x v) s s' b"
    and put_failed: "c_put A k v (g, s) = (Inl e, g', s') \<Longrightarrow> attempted V (Insert k v None) s s'"
    and delete_failed: "c_delete A k (g, s) = (Inl e, g', s') \<Longrightarrow> attempted V (Delete k) s s'"
    and batch_failed: "c_batch A ops (g, s) = (Inl e, g', s') \<Longrightarrow> attempted V (Batch ops) s s'"
    and cas_failed: "c_cas A k x v (g, s) = (Inl e, g', s') \<Longrightarrow> attempted V (CompareAndSwap k x v) s s'"
    and linearizable: "c_get_linearizable A k (g, s) = (r, g', s') \<Longrightarrow>
      s' = s \<and> (\<forall>v. r = Inr v \<longrightarrow> v = kv_of V s k)"
    and lease: "c_get_lease A k (g, s) = (r, g', s') \<Longrightarrow>
      s' = s \<and> (\<forall>v. r = Inr v \<longrightarrow> v = kv_of V s k)"

context lmdb
begin

lemma committed_refines:
  assumes "committed L c s s' ok"
  shows "ok = fst (spec_command c (kv_of V s))"
    and "kv_of V s' = snd (spec_command c (kv_of V s))"
proof -
  obtain e where e: "entry_command e = c" and run: "apply_chunk L [e] s = (Inr [spec_result e ok], s')"
    using assms by (auto simp: committed_def)
  have "spec_result e ok = spec_result e (fst (spec_command c (kv_of V s)))"
    using apply_chunk_refines(1) [OF run] e by (simp add: case_prod_beta)
  then show "ok = fst (spec_command c (kv_of V s))"
    by (auto simp: spec_result_def split: if_splits)
  show "kv_of V s' = snd (spec_command c (kv_of V s))"
    using apply_chunk_refines(2) [OF run] e by (simp add: kv_of_def [of V s'] case_prod_beta)
qed

lemma committed_attempted: "committed L c s s' ok \<Longrightarrow> attempted V c s s'"
  using committed_refines(2) by (simp add: attempted_def)

text \<open>An insert that was applied had a key LMDB admits.\<close>

lemma committed_insert_admissible:
  assumes "committed L (Insert k v ttl) s s' ok"
  shows "admissible_key L k"
proof (rule ccontr)
  obtain e where e: "entry_command e = Insert k v ttl"
    and run: "apply_chunk L [e] s = (Inr [spec_result e ok], s')"
    using assms by (auto simp: committed_def)
  assume "\<not> admissible_key L k"
  then show False
    using apply_chunk_refused [of e "[e]" k v ttl s] e run by auto
qed

end


section \<open>Writes\<close>

context leader_client
begin

lemma node_put_effect:
  assumes "node_put A k v n = (Inr (), n')"
  shows "node_kv V n' = (node_kv V n)(k \<mapsto> encode_raw v)" and "admissible_key L k"
    and "length k \<le> node_max_key n" and "length v \<le> node_max_value n"
proof -
  obtain g s where call: "c_put A k (encode_raw v) (inner n, node_sm n) = (Inr (), g, s)"
    and n': "n' = n\<lparr>inner := g, node_sm := s\<rparr>"
    using assms by (auto simp: node_put_def via_client_def split: sum.splits prod.splits)
  note eff = put_done [OF call]
  show "node_kv V n' = (node_kv V n)(k \<mapsto> encode_raw v)"
    using committed_refines(2) [OF eff] n' by (simp add: node_kv_def)
  show "admissible_key L k" by (rule committed_insert_admissible [OF eff])
  show "length k \<le> node_max_key n" "length v \<le> node_max_value n"
    using assms by (auto simp: node_put_def check_sizes_def validate_key_def validate_value_def
        split: if_splits)
qed

lemma node_put_with_ttl_effect:
  assumes "node_put_with_ttl checks A clock k v ttl n = Return (Inr (), n')"
  shows "0 \<le> clock" and "add_u64 checks (word_of_int clock) ttl = Return (word_of_int clock + ttl)"
    and "node_kv V n' = (node_kv V n)(k \<mapsto> encode_ttl v (Some (word_of_int clock + ttl)))"
    and "admissible_key L k"
proof -
  obtain exp where now: "0 \<le> clock" and exp: "add_u64 checks (word_of_int clock) ttl = Return exp"
    and call: "via_client (c_put A k (encode_ttl v (Some exp))) n = (Inr (), n')"
    using assms by (auto simp: node_put_with_ttl_def unix_now_secs_def exec_bind_eq_Return
        split: sum.splits if_splits)
  have sum: "exp = word_of_int clock + ttl" using exp by (auto simp: add_u64_def split: if_splits)
  obtain g s where put: "c_put A k (encode_ttl v (Some exp)) (inner n, node_sm n) = (Inr (), g, s)"
    and n': "n' = n\<lparr>inner := g, node_sm := s\<rparr>"
    using call by (auto simp: via_client_def split: prod.splits)
  show "0 \<le> clock" by (rule now)
  show "add_u64 checks (word_of_int clock) ttl = Return (word_of_int clock + ttl)"
    using exp sum by simp
  show "node_kv V n' = (node_kv V n)(k \<mapsto> encode_ttl v (Some (word_of_int clock + ttl)))"
    using committed_refines(2) [OF put_done [OF put]] n' sum by (simp add: node_kv_def)
  show "admissible_key L k" by (rule committed_insert_admissible [OF put_done [OF put]])
qed

lemma node_batch_effect:
  assumes "node_batch A ops n = (r, n')"
  shows "r = Inr () \<Longrightarrow> node_kv V n' = fold spec_op (map encode_op ops) (node_kv V n)"
    and "node_kv V n' = node_kv V n \<or> node_kv V n' = fold spec_op (map encode_op ops) (node_kv V n)"
proof -
  obtain r0 g s where call: "c_batch A (map encode_op ops) (inner n, node_sm n) = (r0, g, s)"
    and n': "n' = n\<lparr>inner := g, node_sm := s\<rparr>" and r: "r = map_err Client r0"
    using assms by (auto simp: node_batch_def via_client_def split: prod.splits)
  show eff: "node_kv V n' = fold spec_op (map encode_op ops) (node_kv V n)" if "r = Inr ()"
    using committed_refines(2) [OF batch_done] call r n' that by (auto simp: node_kv_def)
  show "node_kv V n' = node_kv V n \<or> node_kv V n' = fold spec_op (map encode_op ops) (node_kv V n)"
  proof (cases r0)
    case (Inl e)
    then show ?thesis
      using batch_failed call n' by (auto simp: attempted_def node_kv_def)
  qed (use eff r in simp)
qed

lemma node_delete_effect:
  assumes "node_delete A k n = (r, n')"
  shows "r = Inr () \<Longrightarrow> node_kv V n' = (node_kv V n)(k := None)"
    and "node_kv V n' = node_kv V n \<or> node_kv V n' = (node_kv V n)(k := None)"
proof -
  obtain r0 g s where call: "c_delete A k (inner n, node_sm n) = (r0, g, s)"
    and n': "n' = n\<lparr>inner := g, node_sm := s\<rparr>" and r: "r = map_err Client r0"
    using assms by (auto simp: node_delete_def via_client_def split: prod.splits)
  show eff: "node_kv V n' = (node_kv V n)(k := None)" if "r = Inr ()"
    using committed_refines(2) [OF delete_done] call r n' that by (auto simp: node_kv_def)
  show "node_kv V n' = node_kv V n \<or> node_kv V n' = (node_kv V n)(k := None)"
  proof (cases r0)
    case (Inl e)
    then show ?thesis
      using delete_failed call n' by (auto simp: attempted_def node_kv_def)
  qed (use eff r in simp)
qed

lemma cas_effect:
  assumes "via_client (c_cas A k x v) n = (r, n')"
  shows "r = Inr b \<Longrightarrow> (b \<longleftrightarrow> node_kv V n k = x) \<and>
      node_kv V n' = (if b then (node_kv V n)(k \<mapsto> v) else node_kv V n)"
    and "node_kv V n' = node_kv V n \<or> node_kv V n' = (node_kv V n)(k \<mapsto> v)"
proof -
  obtain r0 g s where call: "c_cas A k x v (inner n, node_sm n) = (r0, g, s)"
    and n': "n' = n\<lparr>inner := g, node_sm := s\<rparr>" and r: "r = map_err Client r0"
    using assms by (auto simp: via_client_def split: prod.splits)
  have eff: "(b \<longleftrightarrow> node_kv V n k = x) \<and>
      node_kv V n' = (if b then (node_kv V n)(k \<mapsto> v) else node_kv V n)" if "r = Inr b"
    for b
  proof -
    have "r0 = Inr b" using r that by simp
    then have "committed L (CompareAndSwap k x v) (node_sm n) s b" using call cas_done by simp
    from committed_refines [OF this] show ?thesis
      using n' by (simp add: node_kv_def split: if_splits)
  qed
  then show "r = Inr b \<Longrightarrow> (b \<longleftrightarrow> node_kv V n k = x) \<and>
      node_kv V n' = (if b then (node_kv V n)(k \<mapsto> v) else node_kv V n)"
    by blast
  show "node_kv V n' = node_kv V n \<or> node_kv V n' = (node_kv V n)(k \<mapsto> v)"
  proof (cases r0)
    case (Inl e)
    then have "attempted V (CompareAndSwap k x v) (node_sm n) s" using call cas_failed by simp
    then show ?thesis using n' by (auto simp: attempted_def node_kv_def split: if_splits)
  next
    case (Inr b)
    then show ?thesis using eff [of b] r by (auto split: if_splits)
  qed
qed

end

end
