(* ===== verification/Node.thy ===== *)
theory Node
  imports Dlmdb_Client
begin

text \<open>
  The properties of the public API: what a read returns after a write, when a TTL value stops being
  visible and is removed, that scans and point reads agree, what a batch and a compare-and-swap
  do, that no reachable node holds a value its reads would call corrupt, and how opening and
  closing treat the lock. The instances run on \<open>solo_api\<close>, a single-node engine.
\<close>


section \<open>A single-node engine\<close>

text \<open>Its own state is the last log index; every write is applied at once as one entry of term one.\<close>

definition solo_apply ::
  "('e, 't) lmdb_api \<Rightarrow> command \<Rightarrow> (u64, 'e, bool) client_op" where
  "solo_apply L c = (\<lambda>(i, s).
    (case apply_chunk L [\<lparr>entry_index = i + 1, entry_term = 1, entry_command = c\<rparr>] s of
       (Inl e, s') \<Rightarrow> (Inl (OtherClientError ''apply failed''), i + 1, s')
     | (Inr rs, s') \<Rightarrow> (Inr (rs = [ApplySuccess (i + 1)]), i + 1, s')))"

definition solo_unit ::
  "('e, 't) lmdb_api \<Rightarrow> command \<Rightarrow> (u64, 'e, unit) client_op" where
  "solo_unit L c x = (case solo_apply L c x of (r, y) \<Rightarrow> (map_ok (\<lambda>_. ()) r, y))"

definition solo_read :: "('e, 't) lmdb_api \<Rightarrow> bytes \<Rightarrow> (u64, 'e, bytes option) client_op" where
  "solo_read L k = (\<lambda>(i, s). (map_err (\<lambda>_. OtherClientError ''read failed'') (sm_get L s k), i, s))"

definition solo_api :: "('e, 't) lmdb_api \<Rightarrow> (u64, 'e) client_api" where
  "solo_api L =
    \<lparr>c_put = (\<lambda>k v. solo_unit L (Insert k v None)),
     c_delete = (\<lambda>k. solo_unit L (Delete k)),
     c_batch = (\<lambda>ops. solo_unit L (Batch ops)),
     c_cas = (\<lambda>k x v. solo_apply L (CompareAndSwap k x v)),
     c_get_linearizable = solo_read L,
     c_get_lease = solo_read L\<rparr>"

context lmdb
begin

lemma solo_done:
  assumes "solo_apply L c (i, s) = (Inr b, i', s')"
  shows "committed L c s s' b"
proof -
  let ?e = "\<lparr>entry_index = i + 1, entry_term = 1, entry_command = c\<rparr>"
  obtain rs where run: "apply_chunk L [?e] s = (Inr rs, s')" and b: "b \<longleftrightarrow> rs = [ApplySuccess (i + 1)]"
    using assms by (auto simp: solo_apply_def split: sum.splits prod.splits)
  have "rs = [spec_result ?e (fst (spec_command c (kv_of V s)))]"
    using apply_chunk_refines(1) [OF run] by (simp add: case_prod_beta)
  then have "rs = [spec_result ?e b]" using b by (auto simp: spec_result_def)
  then show ?thesis
    unfolding committed_def using run by (intro exI [of _ ?e]) simp
qed

lemma solo_failed:
  assumes "solo_apply L c (i, s) = (Inl x, i', s')"
  shows "attempted V c s s'"
proof -
  obtain e where "apply_chunk L [\<lparr>entry_index = i + 1, entry_term = 1, entry_command = c\<rparr>] s = (Inl e, s')"
    using assms by (auto simp: solo_apply_def split: sum.splits prod.splits)
  then have "kv_of V s' = kv_of V s" using apply_chunk_error_frame by (fastforce simp: kv_of_def)
  then show ?thesis by (simp add: attempted_def)
qed

lemma solo_unit_done:
  "solo_unit L c (i, s) = (Inr (), i', s') \<Longrightarrow> \<exists>b. committed L c s s' b"
  using solo_done by (fastforce simp: solo_unit_def split: prod.splits)

lemma solo_unit_failed: "solo_unit L c (i, s) = (Inl x, i', s') \<Longrightarrow> attempted V c s s'"
  using solo_failed [of c i s] by (cases "fst (solo_apply L c (i, s))") (auto simp: solo_unit_def split: prod.splits)

lemma committed_unconditional:
  assumes "committed L c s s' b" and "\<forall>m. fst (spec_command c m)"
  shows "committed L c s s' True"
  using committed_refines(1) [OF assms(1)] assms by simp

lemma solo_leader: "leader_client L V (solo_api L)"
proof unfold_locales
  fix k v g s g' s'
  show "c_put (solo_api L) k v (g, s) = (Inr (), g', s') \<Longrightarrow> committed L (Insert k v None) s s' True"
    using solo_unit_done committed_unconditional by (fastforce simp: solo_api_def)
  show "c_delete (solo_api L) k (g, s) = (Inr (), g', s') \<Longrightarrow> committed L (Delete k) s s' True"
    using solo_unit_done committed_unconditional by (fastforce simp: solo_api_def)
  show "\<And>ops. c_batch (solo_api L) ops (g, s) = (Inr (), g', s') \<Longrightarrow> committed L (Batch ops) s s' True"
    using solo_unit_done committed_unconditional by (fastforce simp: solo_api_def)
  show "\<And>x b. c_cas (solo_api L) k x v (g, s) = (Inr b, g', s') \<Longrightarrow> committed L (CompareAndSwap k x v) s s' b"
    using solo_done by (simp add: solo_api_def)
  show "\<And>e. c_put (solo_api L) k v (g, s) = (Inl e, g', s') \<Longrightarrow> attempted V (Insert k v None) s s'"
    using solo_unit_failed by (simp add: solo_api_def)
  show "\<And>e. c_delete (solo_api L) k (g, s) = (Inl e, g', s') \<Longrightarrow> attempted V (Delete k) s s'"
    using solo_unit_failed by (simp add: solo_api_def)
  show "\<And>ops e. c_batch (solo_api L) ops (g, s) = (Inl e, g', s') \<Longrightarrow> attempted V (Batch ops) s s'"
    using solo_unit_failed by (simp add: solo_api_def)
  show "\<And>x e. c_cas (solo_api L) k x v (g, s) = (Inl e, g', s') \<Longrightarrow> attempted V (CompareAndSwap k x v) s s'"
    using solo_failed by (simp add: solo_api_def)
  show "\<And>r. c_get_linearizable (solo_api L) k (g, s) = (r, g', s') \<Longrightarrow>
      s' = s \<and> (\<forall>v. r = Inr v \<longrightarrow> v = kv_of V s k)"
    using sm_get_sound by (auto simp: solo_api_def solo_read_def)
  show "\<And>r. c_get_lease (solo_api L) k (g, s) = (r, g', s') \<Longrightarrow>
      s' = s \<and> (\<forall>v. r = Inr v \<longrightarrow> v = kv_of V s k)"
    using sm_get_sound by (auto simp: solo_api_def solo_read_def)
qed

end

interpretation solo: leader_client mem_api mem_view "solo_api mem_api"
  by (rule mem.solo_leader)

text \<open>On a healthy disk the single-node engine accepts every write with an admissible key.\<close>

context lmdb_live
begin

lemma solo_apply_live:
  assumes "\<forall>k \<in> set (command_keys c). admissible_key L k"
  shows "\<exists>b s'. solo_apply L c (i, s) = (Inr b, i + 1, s')"
proof -
  let ?e = "\<lparr>entry_index = i + 1, entry_term = 1, entry_command = c\<rparr>"
  have "chunk_admissible L [?e]" using assms by (simp add: chunk_admissible_def)
  then obtain s' where "apply_chunk L [?e] s = (Inr (fst (spec_chunk [?e] (kv_of V s))), s')"
    using apply_chunk_live by blast
  then show ?thesis by (simp add: solo_apply_def)
qed

lemma solo_put_live:
  assumes "admissible_key L k" and "length k \<le> node_max_key n" and "length v \<le> node_max_value n"
  shows "\<exists>n'. node_put (solo_api L) k v n = (Inr (), n')"
  using solo_apply_live [of "Insert k (encode_raw v) None" "inner n" "node_sm n"] assms
  by (auto simp: node_put_def check_sizes_def validate_key_def validate_value_def via_client_def
      solo_api_def solo_unit_def)

lemma solo_put_with_ttl_live:
  assumes "admissible_key L k" and "length k \<le> node_max_key n" and "length v \<le> node_max_value n"
    and "0 \<le> clock" and "add_u64 checks (word_of_int clock) ttl = Return exp"
  shows "\<exists>n'. node_put_with_ttl checks (solo_api L) clock k v ttl n = Return (Inr (), n')"
  using solo_apply_live [of "Insert k (encode_ttl v (Some exp)) None" "inner n" "node_sm n"] assms
  by (auto simp: node_put_with_ttl_def check_sizes_def validate_key_def validate_value_def via_client_def
      solo_api_def solo_unit_def unix_now_ok)

lemma solo_batch_live:
  "\<forall>op \<in> set ops. admissible_key L (op_key op) \<Longrightarrow> \<exists>n'. node_batch (solo_api L) ops n = (Inr (), n')"
proof -
  assume ok: "\<forall>op \<in> set ops. admissible_key L (op_key op)"
  have "op_key (encode_op op) = op_key op" for op by (cases op) simp_all
  then have "\<forall>k \<in> set (command_keys (Batch (map encode_op ops))). admissible_key L k"
    using ok by auto
  then show ?thesis
    using solo_apply_live [of "Batch (map encode_op ops)" "inner n" "node_sm n"]
    by (auto simp: node_batch_def via_client_def solo_api_def solo_unit_def)
qed

lemma solo_cas_live:
  "admissible_key L k \<Longrightarrow> \<exists>b n'. via_client (c_cas (solo_api L) k x v) n = (Inr b, n')"
  using solo_apply_live [of "CompareAndSwap k x v" "inner n" "node_sm n"]
  by (auto simp: via_client_def solo_api_def)

end

definition demo_node :: "(bytes \<times> bytes) list \<Rightarrow> (u64, mem) node" where
  "demo_node kv =
    \<lparr>inner = 0,
     node_sm = demo_sm\<lparr>sm_env := mem_empty\<lparr>mem_kv := (\<lambda>_. [])(DB_KV := kv)\<rparr>\<rparr>,
     data_dir_lock = [], node_max_key = 512, node_max_value = 1048576\<rparr>"

lemma demo_node_kv [simp]: "node_kv mem_view (demo_node kv) = map_of kv"
  by (simp add: node_kv_def kv_of_def demo_node_def demo_sm_def mem_view_def)

lemma demo_node_sizes [simp]:
  "node_max_key (demo_node kv) = 512" "node_max_value (demo_node kv) = 1048576"
  by (simp_all add: demo_node_def)

lemma mem_admissible [simp]: "admissible_key mem_api k \<longleftrightarrow> k \<noteq> [] \<and> length k \<le> 511"
  by (simp add: admissible_key_def mem_api_def mem_max_key_def)


section \<open>Properties of reads and writes\<close>

lemma dom_logical:
  assumes "values_wf m"
  shows "dom m = dom (logical now m) \<union> {k. expired now m k}"
proof (intro set_eqI)
  fix k
  show "k \<in> dom m \<longleftrightarrow> k \<in> dom (logical now m) \<union> {k. expired now m k}"
  proof (cases "m k")
    case (Some b)
    then obtain d where "decode_live_value b now = Inr d" using decode_live_wf [OF assms] by blast
    then show ?thesis
      using Some by (cases d) (simp_all add: domIff logical_def expired_def live_value_def)
  qed (simp add: domIff logical_def expired_def)
qed



lemma length_visible: "length (visible filt xs) \<le> length xs"
  by (induction xs rule: visible.induct) (auto split: option.split)

lemma uint_clock: "0 \<le> c \<Longrightarrow> c < 2 ^ 64 \<Longrightarrow> uint (word_of_int c :: u64) = c"
  by (simp add: uint_word_of_int)

lemma expiry_le_iff:
  assumes "0 \<le> c0" and "c0 + uint ttl < 2 ^ 64" and "0 \<le> c" and "c < 2 ^ 64"
  shows "word_of_int c0 + ttl \<le> (word_of_int c :: u64) \<longleftrightarrow> c0 + uint ttl \<le> c"
proof -
  have "0 \<le> uint ttl" by simp
  then have "c0 < 2 ^ 64" using assms(2) by linarith
  then have "uint (word_of_int c0 + ttl) = c0 + uint ttl"
    using assms(1,2) uint_clock [of c0] by (simp add: uint_plus_if_size word_size)
  then show ?thesis using uint_clock [OF assms(3,4)] by (simp add: word_le_def)
qed

lemma wrapped_expiry_le:
  assumes "0 \<le> c0" and "c0 < 2 ^ 64" and "2 ^ 64 \<le> c0 + uint ttl"
  shows "word_of_int c0 + ttl \<le> (word_of_int c0 :: u64)"
proof -
  have "uint ttl < 2 ^ 64" using uint_bounded [of ttl] by simp
  moreover have "uint (word_of_int c0 + ttl) = c0 + uint ttl - 2 ^ 64"
    using assms uint_clock [of c0] by (simp add: uint_plus_if_size word_size)
  ultimately show ?thesis using uint_clock [of c0] assms by (simp add: word_le_def)
qed

lemma put_read_back:
  assumes "lmdb_live L V" and "leader_client L V A"
    and "node_put A k v n = (Inr (), n')" and "0 \<le> clock"
  shows "node_get L clock k n' = Return (Inr (Some v), n')"
proof -
  note eff = leader_client.node_put_effect [OF assms(2,3)]
  have "sm_get L (node_sm n') k = Inr (Some (encode_raw v))"
    using lmdb_live.sm_get_live [OF assms(1) eff(2), of "node_sm n'"] eff(1)
    by (simp add: node_kv_def)
  then show ?thesis
    by (simp add: node_get_def fetch_local_def decode_and_reap_def unix_now_ok [OF assms(4)]
        decode_live_value_def)
qed

text \<open>C8. After a \<open>put\<close> that reported success on a node that applies its own writes, \<open>get\<close> at any
  time returns the value written, without envelope, and changes nothing; every other key reads as
  before, at every time.\<close>

theorem put_then_get:
  assumes "lmdb_live L V" and "leader_client L V A"
    and "node_put A k v n = (Inr (), n')" and "0 \<le> clock"
  shows "node_get L clock k n' = Return (Inr (Some v), n') \<and>
    (\<forall>now j. j \<noteq> k \<longrightarrow> logical now (node_kv V n') j = logical now (node_kv V n) j)"
  using put_read_back [OF assms] leader_client.node_put_effect(1) [OF assms(2,3)] by simp

theorem put_then_get_witness:
  "\<exists>n'. node_put (solo_api mem_api) [7] [1, 2] (demo_node []) = (Inr (), n') \<and>
    node_get mem_api 1000 [7] n' = Return (Inr (Some [1, 2]), n')"
proof -
  obtain n' where n': "node_put (solo_api mem_api) [7] [1, 2] (demo_node []) = (Inr (), n')"
    using mem.solo_put_live [of "[7]" "demo_node []" "[1, 2]"] by auto
  then show ?thesis
    using put_then_get [OF mem.lmdb_live_axioms solo.leader_client_axioms n', of 1000] by simp
qed

text \<open>C33. A value written with a TTL is returned by every read before its expiry and by none from
  the second of expiry on; the read that finds it expired answers \<open>None\<close> and removes it physically,
  and nothing else.\<close>

theorem ttl_lifecycle:
  assumes "lmdb_live L V" and "leader_client L V A"
    and "node_put_with_ttl checks A c0 k v ttl n = Return (Inr (), n')"
    and "c0 + uint ttl < 2 ^ 64" and "0 \<le> c" and "c < 2 ^ 64"
  shows "if c < c0 + uint ttl then node_get L c k n' = Return (Inr (Some v), n')
    else \<exists>n''. node_get L c k n' = Return (Inr None, n'') \<and> node_kv V n'' = (node_kv V n')(k := None)"
proof -
  have lmdb: "lmdb L V" using assms(1) by (rule lmdb_live.axioms)
  note eff = leader_client.node_put_with_ttl_effect [OF assms(2,3)]
  define b where "b = encode_ttl v (Some (word_of_int c0 + ttl))"
  have kv: "node_kv V n' k = Some b" by (simp add: eff(3) b_def)
  have raw: "sm_get L (node_sm n') k = Inr (Some b)"
    using lmdb_live.sm_get_live [OF assms(1) eff(4), of "node_sm n'"] kv by (simp add: node_kv_def)
  have dec: "decode_live_value b (word_of_int c) = Inr (if c0 + uint ttl \<le> c then Expired else Present v)"
    by (simp add: b_def decode_live_value_def expiry_le_iff [OF eff(1) assms(4,5,6)])
  obtain s where s: "delete_local L k (node_sm n') = (Inr (), s)"
    using lmdb_live.delete_local_live [OF assms(1) eff(4)] by blast
  have "kv_of V s = (kv_of V (node_sm n'))(k := None)"
    using lmdb.delete_local_refines(1) [OF lmdb s] by (simp add: kv_of_def)
  then show ?thesis
    using raw dec s
    by (auto simp: node_get_def fetch_local_def decode_and_reap_def unix_now_ok [OF assms(5)] node_kv_def)
qed

theorem ttl_lifecycle_witness:
  "\<exists>n' n''. node_put_with_ttl True (solo_api mem_api) 1000 [7] [1] 60 (demo_node []) = Return (Inr (), n') \<and>
    node_get mem_api 1059 [7] n' = Return (Inr (Some [1]), n') \<and>
    node_get mem_api 1060 [7] n' = Return (Inr None, n'') \<and>
    node_kv mem_view n'' = (node_kv mem_view n')([7] := None)"
proof -
  obtain n' where n': "node_put_with_ttl True (solo_api mem_api) 1000 [7] [1] 60 (demo_node []) = Return (Inr (), n')"
    using mem.solo_put_with_ttl_live [of "[7]" "demo_node []" "[1]" 1000 True 60]
    by (auto simp: add_u64_def)
  note life = ttl_lifecycle [OF mem.lmdb_live_axioms solo.leader_client_axioms n']
  show ?thesis using n' life [of 1059] life [of 1060] by auto
qed

text \<open>C38. When the current time plus the TTL exceeds 64 bits, a build with overflow checks panics
  before anything is written, and a build without them reports success for a value that every
  read, from that very second on, treats as expired.\<close>

theorem ttl_overflow:
  assumes "lmdb_live L V" and "leader_client L V A"
    and "0 \<le> clock" and "clock < 2 ^ 64" and "2 ^ 64 \<le> clock + uint ttl"
    and "check_sizes k v n = Inr ()"
  shows "node_put_with_ttl True A clock k v ttl n = Panic \<and>
    (\<forall>n'. node_put_with_ttl False A clock k v ttl n = Return (Inr (), n') \<longrightarrow>
       (\<exists>n''. node_get L clock k n' = Return (Inr None, n'')))"
proof -
  have "unat (word_of_int clock :: u64) = nat clock"
    using uint_clock [OF assms(3,4)] by (simp add: unat_eq_nat_uint del: nat_uint_eq)
  moreover have "unat ttl = nat (uint ttl)" by simp
  moreover have "2 ^ 64 \<le> nat (clock + uint ttl)" using assms(5) by simp
  then have "2 ^ 64 \<le> nat clock + nat (uint ttl)" using assms(3) by (simp add: nat_add_distrib)
  ultimately have "add_u64 True (word_of_int clock) ttl = Panic"
    unfolding add_u64_def by presburger
  then have panics: "node_put_with_ttl True A clock k v ttl n = Panic"
    using assms(6) by (simp add: node_put_with_ttl_def unix_now_ok [OF assms(3)])
  have "\<exists>n''. node_get L clock k n' = Return (Inr None, n'')"
    if put: "node_put_with_ttl False A clock k v ttl n = Return (Inr (), n')" for n'
  proof -
    note eff = leader_client.node_put_with_ttl_effect [OF assms(2) put]
    obtain s where "delete_local L k (node_sm n') = (Inr (), s)"
      using lmdb_live.delete_local_live [OF assms(1) eff(4)] by blast
    moreover have "sm_get L (node_sm n') k = Inr (Some (encode_ttl v (Some (word_of_int clock + ttl))))"
      using lmdb_live.sm_get_live [OF assms(1) eff(4), of "node_sm n'"] eff(3) by (simp add: node_kv_def)
    ultimately show ?thesis
      using wrapped_expiry_le [OF assms(3-5)]
      by (simp add: node_get_def fetch_local_def decode_and_reap_def unix_now_ok [OF assms(3)]
          decode_live_value_def)
  qed
  then show ?thesis using panics by blast
qed

theorem ttl_overflow_witness:
  "\<exists>n' n''. node_put_with_ttl False (solo_api mem_api) 1000 [7] [1] (- 1) (demo_node []) = Return (Inr (), n') \<and>
    node_get mem_api 1000 [7] n' = Return (Inr None, n'') \<and>
    node_put_with_ttl True (solo_api mem_api) 1000 [7] [1] (- 1) (demo_node []) = Panic"
proof -
  have "check_sizes [7] [1] (demo_node []) = Inr ()"
    by (simp add: check_sizes_def validate_key_def validate_value_def)
  moreover have "(2 :: int) ^ 64 \<le> 1000 + uint (- 1 :: u64)"
    by (simp add: unsigned_minus_1_eq_mask mask_eq_exp_minus_1)
  moreover obtain n' where
    "node_put_with_ttl False (solo_api mem_api) 1000 [7] [1] (- 1) (demo_node []) = Return (Inr (), n')"
    using mem.solo_put_with_ttl_live [of "[7]" "demo_node []" "[1]" 1000 False "- 1"]
    by (auto simp: add_u64_def)
  ultimately show ?thesis
    using ttl_overflow [OF mem.lmdb_live_axioms solo.leader_client_axioms, of 1000 "- 1" "[7]" "[1]" "demo_node []"]
    by auto
qed


text \<open>C34. A point read of a well-formed store answers exactly the logical value at the time of the
  read. Its only effect is to drop the value it found expired, which no read at that time or
  later, of any key, can tell; index, term and the rest of the node stay as they were.\<close>

theorem get_exact:
  assumes "lmdb_live L V" and "admissible_key L k" and "values_wf (node_kv V n)" and "0 \<le> clock"
  shows "\<exists>n'. node_get L clock k n = Return (Inr (logical (word_of_int clock) (node_kv V n) k), n') \<and>
    node_kv V n' = reap (word_of_int clock) k (node_kv V n) \<and>
    n' = n\<lparr>node_sm := (node_sm n)\<lparr>sm_env := sm_env (node_sm n')\<rparr>\<rparr> \<and>
    (\<forall>later \<ge> word_of_int clock. logical later (node_kv V n') = logical later (node_kv V n))"
proof -
  obtain n' where n': "fetch_local L clock k n =
      Return (Inr (logical (word_of_int clock) (node_kv V n) k), n')"
    using lmdb_live.fetch_local_live [OF assms] by blast
  note facts = lmdb.fetch_local_sound [OF lmdb_live.axioms(1) [OF assms(1)] n' assms(4)]
  show ?thesis
    using n' facts(2,3) logical_reap by (auto simp: node_get_def)
qed

theorem get_exact_witness:
  "\<exists>n'. node_get mem_api 5 [7] (demo_node [([7], encode_ttl [1] (Some 3)), ([8], encode_raw [2])]) =
      Return (Inr None, n') \<and> node_kv mem_view n' = [[8] \<mapsto> encode_raw [2]]"
proof -
  let ?n = "demo_node [([7], encode_ttl [1] (Some 3)), ([8], encode_raw [2])]"
  have "values_wf (node_kv mem_view ?n)" by simp
  moreover have exp: "decode_live_value (encode_ttl [1] (Some 3)) 5 = Inr Expired"
    by (simp add: decode_live_value_def)
  have "reap 5 [7] (node_kv mem_view ?n) = [[8] \<mapsto> encode_raw [2]]"
    by (auto simp: reap_def expired_def exp fun_eq_iff)
  moreover have "logical 5 (node_kv mem_view ?n) [7] = None"
    by (simp add: logical_def)
  ultimately show ?thesis
    using get_exact [OF mem.lmdb_live_axioms, of "[7]" ?n 5] by auto
qed

text \<open>A scan of the whole store and point reads agree: at the same time, a full scan lists
  exactly the pairs \<open>(k, v)\<close> for which reading \<open>k\<close> gives \<open>v\<close>, each key once and in key order;
  expired values appear in neither.\<close>

theorem scan_agrees_with_get:
  assumes "lmdb_live L V" and "card (dom (node_kv V n)) \<le> usize_max"
  shows "\<exists>r. node_scan_all L now None n = Inr r \<and> sorted_keys (scan_entries r) \<and>
    (\<forall>k v. (k, v) \<in> set (scan_entries r) \<longleftrightarrow> logical now (node_kv V n) k = Some v)"
proof -
  let ?m = "node_kv V n"
  have fin: "finite (dom ?m)"
    using lmdb.finite_env [OF lmdb_live.axioms(1) [OF assms(1)]] by (simp add: node_kv_def kv_of_def)
  have len: "length (visible (Some (live_value now)) (items ?m)) \<le> usize_max"
    using length_visible [of "Some (live_value now)" "items ?m"] length_items [OF fin] assms(2) by simp
  obtain r where r: "node_scan_all L now None n = Inr r"
    and es: "scan_entries r = visible (Some (live_value now)) (items ?m)"
    using lmdb_live.scan_all_live [OF assms(1), of "node_sm n" None "Some (live_value now)"] len
    by (simp add: node_scan_all_def scan_filter_is_live_value limit_cap_def node_kv_def)
  have "(k, v) \<in> set (scan_entries r) \<longleftrightarrow> logical now ?m k = Some v" for k v
    unfolding es by (auto simp: set_visible set_items [OF fin] logical_def split: option.splits)
  then show ?thesis
    using r es sorted_visible [OF sorted_items, of "Some (live_value now)" ?m] by auto
qed

theorem scan_agrees_with_get_witness:
  "\<exists>r. node_scan_all mem_api 5 None (demo_node [([7], encode_ttl [1] (Some 3)), ([8], encode_raw [2])]) = Inr r \<and>
    ([8], [2]) \<in> set (scan_entries r) \<and> (\<forall>v. ([7], v) \<notin> set (scan_entries r))"
proof -
  let ?n = "demo_node [([7], encode_ttl [1] (Some 3)), ([8], encode_raw [2])]"
  have "card (dom (node_kv mem_view ?n)) \<le> usize_max" by (simp add: usize_max_def)
  then show ?thesis
    using scan_agrees_with_get [OF mem.lmdb_live_axioms, of ?n 5] by (auto simp: logical_def)
qed




section \<open>Compare-and-swap and TTL\<close>

text \<open>C35. \<open>compare_and_swap\<close> and \<open>put_if_absent\<close> answer \<open>true\<close> exactly when the stored bytes are the
  plain envelope of the expected value (or nothing is stored), and then and only then store the
  new value. So a value written with a TTL is never equal to an expected value, even while reads
  return it, and a key whose value has expired but was not yet removed still counts as present.\<close>

theorem cas_exact:
  assumes "leader_client L V A"
  shows "(node_compare_and_swap A k expected v n = (Inr b, n') \<longrightarrow>
      (b \<longleftrightarrow> node_kv V n k = map_option encode_raw expected) \<and>
      node_kv V n' = (if b then (node_kv V n)(k \<mapsto> encode_raw v) else node_kv V n)) \<and>
    (node_put_if_absent A k v n = (Inr b, n') \<longrightarrow>
      (b \<longleftrightarrow> node_kv V n k = None) \<and>
      node_kv V n' = (if b then (node_kv V n)(k \<mapsto> encode_raw v) else node_kv V n)) \<and>
    (node_kv V n k = Some (encode_ttl w (Some ts)) \<longrightarrow>
      node_compare_and_swap A k (Some w) v n \<noteq> (Inr True, n') \<and>
      node_put_if_absent A k v n \<noteq> (Inr True, n'))"
proof -
  have cas: "(b \<longleftrightarrow> node_kv V n k = x) \<and>
      node_kv V n' = (if b then (node_kv V n)(k \<mapsto> encode_raw v) else node_kv V n)"
    if "via_client (c_cas A k x (encode_raw v)) n = (Inr b, n')" for x b
    using leader_client.cas_effect(1) [OF assms that] by simp
  have differ: "encode_ttl w (Some ts) \<noteq> encode_raw w" by (metis encode_raw_neq_ttl)
  show ?thesis
    using cas [of None b] cas [of None True] cas [of "Some (encode_raw w)" True] cas [of "map_option encode_raw expected" b] differ
    by (auto simp: node_compare_and_swap_def node_put_if_absent_def)
qed

theorem cas_exact_witness:
  "\<exists>b b' n' n''. node_compare_and_swap (solo_api mem_api) [7] (Some [1]) [2] (demo_node [([7], encode_ttl [1] (Some 9))]) = (Inr b, n') \<and>
    logical 5 (node_kv mem_view (demo_node [([7], encode_ttl [1] (Some 9))])) [7] = Some [1] \<and> \<not> b \<and>
    node_put_if_absent (solo_api mem_api) [7] [2] (demo_node [([7], encode_ttl [1] (Some 9))]) = (Inr b', n'') \<and>
    logical 10 (node_kv mem_view (demo_node [([7], encode_ttl [1] (Some 9))])) [7] = None \<and> \<not> b'"
proof -
  let ?n = "demo_node [([7], encode_ttl [1] (Some 9))]"
  obtain b n' where 1: "node_compare_and_swap (solo_api mem_api) [7] (Some [1]) [2] ?n = (Inr b, n')"
    using mem.solo_cas_live [of "[7]" "Some (encode_raw [1])" "encode_raw [2]" ?n]
    by (auto simp: node_compare_and_swap_def)
  obtain b' n'' where 2: "node_put_if_absent (solo_api mem_api) [7] [2] ?n = (Inr b', n'')"
    using mem.solo_cas_live [of "[7]" None "encode_raw [2]" ?n]
    by (auto simp: node_put_if_absent_def)
  have "\<not> b" "\<not> b'"
    using 1 2 cas_exact [OF solo.leader_client_axioms, of "[7]" "Some [1]" "[2]" ?n b n' "[1]" 9]
      cas_exact [OF solo.leader_client_axioms, of "[7]" "Some [1]" "[2]" ?n b' n'' "[1]" 9]
    by auto
  then show ?thesis using 1 2 by (fastforce simp: logical_def)
qed


section \<open>No reachable node holds a corrupt value\<close>

text \<open>
  The states a node can be driven into through the API, from an empty store: successful and failed
  writes, batches, deletes, compare-and-swaps and reads at any time, in any order.
\<close>

inductive node_reachable ::
  "('e, 't) lmdb_api \<Rightarrow> ('e, 't) lmdb_view \<Rightarrow> ('g, 'e) client_api \<Rightarrow> ('g, 'e) node \<Rightarrow> bool"
  for L :: "('e, 't) lmdb_api" and V :: "('e, 't) lmdb_view" and A :: "('g, 'e) client_api" where
  empty: "node_kv V n = Map.empty \<Longrightarrow> node_reachable L V A n"
| wrote: "node_reachable L V A n \<Longrightarrow> node_put A k v n = (r, n') \<Longrightarrow> node_reachable L V A n'"
| wrote_ttl: "node_reachable L V A n \<Longrightarrow>
    node_put_with_ttl checks A clock k v ttl n = Return (r, n') \<Longrightarrow> node_reachable L V A n'"
| batched: "node_reachable L V A n \<Longrightarrow> node_batch A ops n = (r, n') \<Longrightarrow> node_reachable L V A n'"
| removed: "node_reachable L V A n \<Longrightarrow> node_delete A k n = (r, n') \<Longrightarrow> node_reachable L V A n'"
| swapped: "node_reachable L V A n \<Longrightarrow> node_compare_and_swap A k x v n = (b, n') \<Longrightarrow>
    node_reachable L V A n'"
| inserted: "node_reachable L V A n \<Longrightarrow> node_put_if_absent A k v n = (b, n') \<Longrightarrow>
    node_reachable L V A n'"
| fetched: "node_reachable L V A n \<Longrightarrow> node_get L clock k n = Return (v, n') \<Longrightarrow> node_reachable L V A n'"
| fetched_lin: "node_reachable L V A n \<Longrightarrow>
    node_get_linearizable L A clock k n = Return (v, n') \<Longrightarrow> node_reachable L V A n'"
| fetched_lease: "node_reachable L V A n \<Longrightarrow>
    node_get_lease L A clock k n = Return (v, n') \<Longrightarrow> node_reachable L V A n'"

context leader_client
begin

lemma via_put_values_wf:
  assumes "via_client (c_put A k b) n = (r, n')" and "values_wf (node_kv V n)" and "\<exists>v. decode b = Inr v"
  shows "values_wf (node_kv V n')"
proof -
  obtain r0 g s where call: "c_put A k b (inner n, node_sm n) = (r0, g, s)"
    and n': "n' = n\<lparr>inner := g, node_sm := s\<rparr>"
    using assms(1) by (auto simp: via_client_def split: prod.splits)
  have "attempted V (Insert k b None) (node_sm n) s"
    using call put_failed committed_attempted [OF put_done] by (cases r0) auto
  then show ?thesis
    using assms(2,3) n' by (auto simp: attempted_def node_kv_def values_wf_def split: if_splits)
qed

lemma delete_local_error_frame: "delete_local L k s = (Inl e, s') \<Longrightarrow> s' = s"
  by (auto simp: delete_local_def split: sum.splits)

lemma reap_error_frame:
  assumes "decode_and_reap L clock k raw n = Return (Inl e, n')"
  shows "n' = n"
proof (cases raw)
  case (Some b)
  then obtain z where z: "unix_now_secs clock = Return z"
    using assms by (auto simp: decode_and_reap_def exec_bind_eq_Return)
  show ?thesis
  proof (cases "decode_live_value b z")
    case (Inr d)
    then show ?thesis
      using assms Some z
      by (cases d; cases "delete_local L k (node_sm n)"; cases "fst (delete_local L k (node_sm n))")
        (auto simp: decode_and_reap_def dest: delete_local_error_frame)
  qed (use assms Some z in \<open>simp add: decode_and_reap_def\<close>)
qed (use assms in \<open>simp add: decode_and_reap_def\<close>)

lemma decode_and_reap_values_wf:
  assumes "decode_and_reap L clock k (node_kv V n k) n = Return (r, n')" and "values_wf (node_kv V n)"
  shows "values_wf (node_kv V n')"
proof (cases r)
  case (Inl e)
  then show ?thesis using reap_error_frame assms by blast
next
  case (Inr v)
  show ?thesis
  proof (cases "0 \<le> clock")
    case True
    have "node_kv V n' = reap (word_of_int clock) k (node_kv V n)"
      using decode_and_reap_sound(2) [OF _ True] assms(1) unfolding Inr by blast
    then show ?thesis using assms(2) by simp
  next
    case False
    then have "n' = n"
      using assms(1) by (auto simp: decode_and_reap_def unix_now_secs_def split: option.splits)
    then show ?thesis using assms(2) by simp
  qed
qed

lemma fetch_local_values_wf:
  assumes "fetch_local L clock k n = Return (r, n')" and "values_wf (node_kv V n)"
  shows "values_wf (node_kv V n')"
proof (cases "sm_get L (node_sm n) k")
  case (Inr raw)
  then have "decode_and_reap L clock k (node_kv V n k) n = Return (r, n')"
    using assms(1) sm_get_sound [OF Inr] by (simp add: fetch_local_def node_kv_def)
  then show ?thesis using decode_and_reap_values_wf assms(2) by blast
qed (use assms in \<open>auto simp: fetch_local_def\<close>)

lemma remote_read_values_wf:
  assumes "via_client (c_get_linearizable A k) n = (q, n1) \<or> via_client (c_get_lease A k) n = (q, n1)"
    and "values_wf (node_kv V n)"
    and "(case q of Inl e \<Rightarrow> Return (Inl e, n1) | Inr raw \<Rightarrow> decode_and_reap L clock k raw n1) = Return (r, n')"
  shows "values_wf (node_kv V n')"
proof -
  obtain q0 g s where
    call: "c_get_linearizable A k (inner n, node_sm n) = (q0, g, s) \<or> c_get_lease A k (inner n, node_sm n) = (q0, g, s)"
    and n1: "n1 = n\<lparr>inner := g, node_sm := s\<rparr>" and q: "q = map_err Client q0"
    using assms(1) by (auto simp: via_client_def split: prod.splits)
  have s: "s = node_sm n" "\<forall>v. q0 = Inr v \<longrightarrow> v = kv_of V (node_sm n) k"
    using call linearizable [of k "inner n" "node_sm n"] lease [of k "inner n" "node_sm n"] by auto
  show ?thesis
  proof (cases q0)
    case (Inr raw)
    then have "decode_and_reap L clock k (node_kv V n1 k) n1 = Return (r, n')"
      using assms(3) q s n1 by (simp add: node_kv_def)
    moreover have "values_wf (node_kv V n1)" using assms(2) n1 s(1) by (simp add: node_kv_def)
    ultimately show ?thesis by (rule decode_and_reap_values_wf)
  qed (use assms(2,3) q n1 s in \<open>auto simp: node_kv_def\<close>)
qed

lemma reachable_values_wf: "node_reachable L V A n \<Longrightarrow> values_wf (node_kv V n)"
proof (induction rule: node_reachable.induct)
  case (wrote n k v r n')
  then show ?case
    using via_put_values_wf [of k "encode_raw v" n r n']
    by (auto simp: node_put_def split: sum.splits)
next
  case (wrote_ttl n checks clock k v ttl r n')
  then show ?case
    using via_put_values_wf [of k "encode_ttl v (Some _)" n r n']
    by (auto simp: node_put_with_ttl_def exec_bind_eq_Return split: sum.splits)
next
  case (batched n ops r n')
  then show ?case using node_batch_effect(2) [of ops n r n'] values_wf_encode_ops by auto
next
  case (removed n k r n')
  then show ?case using node_delete_effect(2) [of k n r n']
    by (auto simp del: fun_upd_apply)
next
  case (swapped n k x v b n')
  then show ?case
    using cas_effect(2) [of k "map_option encode_raw x" "encode_raw v" n b n']
    by (auto simp: node_compare_and_swap_def simp del: fun_upd_apply)
next
  case (inserted n k v b n')
  then show ?case
    using cas_effect(2) [of k None "encode_raw v" n b n']
    by (auto simp: node_put_if_absent_def simp del: fun_upd_apply)
next
  case (fetched n clock k v n')
  then show ?case using fetch_local_values_wf by (simp add: node_get_def)
next
  case (fetched_lin n clock k v n')
  then show ?case
    using remote_read_values_wf [of k n _ _ clock v n']
    by (auto simp: node_get_linearizable_def split: prod.splits)
next
  case (fetched_lease n clock k v n')
  then show ?case
    using remote_read_values_wf [of k n _ _ clock v n']
    by (auto simp: node_get_lease_def split: prod.splits)
qed simp

end


text \<open>C28. However a node was driven through its API, with failed calls and reads at any time on the
  way, every stored value carries a valid envelope, so a point read on a healthy disk never
  reports corruption: it returns a value or \<open>None\<close>.\<close>

theorem reads_never_corrupt:
  assumes "lmdb_live L V" and "leader_client L V A" and "node_reachable L V A n"
  shows "values_wf (node_kv V n) \<and>
    (\<forall>k clock. admissible_key L k \<longrightarrow> 0 \<le> clock \<longrightarrow>
      (\<exists>v n'. node_get L clock k n = Return (Inr v, n')))"
proof -
  have "values_wf (node_kv V n)" by (rule leader_client.reachable_values_wf [OF assms(2,3)])
  then show ?thesis
    using lmdb_live.fetch_local_live [OF assms(1)] unfolding node_get_def by blast
qed

theorem reads_never_corrupt_witness:
  "\<exists>n. node_reachable mem_api mem_view (solo_api mem_api) n \<and> node_kv mem_view n [7] = Some (encode_raw [1]) \<and>
    values_wf (node_kv mem_view n)"
proof -
  obtain n' where n': "node_put (solo_api mem_api) [7] [1] (demo_node []) = (Inr (), n')"
    using mem.solo_put_live [of "[7]" "demo_node []" "[1]"] by auto
  have "node_reachable mem_api mem_view (solo_api mem_api) (demo_node [])"
    by (rule node_reachable.empty) simp
  then have "node_reachable mem_api mem_view (solo_api mem_api) n'"
    using n' by (rule node_reachable.wrote)
  then show ?thesis
    using reads_never_corrupt [OF mem.lmdb_live_axioms solo.leader_client_axioms, of n']
      solo.node_put_effect(1) [OF n'] by auto
qed

text \<open>\<open>len\<close> on a healthy disk is the number of stored keys, so it counts values that every read
  treats as expired until some point read removes them: it is never below the number of visible
  keys, and above it by the number of expired ones.\<close>

theorem len_counts_expired:
  assumes "lmdb_live L V" and "values_wf (node_kv V n)" and "card (dom (node_kv V n)) < 2 ^ 64"
  shows "node_len L n = card (dom (logical now (node_kv V n))) + card {k. expired now (node_kv V n) k}"
proof -
  let ?m = "node_kv V n"
  have lmdb: "lmdb L V" using assms(1) by (rule lmdb_live.axioms)
  have fin: "finite (dom ?m)" using lmdb.finite_env [OF lmdb] by (simp add: node_kv_def kv_of_def)
  obtain t where t: "read_txn L (sm_env (node_sm n)) = Inr t"
    using lmdb_live.read_txn_ok [OF assms(1)] by blast
  obtain c where c: "db_len L t DB_KV = Inr c" using lmdb_live.len_ok [OF assms(1)] by blast
  have "c = word_of_nat (card (dom ?m))"
    using lmdb.len [OF lmdb c] lmdb.read_txn [OF lmdb t] by (simp add: node_kv_def kv_of_def)
  then have "node_len L n = card (dom ?m)"
    using t c assms(3) by (simp add: node_len_def sm_len_def unat_of_nat)
  moreover have split: "dom ?m = dom (logical now ?m) \<union> {k. expired now ?m k}"
    by (rule dom_logical [OF assms(2)])
  moreover have "dom (logical now ?m) \<inter> {k. expired now ?m k} = {}"
    by (auto simp: logical_expired)
  moreover have "finite (dom (logical now ?m))" "finite {k. expired now ?m k}"
    using fin split by (metis finite_Un)+
  ultimately show ?thesis by (simp add: card_Un_disjoint)
qed

theorem len_counts_expired_witness:
  "node_len mem_api (demo_node [([7], encode_ttl [1] (Some 3)), ([8], encode_raw [2])]) = 2 \<and>
   card (dom (logical 5 (map_of [([7], encode_ttl [1] (Some 3)), ([8], encode_raw [2])]))) = 1"
proof -
  let ?n = "demo_node [([7], encode_ttl [1] (Some 3)), ([8], encode_raw [2])]"
  let ?m = "node_kv mem_view ?n"
  have "values_wf ?m" "card (dom ?m) < 2 ^ 64" by simp_all
  moreover have dom: "dom (logical 5 ?m) = {[8]}" by (auto simp: logical_def split: if_splits)
  moreover have "decode_live_value (encode_ttl [1] (Some 3)) 5 = Inr Expired"
    "decode_live_value (encode_raw [2]) 5 = Inr (Present [2])"
    by (simp_all add: decode_live_value_def)
  then have "{k. expired 5 ?m k} = {[7]}" by (auto simp: expired_def split: if_splits)
  ultimately show ?thesis
    using len_counts_expired [OF mem.lmdb_live_axioms, of ?n 5] by simp
qed

text \<open>C37. With the default limits the size check lets through keys that LMDB refuses (LMDB's limit
  is 511 bytes and it has no empty key; the default limit is 512 bytes and the empty key passes).
  Once such a write is in the log, every chunk that contains it fails on every node and on every
  retry, and the store stays as it was.\<close>

theorem accepted_key_poisons_log:
  assumes "lmdb L V" and "max_key_size L = 511" and "k = [] \<or> length k = 512"
    and "e \<in> set chunk" and "entry_command e = Insert k b None"
  shows "validate_key k (max_key_bytes (config_new d)) = Inr () \<and>
    (\<exists>err s'. apply_chunk L chunk s = (Inl err, s') \<and> sm_env s' = sm_env s)"
proof -
  have "\<not> admissible_key L k" using assms(2,3) by (auto simp: admissible_key_def)
  then show ?thesis
    using lmdb.apply_chunk_refused [OF assms(1,4,5)] assms(3)
    by (auto simp: validate_key_def config_new_def default_max_key_bytes_def)
qed

theorem accepted_key_poisons_log_witness:
  "\<exists>err s'. apply_chunk mem_api [demo_entry 1 (Insert (replicate 512 7) [1] None), demo_entry 2 Noop]
      demo_sm = (Inl err, s') \<and> sm_env s' = sm_env demo_sm"
  using accepted_key_poisons_log [OF mem.lmdb_axioms, of "replicate 512 7"
      "demo_entry 1 (Insert (replicate 512 7) [1] None)"
      "[demo_entry 1 (Insert (replicate 512 7) [1] None), demo_entry 2 Noop]" "[1]" "[]" demo_sm]
  by (simp add: demo_entry_def mem_api_def mem_max_key_def)

definition demo_host :: "(u64, mem, unit) host" where
  "demo_host =
    \<lparr>h_mkdir = (\<lambda>_. Inr ()), h_open_lock = (\<lambda>_. Inr ()), h_lock_fault = None, h_file = (\<lambda>_. None),
     h_raft_config = Inr (), h_start_node = (\<lambda>_ w s _. Inr (0, s)),
     h_start_custom = (\<lambda>_ w s _. Inr (0, s))\<rparr>"

text \<open>Opening a node whose data directory is locked by another one fails without touching the
  lock; any other failed open releases the lock it took; a successful open holds it; and closing
  the node, whether or not the engine stopped cleanly, gives it back.\<close>

theorem open_lock_discipline:
  assumes "node_open L H d held = (r, held')"
  shows "(lock_path d \<in> held \<longrightarrow> held' = held \<and> (\<exists>e. r = Inl e)) \<and>
    ((\<exists>e. r = Inl e) \<longrightarrow> held' = held) \<and>
    (\<forall>n. r = Inr n \<longrightarrow> lock_path d \<notin> held \<and> held' = insert (lock_path d) held \<and>
      (\<forall>stop. snd (snd (node_close L stop n held')) = held))"
proof (cases "acquire (h_mkdir H d) (h_open_lock H d) (h_lock_fault H) d held")
  case (Pair q h)
  show ?thesis
  proof (cases q)
    case (Inl e)
    then show ?thesis using assms Pair acquire_Inl by (auto simp: node_open_def)
  next
    case (Inr lock)
    note got = acquire_Inr [OF Pair [unfolded Inr]]
    define started where "started = and_then (open_stores L H d (config_new d)) (\<lambda>(w, s).
      and_then (map_err EngineErr (h_raft_config H)) (\<lambda>raft_config.
      map_err EngineErr (h_start_node H d w s raft_config)))"
    have run: "finish_open lock h (config_new d) started = (r, held')"
      using assms Pair Inr by (simp add: node_open_def started_def Let_def)
    show ?thesis
    proof (cases started)
      case (Inl e)
      then show ?thesis using run got by (auto simp: finish_open_def release_def)
    next
      case (Inr gs)
      then show ?thesis
        using run got by (auto simp: finish_open_def release_def node_close_def split: prod.splits)
    qed
  qed
qed

theorem open_lock_discipline_witness:
  "\<exists>n held'. node_open mem_api demo_host [''data''] {} = (Inr n, held') \<and> held' = {lock_path [''data'']}"
proof -
  obtain w where w: "wal_new mem_api (Inr ()) None = Inr w" using demo_wal.wal_new_live by blast
  obtain s where s: "sm_new mem_api (Inr ()) None (config_new [''data'']) = Inr s"
    using mem.sm_new_live by blast
  have "\<exists>n held'. node_open mem_api demo_host [''data''] {} = (Inr n, held')"
    by (simp add: node_open_def acquire_def try_lock_def open_stores_def demo_host_def w s finish_open_def
        Let_def)
  then show ?thesis using open_lock_discipline [of mem_api demo_host "[''data'']" "{}"] by fastforce
qed

end
