(* ===== verification/Available.thy ===== *)
theory Available
  imports Node
begin

text \<open>
  A node whose engine is available: the locale \<open>available_client\<close> adds to \<open>leader_client\<close> that calls
  with admissible keys are answered without error. Its lemmas give, for every operation of the
  API, the result and the new contents in one statement, so that whole client programs can be
  run step by step. The single-node engine on a healthy disk is an instance.
\<close>


section \<open>The interface\<close>

locale available_client = lmdb_live L V + leader_client L V A
  for L :: "('e, 't) lmdb_api" and V :: "('e, 't) lmdb_view" and A :: "('g, 'e) client_api" +
  assumes put_available: "admissible_key L k \<Longrightarrow> \<exists>y. c_put A k v x = (Inr (), y)"
    and delete_available: "admissible_key L k \<Longrightarrow> \<exists>y. c_delete A k x = (Inr (), y)"
    and batch_available: "\<forall>op \<in> set ops. admissible_key L (op_key op) \<Longrightarrow> \<exists>y. c_batch A ops x = (Inr (), y)"
    and cas_available: "admissible_key L k \<Longrightarrow> \<exists>b y. c_cas A k e v x = (Inr b, y)"
    and linearizable_available: "admissible_key L k \<Longrightarrow> \<exists>r y. c_get_linearizable A k x = (Inr r, y)"
    and lease_available: "admissible_key L k \<Longrightarrow> \<exists>r y. c_get_lease A k x = (Inr r, y)"

text \<open>What no operation of the API changes.\<close>

definition limits :: "('g, 'e) node \<Rightarrow> nat \<times> nat \<times> path" where
  "limits n = (node_max_key n, node_max_value n, data_dir_lock n)"

lemma via_client_limits: "via_client call n = (r, n') \<Longrightarrow> limits n' = limits n"
  by (auto simp: via_client_def limits_def split: prod.splits)

lemma op_key_encode_op [simp]: "op_key (encode_op op) = op_key op"
  by (cases op) simp_all

lemma expiry_add:
  assumes "0 \<le> clock" and "clock + uint ttl < 2 ^ 64"
  shows "add_u64 checks (word_of_int clock) ttl = Return (word_of_int clock + ttl)"
proof -
  have "clock < 2 ^ 64" using assms(2) uint_ge_0 [of ttl] by linarith
  then have "unat (word_of_int clock :: u64) = nat clock"
    using uint_clock [OF assms(1)] by (simp add: unat_eq_nat_uint del: nat_uint_eq)
  moreover have "unat ttl = nat (uint ttl)" by simp
  moreover have "nat clock + nat (uint ttl) < 2 ^ 64"
    using assms uint_ge_0 [of ttl] by (simp add: nat_add_distrib [symmetric] nat_less_iff del: nat_uint_eq)
  ultimately show ?thesis by (simp add: add_u64_def)
qed

context available_client
begin

text \<open>\<open>via_client\<close> on an available call.\<close>

lemma via_client_ok:
  "(\<And>x. \<exists>r y. call x = (Inr r, y)) \<Longrightarrow> \<exists>r n'. via_client call n = (Inr r, n') \<and> limits n' = limits n"
proof -
  assume "\<And>x. \<exists>r y. call x = (Inr r, y)"
  then obtain r y where "call (inner n, node_sm n) = (Inr r, y)" by blast
  then show ?thesis by (cases y) (auto simp: via_client_def limits_def)
qed

lemma put_run:
  assumes "admissible_key L k" and "length k \<le> node_max_key n" and "length v \<le> node_max_value n"
  shows "\<exists>n'. node_put A k v n = (Inr (), n') \<and> limits n' = limits n \<and>
    node_kv V n' = (node_kv V n)(k \<mapsto> encode_raw v)"
proof -
  obtain n' where n': "via_client (c_put A k (encode_raw v)) n = (Inr (), n')" "limits n' = limits n"
    using via_client_ok [of "c_put A k (encode_raw v)" n] put_available [OF assms(1)] by auto
  have run: "node_put A k v n = (Inr (), n')"
    using n'(1) assms by (simp add: node_put_def check_sizes_def validate_key_def validate_value_def)
  show ?thesis using run n'(2) node_put_effect(1) [OF run] by blast
qed

lemma put_with_ttl_run:
  assumes "admissible_key L k" and "length k \<le> node_max_key n" and "length v \<le> node_max_value n"
    and "0 \<le> clock" and "clock + uint ttl < 2 ^ 64"
  shows "\<exists>n'. node_put_with_ttl checks A clock k v ttl n = Return (Inr (), n') \<and> limits n' = limits n \<and>
    node_kv V n' = (node_kv V n)(k \<mapsto> encode_ttl v (Some (word_of_int clock + ttl)))"
proof -
  note add = expiry_add [OF assms(4,5), of checks]
  obtain n' where n': "via_client (c_put A k (encode_ttl v (Some (word_of_int clock + ttl)))) n = (Inr (), n')"
    "limits n' = limits n"
    using via_client_ok [of "c_put A k (encode_ttl v (Some (word_of_int clock + ttl)))" n]
      put_available [OF assms(1)] by auto
  have run: "node_put_with_ttl checks A clock k v ttl n = Return (Inr (), n')"
    using n'(1) assms add
    by (simp add: node_put_with_ttl_def check_sizes_def validate_key_def validate_value_def unix_now_ok)
  show ?thesis using run n'(2) node_put_with_ttl_effect(3) [OF run] by blast
qed

lemma delete_run:
  assumes "admissible_key L k"
  shows "\<exists>n'. node_delete A k n = (Inr (), n') \<and> limits n' = limits n \<and>
    node_kv V n' = (node_kv V n)(k := None)"
proof -
  obtain n' where run: "node_delete A k n = (Inr (), n')" and "limits n' = limits n"
    using via_client_ok [of "c_delete A k" n] delete_available [OF assms]
    by (auto simp: node_delete_def)
  then show ?thesis using node_delete_effect(1) [OF run] by blast
qed

lemma batch_run:
  assumes "\<forall>op \<in> set ops. admissible_key L (op_key op)"
  shows "\<exists>n'. node_batch A ops n = (Inr (), n') \<and> limits n' = limits n \<and>
    node_kv V n' = fold spec_op (map encode_op ops) (node_kv V n)"
proof -
  have "\<forall>op \<in> set (map encode_op ops). admissible_key L (op_key op)" using assms by auto
  then obtain n' where run: "node_batch A ops n = (Inr (), n')" and "limits n' = limits n"
    using via_client_ok [of "c_batch A (map encode_op ops)" n] batch_available
    by (auto simp: node_batch_def)
  then show ?thesis using node_batch_effect(1) [OF run] by blast
qed

lemma cas_run:
  assumes "admissible_key L k"
  shows "\<exists>n'. via_client (c_cas A k x v) n = (Inr (node_kv V n k = x), n') \<and> limits n' = limits n \<and>
    node_kv V n' = (if node_kv V n k = x then (node_kv V n)(k \<mapsto> v) else node_kv V n)"
proof -
  obtain b n' where run: "via_client (c_cas A k x v) n = (Inr b, n')" and "limits n' = limits n"
    using via_client_ok [of "c_cas A k x v" n] cas_available [OF assms] by auto
  then show ?thesis using cas_effect(1) [OF run, of b] by auto
qed

lemma get_run:
  assumes "admissible_key L k" and "values_wf (node_kv V n)" and "0 \<le> clock"
  shows "\<exists>n'. node_get L clock k n = Return (Inr (logical (word_of_int clock) (node_kv V n) k), n') \<and>
    limits n' = limits n \<and> node_kv V n' = reap (word_of_int clock) k (node_kv V n)"
proof -
  obtain n' where run: "fetch_local L clock k n = Return (Inr (logical (word_of_int clock) (node_kv V n) k), n')"
    using fetch_local_live [OF assms] by blast
  have "limits n' = limits n"
    by (subst fetch_local_sound(3) [OF run assms(3)]) (simp add: limits_def)
  then show ?thesis using run fetch_local_sound(2) [OF run assms(3)] by (auto simp: node_get_def)
qed

lemma decode_and_reap_live:
  assumes "admissible_key L k" and "values_wf (node_kv V n)" and "0 \<le> clock"
  shows "\<exists>n'. decode_and_reap L clock k (node_kv V n k) n =
    Return (Inr (logical (word_of_int clock) (node_kv V n) k), n')"
  using fetch_local_live [OF assms] sm_get_live [OF assms(1), of "node_sm n"]
  by (simp add: fetch_local_def node_kv_def)

text \<open>The two reads through the engine.\<close>

lemma remote_read_run:
  assumes "via_client rd n = (Inr (node_kv V n k), n1)" and "node_kv V n1 = node_kv V n" and "limits n1 = limits n"
    and "admissible_key L k" and "values_wf (node_kv V n)" and "0 \<le> clock"
  shows "\<exists>n'. (case via_client rd n of
        (Inl e, n') \<Rightarrow> Return (Inl e, n')
      | (Inr raw, n') \<Rightarrow> decode_and_reap L clock k raw n') =
      Return (Inr (logical (word_of_int clock) (node_kv V n) k), n') \<and>
    limits n' = limits n \<and> node_kv V n' = reap (word_of_int clock) k (node_kv V n)"
proof -
  obtain n' where run: "decode_and_reap L clock k (node_kv V n1 k) n1 =
      Return (Inr (logical (word_of_int clock) (node_kv V n1) k), n')"
    using decode_and_reap_live [OF assms(4) _ assms(6), of n1] assms(2,5) by auto
  have "limits n' = limits n1"
    by (subst decode_and_reap_sound(3) [OF run assms(6)]) (simp add: limits_def)
  then show ?thesis
    using run assms(1-3) decode_and_reap_sound(2) [OF run assms(6)] by auto
qed

lemma via_get_linearizable:
  assumes "admissible_key L k"
  shows "\<exists>n1. via_client (c_get_linearizable A k) n = (Inr (node_kv V n k), n1) \<and>
    node_kv V n1 = node_kv V n \<and> limits n1 = limits n"
proof -
  obtain r g s where raw: "c_get_linearizable A k (inner n, node_sm n) = (Inr r, g, s)"
    using linearizable_available [OF assms, of "(inner n, node_sm n)"] by (metis prod.collapse)
  show ?thesis
    using linearizable [OF raw] raw by (simp add: via_client_def node_kv_def limits_def)
qed

lemma via_get_lease:
  assumes "admissible_key L k"
  shows "\<exists>n1. via_client (c_get_lease A k) n = (Inr (node_kv V n k), n1) \<and>
    node_kv V n1 = node_kv V n \<and> limits n1 = limits n"
proof -
  obtain r g s where raw: "c_get_lease A k (inner n, node_sm n) = (Inr r, g, s)"
    using lease_available [OF assms, of "(inner n, node_sm n)"] by (metis prod.collapse)
  show ?thesis
    using lease [OF raw] raw by (simp add: via_client_def node_kv_def limits_def)
qed

lemma get_linearizable_run:
  assumes "admissible_key L k" and "values_wf (node_kv V n)" and "0 \<le> clock"
  shows "\<exists>n'. node_get_linearizable L A clock k n =
      Return (Inr (logical (word_of_int clock) (node_kv V n) k), n') \<and>
    limits n' = limits n \<and> node_kv V n' = reap (word_of_int clock) k (node_kv V n)"
proof -
  obtain n1 where "via_client (c_get_linearizable A k) n = (Inr (node_kv V n k), n1)"
    "node_kv V n1 = node_kv V n" "limits n1 = limits n"
    using via_get_linearizable [OF assms(1)] by blast
  then show ?thesis unfolding node_get_linearizable_def by (rule remote_read_run [OF _ _ _ assms])
qed

lemma get_lease_run:
  assumes "admissible_key L k" and "values_wf (node_kv V n)" and "0 \<le> clock"
  shows "\<exists>n'. node_get_lease L A clock k n =
      Return (Inr (logical (word_of_int clock) (node_kv V n) k), n') \<and>
    limits n' = limits n \<and> node_kv V n' = reap (word_of_int clock) k (node_kv V n)"
proof -
  obtain n1 where "via_client (c_get_lease A k) n = (Inr (node_kv V n k), n1)"
    "node_kv V n1 = node_kv V n" "limits n1 = limits n"
    using via_get_lease [OF assms(1)] by blast
  then show ?thesis unfolding node_get_lease_def by (rule remote_read_run [OF _ _ _ assms])
qed

end


section \<open>The single-node engine\<close>

context lmdb_live
begin

lemma solo_unit_live:
  "\<forall>k \<in> set (command_keys c). admissible_key L k \<Longrightarrow> \<exists>y. solo_unit L c x = (Inr (), y)"
  using solo_apply_live [of c "fst x" "snd x"] by (auto simp: solo_unit_def)

lemma solo_read_live: "admissible_key L k \<Longrightarrow> \<exists>r y. solo_read L k x = (Inr r, y)"
  using sm_get_live [of k "snd x"] by (cases x) (simp add: solo_read_def)

lemma solo_available: "available_client L V (solo_api L)"
proof (intro available_client.intro available_client_axioms.intro lmdb_live_axioms solo_leader)
  show "\<And>k e v x. admissible_key L k \<Longrightarrow> \<exists>b y. c_cas (solo_api L) k e v x = (Inr b, y)"
    subgoal for k e v x
      using solo_apply_live [of "CompareAndSwap k e v" "fst x" "snd x"] by (auto simp: solo_api_def)
    done
qed (simp_all add: solo_api_def solo_unit_live solo_read_live del: split_paired_Ex)

end

interpretation solo_mem: available_client mem_api mem_view "solo_api mem_api"
  by (rule mem.solo_available)

text \<open>The single-node engine leads from the start.\<close>

definition solo_engine :: "(u64, 'e, unit) engine_api" where
  "solo_engine =
    \<lparr>e_wait_ready = (\<lambda>_ x. (Inr (), x)), e_leader_info = (\<lambda>_. Some ()), e_is_leader = (\<lambda>_. True),
     e_membership = (\<lambda>_. \<lparr>mb_members = [1], mb_learners = [], mb_committed_index = 0\<rparr>)\<rparr>"

end
