(* ===== verification/Client_Reads.thy ===== *)
theory Client_Reads
  imports Available
begin

text \<open>
  Reads that take several steps: \<open>get_multi\<close>, whose reads each see the clock of their own moment
  and may remove expired values on the way, and the pagination loop the documentation of
  \<open>scan_prefix\<close> prescribes (pass the last key of a page to get the next one), which ends and
  collects the whole scan.
\<close>


section \<open>\<open>get_multi\<close>\<close>

lemma word_of_int_mono:
  assumes "0 \<le> c" and "c \<le> d" and "d < 2 ^ 64"
  shows "(word_of_int c :: u64) \<le> word_of_int d"
  using uint_clock [of c] uint_clock [of d] assms by (simp add: word_le_def)

context lmdb_live
begin

lemma fetch_local_step:
  assumes "admissible_key L k" and "values_wf (node_kv V n)" and "0 \<le> clock"
  shows "\<exists>n'. fetch_local L clock k n = Return (Inr (logical (word_of_int clock) (node_kv V n) k), n') \<and>
    node_kv V n' = reap (word_of_int clock) k (node_kv V n)"
  using fetch_local_live [OF assms] fetch_local_sound(2) [OF _ assms(3)] by blast

lemma get_multi_live:
  "\<forall>(c, k) \<in> set reads. admissible_key L k \<and> 0 \<le> c \<and> c < 2 ^ 64 \<Longrightarrow> sorted (map fst reads) \<Longrightarrow>
   values_wf (node_kv V n) \<Longrightarrow>
   \<exists>n'. node_get_multi L reads n =
      Return (Inr (map (\<lambda>(c, k). logical (word_of_int c) (node_kv V n) k) reads), n') \<and>
    (\<forall>now. (\<forall>(c, k) \<in> set reads. word_of_int c \<le> now) \<longrightarrow>
      logical now (node_kv V n') = logical now (node_kv V n))"
proof (induction reads arbitrary: n)
  case (Cons r reads)
  obtain c k where r: "r = (c, k)" by fastforce
  have ck: "admissible_key L k" "0 \<le> c" "c < 2 ^ 64" using Cons.prems(1) r by auto
  obtain n1 where n1: "fetch_local L c k n = Return (Inr (logical (word_of_int c) (node_kv V n) k), n1)"
    "node_kv V n1 = reap (word_of_int c) k (node_kv V n)"
    using fetch_local_step [OF ck(1) Cons.prems(3) ck(2)] by blast
  have later: "(word_of_int c :: u64) \<le> word_of_int d" if "(d, j) \<in> set reads" for d j
    using that Cons.prems(1,2) r ck by (intro word_of_int_mono) fastforce+
  obtain n2 where n2: "node_get_multi L reads n1 =
      Return (Inr (map (\<lambda>(c, k). logical (word_of_int c) (node_kv V n1) k) reads), n2)"
    "\<forall>now. (\<forall>(c, k) \<in> set reads. word_of_int c \<le> now) \<longrightarrow>
      logical now (node_kv V n2) = logical now (node_kv V n1)"
    using Cons.IH [of n1] Cons.prems n1(2) by auto
  have "map (\<lambda>(c, k). logical (word_of_int c) (node_kv V n1) k) reads =
      map (\<lambda>(c, k). logical (word_of_int c) (node_kv V n) k) reads"
    using n1(2) later logical_reap by (intro map_cong refl) auto
  then show ?case
    using n1 n2 logical_reap r by auto
qed simp

end


section \<open>The pagination loop\<close>

text \<open>Ask for pages of \<open>limit\<close> entries until one comes back short. \<open>None\<close> is running out of fuel.\<close>

fun collect_pages ::
  "('e, 't) lmdb_api \<Rightarrow> 'e state_machine \<Rightarrow> bytes \<Rightarrow> nat \<Rightarrow> scan_filter \<Rightarrow> nat \<Rightarrow> bytes option \<Rightarrow>
   (bytes \<times> bytes) list \<Rightarrow> (engine_error + (bytes \<times> bytes) list) option" where
  "collect_pages L s pfx limit filt 0 after acc = None"
| "collect_pages L s pfx limit filt (Suc fuel) after acc =
    (case scan_prefix_bounded L s pfx after (Some limit) filt of
       Inl e \<Rightarrow> Some (Inl e)
     | Inr page \<Rightarrow>
         (let acc' = acc @ scan_entries page
          in if length (scan_entries page) < limit then Some (Inr acc')
             else collect_pages L s pfx limit filt fuel (Some (fst (last (scan_entries page)))) acc'))"

lemma collect_pages_from:
  assumes "lmdb_live L V" and "p \<noteq> []" and "0 < limit"
    and all: "visible filt (prefix_items (kv_of V s) p None) = acc @ rest"
    and after: "after = (if acc = [] then None else Some (fst (last acc)))"
  shows "length rest < fuel * limit \<Longrightarrow> collect_pages L s p limit filt fuel after acc = Some (Inr (acc @ rest))"
  using all after
proof (induction fuel arbitrary: acc rest after)
  case (Suc fuel)
  have page: "scan_prefix_bounded L s p after (Some limit) filt =
      Inr \<lparr>scan_entries = take limit rest, scan_revision = last_applied_index s\<rparr>"
  proof (cases "acc = []")
    case True
    then show ?thesis
      using lmdb_live.scan_prefix_bounded_live [OF assms(1,2), of after s "Some limit" filt] Suc.prems(2,3)
      by (simp add: limit_cap_def)
  next
    case False
    then obtain k v where "last acc = (k, v)" by fastforce
    then have "visible filt (prefix_items (kv_of V s) p None) = butlast acc @ (k, v) # rest"
      using Suc.prems(2) append_butlast_last_id [OF False] by simp
    then show ?thesis
      using scan_prefix_pages [OF assms(1,2), of filt s "butlast acc" k v rest "Some limit"] Suc.prems(3) False
        \<open>last acc = (k, v)\<close> by (simp add: limit_cap_def)
  qed
  show ?case
  proof (cases "length rest < limit")
    case True
    then show ?thesis using page by simp
  next
    case False
    then have "take limit rest \<noteq> []" using assms(3) by auto
    moreover have "collect_pages L s p limit filt fuel (Some (fst (last (acc @ take limit rest)))) (acc @ take limit rest) =
        Some (Inr ((acc @ take limit rest) @ drop limit rest))"
      using Suc.IH [of "drop limit rest" "acc @ take limit rest"] Suc.prems(1,2) False \<open>take limit rest \<noteq> []\<close> by simp
    ultimately show ?thesis using page False by simp
  qed
qed simp


section \<open>Properties\<close>

text \<open>\<open>get_multi\<close> on a healthy disk returns one result per key, in the order of the keys, each
  the logical value of its key at the moment of its own read; the values it removes on the way
  (also of keys asked for twice) change none of them, nor any later read.\<close>

theorem get_multi_exact:
  assumes "lmdb_live L V" and "values_wf (node_kv V n)" and "sorted (map fst reads)"
    and "\<forall>(c, k) \<in> set reads. admissible_key L k \<and> 0 \<le> c \<and> c < 2 ^ 64"
  shows "\<exists>n'. node_get_multi L reads n =
      Return (Inr (map (\<lambda>(c, k). logical (word_of_int c) (node_kv V n) k) reads), n') \<and>
    (\<forall>now. (\<forall>(c, k) \<in> set reads. word_of_int c \<le> now) \<longrightarrow>
      logical now (node_kv V n') = logical now (node_kv V n))"
  by (rule lmdb_live.get_multi_live [OF assms(1,4,3,2)])

theorem get_multi_exact_witness:
  "\<exists>n'. node_get_multi mem_api [(4, [7]), (9, [7]), (9, [8]), (9, [7])]
      (demo_node [([7], encode_ttl [1] (Some 9)), ([8], encode_raw [2])]) =
    Return (Inr [Some [1], None, Some [2], None], n')"
proof -
  let ?n = "demo_node [([7], encode_ttl [1] (Some 9)), ([8], encode_raw [2])]"
  have "map (\<lambda>(c, k). logical (word_of_int c) (node_kv mem_view ?n) k) [(4, [7]), (9, [7]), (9, [8]), (9, [7])] =
      [Some [1], None, Some [2], None]"
    by (simp add: logical_def decode_live_value_def word_le_nat_alt)
  then show ?thesis
    using get_multi_exact [OF mem.lmdb_live_axioms, of ?n "[(4, [7]), (9, [7]), (9, [8]), (9, [7])]"] by auto
qed

text \<open>C13. The pagination loop ends and misses nothing: with any page size but zero, and fuel for one
  page more than the scan fills, it returns the entries of the unlimited scan, each once and in
  order.\<close>

theorem pagination_terminates:
  assumes "lmdb_live L V" and "p \<noteq> []" and "0 < limit"
    and "length (visible filt (prefix_items (kv_of V s) p None)) div limit < fuel"
  shows "collect_pages L s p limit filt fuel None [] =
    Some (Inr (visible filt (prefix_items (kv_of V s) p None)))"
proof -
  have "length (visible filt (prefix_items (kv_of V s) p None)) < fuel * limit"
    using assms(3,4) by (simp add: div_less_iff_less_mult)
  then show ?thesis using collect_pages_from [OF assms(1-3), where acc = "[]" and after = None] by simp
qed

theorem pagination_terminates_witness:
  "collect_pages mem_api scan_sm [2] 2 None 2 None [] = Some (Inr [([2], [0, 2]), ([2, 7], [0, 3]), ([2, 9], [0, 4])])"
proof -
  have "visible None (prefix_items (kv_of mem_view scan_sm) [2] None) =
      [([2], [0, 2]), ([2, 7], [0, 3]), ([2, 9], [0, 4])]"
    by (simp add: prefix_items_def scan_sm_items scan_data_def)
  then show ?thesis
    using pagination_terminates [OF mem.lmdb_live_axioms, of "[2]" 2 None scan_sm 2] by simp
qed

end
