(* ===== verification/Scan_Clock.thy ===== *)
theory Scan_Clock
  imports Node
begin

text \<open>
  Scans that take time. The filter of a scan, \<open>decode_for_scan\<close>, reads the system clock anew for every value
  with a TTL, so a long scan judges its entries at different times. Here \<open>clock j\<close> is the \<open>j\<close>-th
  reading of a scan. With a clock that stands still these are the scans of \<open>Dlmdb\<close>; with one that
  runs, the result lies between the scans at the first and at the last moment.
\<close>


section \<open>The filter and the loops\<close>

definition decode_at :: "(nat \<Rightarrow> int) \<Rightarrow> nat \<Rightarrow> bytes \<Rightarrow> (bytes option \<times> nat) exec" where
  "decode_at clock j raw =
    (case decode raw of
       Inr (Raw p) \<Rightarrow> Return (Some p, j)
     | Inr (Ttl ts p) \<Rightarrow>
         exec_bind (unix_now_secs (clock j)) (\<lambda>now_secs.
         Return (if now_secs < ts then Some p else None, Suc j))
     | Inl _ \<Rightarrow> Return (None, j))"

fun scan_loop_at ::
  "(nat \<Rightarrow> int) \<Rightarrow> nat \<Rightarrow> (heed_error + bytes \<times> bytes) list \<Rightarrow> bytes option \<Rightarrow> nat \<Rightarrow> (bytes \<times> bytes) list \<Rightarrow>
   (engine_error + (bytes \<times> bytes) list) exec" where
  "scan_loop_at clock j [] hi cap entries = Return (Inr entries)"
| "scan_loop_at clock j (result # rest) hi cap entries =
     (if cap \<le> length entries then Return (Inr entries)
      else case map_err lmdb_err result of
        Inl e \<Rightarrow> Return (Inl e)
      | Inr (k, v) \<Rightarrow>
          if reached_end hi k then Return (Inr entries)
          else exec_bind (decode_at clock j v) (\<lambda>(found, j').
            scan_loop_at clock j' rest hi cap
              (case found of Some p \<Rightarrow> entries @ [(k, p)] | None \<Rightarrow> entries)))"

definition scan_range_core_at ::
  "('e, 't) lmdb_api \<Rightarrow> (nat \<Rightarrow> int) \<Rightarrow> 'e state_machine \<Rightarrow> bound \<Rightarrow> bytes option \<Rightarrow> nat option \<Rightarrow>
   (engine_error + scan_result) exec" where
  "scan_range_core_at L clock s start hi limit =
    (case
       and_then (map_err lmdb_err (read_txn L (sm_env s))) (\<lambda>rtxn.
       map_err lmdb_err (db_range L rtxn DB_KV start Unbounded))
     of Inl e \<Rightarrow> Return (Inl e)
      | Inr iter \<Rightarrow>
          exec_bind (scan_loop_at clock 0 iter hi (limit_cap limit) []) (\<lambda>found.
          Return (map_ok (\<lambda>entries. \<lparr>scan_entries = entries, scan_revision = last_applied_index s\<rparr>) found)))"

fun rev_loop_at ::
  "(nat \<Rightarrow> int) \<Rightarrow> nat \<Rightarrow> (heed_error + bytes \<times> bytes) list \<Rightarrow> nat \<Rightarrow> (bytes \<times> bytes) list \<Rightarrow>
   (engine_error + (bytes \<times> bytes) list) exec" where
  "rev_loop_at clock j [] cap window = Return (Inr window)"
| "rev_loop_at clock j (result # rest) cap window =
     (case map_err lmdb_err result of
        Inl e \<Rightarrow> Return (Inl e)
      | Inr (k, v) \<Rightarrow>
          exec_bind (decode_at clock j v) (\<lambda>(found, j').
          rev_loop_at clock j' rest cap
            (case found of
               Some p \<Rightarrow> (if cap \<le> length window then tl window else window) @ [(k, p)]
             | None \<Rightarrow> window)))"

definition scan_range_rev_at ::
  "('e, 't) lmdb_api \<Rightarrow> (nat \<Rightarrow> int) \<Rightarrow> 'e state_machine \<Rightarrow> bytes \<Rightarrow> bytes \<Rightarrow> nat option \<Rightarrow>
   (engine_error + scan_result) exec" where
  "scan_range_rev_at L clock s start hi limit =
    (if start = [] then Return (Inr (empty_key_guard s))
     else case
       and_then (map_err lmdb_err (read_txn L (sm_env s))) (\<lambda>rtxn.
       map_err lmdb_err (db_range L rtxn DB_KV (Included start) (Excluded hi)))
     of Inl e \<Rightarrow> Return (Inl e)
      | Inr iter \<Rightarrow>
          exec_bind (rev_loop_at clock 0 iter (limit_cap limit) []) (\<lambda>found.
          Return (map_ok (\<lambda>window. \<lparr>scan_entries = rev window, scan_revision = last_applied_index s\<rparr>) found)))"


section \<open>The public scans\<close>

definition node_scan_all_at ::
  "('e, 't) lmdb_api \<Rightarrow> (nat \<Rightarrow> int) \<Rightarrow> nat option \<Rightarrow> ('g, 'e) node \<Rightarrow> (error + scan_result) exec" where
  "node_scan_all_at L clock limit n =
    exec_bind (scan_range_core_at L clock (node_sm n) Unbounded None limit) (\<lambda>r. Return (map_err EngineErr r))"

definition node_scan_range_at ::
  "('e, 't) lmdb_api \<Rightarrow> (nat \<Rightarrow> int) \<Rightarrow> bytes \<Rightarrow> bytes \<Rightarrow> nat option \<Rightarrow> ('g, 'e) node \<Rightarrow> (error + scan_result) exec"
where
  "node_scan_range_at L clock start hi limit n =
    (if start = [] then Return (Inr (empty_key_guard (node_sm n)))
     else exec_bind (scan_range_core_at L clock (node_sm n) (Included start) (Some hi) limit) (\<lambda>r.
       Return (map_err EngineErr r)))"

definition node_scan_prefix_at ::
  "('e, 't) lmdb_api \<Rightarrow> (nat \<Rightarrow> int) \<Rightarrow> bytes \<Rightarrow> bytes option \<Rightarrow> nat option \<Rightarrow> ('g, 'e) node \<Rightarrow>
   (error + scan_result) exec" where
  "node_scan_prefix_at L clock pfx after limit n =
    (if pfx = [] then Return (Inr (empty_key_guard (node_sm n)))
     else exec_bind
       (scan_range_core_at L clock (node_sm n) (case after of Some a \<Rightarrow> Excluded a | None \<Rightarrow> Included pfx)
         (next_prefix pfx) limit) (\<lambda>r.
       Return (map_err EngineErr r)))"

definition node_scan_range_rev_at ::
  "('e, 't) lmdb_api \<Rightarrow> (nat \<Rightarrow> int) \<Rightarrow> bytes \<Rightarrow> bytes \<Rightarrow> nat option \<Rightarrow> ('g, 'e) node \<Rightarrow> (error + scan_result) exec"
where
  "node_scan_range_rev_at L clock start hi limit n =
    exec_bind (scan_range_rev_at L clock (node_sm n) start hi limit) (\<lambda>r. Return (map_err EngineErr r))"


section \<open>A clock that stands still\<close>

lemma decode_at_still:
  "0 \<le> t \<Longrightarrow> \<exists>j'. decode_at (\<lambda>_. t) j b = Return (decode_for_scan (word_of_int t) b, j')"
  by (auto simp: decode_at_def decode_for_scan_def unix_now_ok split: sum.split wire_value.split)

lemma scan_loop_still:
  assumes "0 \<le> t"
  shows "scan_loop_at (\<lambda>_. t) j its hi cap acc =
    Return (scan_loop its hi cap (Some (decode_for_scan (word_of_int t))) acc)"
proof (induction its arbitrary: j acc)
  case (Cons result its)
  show ?case
  proof (cases result)
    case (Inr x)
    then obtain k b where x: "result = Inr (k, b)" by (cases x) auto
    obtain j' where "decode_at (\<lambda>_. t) j b = Return (decode_for_scan (word_of_int t) b, j')"
      using decode_at_still [OF assms] by blast
    then show ?thesis using Cons.IH by (simp add: x split: option.split)
  qed simp
qed simp

lemma rev_loop_still:
  assumes "0 \<le> t"
  shows "rev_loop_at (\<lambda>_. t) j its cap w = Return (rev_loop its cap (Some (decode_for_scan (word_of_int t))) w)"
proof (induction its arbitrary: j w)
  case (Cons result its)
  show ?case
  proof (cases result)
    case (Inr x)
    then obtain k b where x: "result = Inr (k, b)" by (cases x) auto
    obtain j' where "decode_at (\<lambda>_. t) j b = Return (decode_for_scan (word_of_int t) b, j')"
      using decode_at_still [OF assms] by blast
    then show ?thesis using Cons.IH by (simp add: x split: option.split)
  qed simp
qed simp

lemma core_still:
  assumes "0 \<le> t"
  shows "scan_range_core_at L (\<lambda>_. t) s start hi limit =
    Return (scan_range_core L s start hi limit (Some (decode_for_scan (word_of_int t))))"
  by (auto simp: scan_range_core_at_def scan_range_core_def and_then_def scan_loop_still [OF assms] split: sum.split)

lemma rev_still:
  assumes "0 \<le> t"
  shows "scan_range_rev_at L (\<lambda>_. t) s start hi limit =
    Return (scan_range_rev L s start hi limit (Some (decode_for_scan (word_of_int t))))"
  by (auto simp: scan_range_rev_at_def scan_range_rev_def and_then_def rev_loop_still [OF assms] split: sum.split)


section \<open>A clock that runs\<close>

text \<open>The entries the filter lets through at the time it comes to them.\<close>

fun seen_at :: "(nat \<Rightarrow> int) \<Rightarrow> nat \<Rightarrow> (bytes \<times> bytes) list \<Rightarrow> (bytes \<times> bytes) list" where
  "seen_at clock j [] = []"
| "seen_at clock j ((k, v) # xs) =
     (case decode v of
        Inr (Raw p) \<Rightarrow> (k, p) # seen_at clock j xs
      | Inr (Ttl ts p) \<Rightarrow>
          (if word_of_int (clock j) < ts then (k, p) # seen_at clock (Suc j) xs else seen_at clock (Suc j) xs)
      | Inl _ \<Rightarrow> seen_at clock j xs)"

lemma scan_loop_at_spec:
  assumes "\<And>j. 0 \<le> clock j"
  shows "scan_loop_at clock j (map Inr xs) hi cap acc =
    Return (Inr (acc @ take (cap - length acc) (seen_at clock j (takeWhile (\<lambda>(k, _). \<not> reached_end hi k) xs))))"
proof (induction xs arbitrary: j acc)
  case (Cons x xs)
  obtain k b where x: "x = (k, b)" by (cases x)
  consider "cap \<le> length acc" | "\<not> cap \<le> length acc" "reached_end hi k"
    | n where "cap - length acc = Suc n" "\<not> reached_end hi k"
    by (metis diff_is_0_eq not0_implies_Suc)
  then show ?case
  proof cases
    case (3 n)
    then have "n = cap - Suc (length acc)" by simp
    then show ?thesis
      using 3 Cons.IH assms by (auto simp: x decode_at_def unix_now_ok split: sum.split wire_value.split)
  qed (simp_all add: x)
qed simp

lemma rev_loop_at_spec:
  assumes "\<And>j. 0 \<le> clock j"
  shows "rev_loop_at clock j (map Inr xs) cap w = Return (rev_loop (map Inr (seen_at clock j xs)) cap None w)"
proof (induction xs arbitrary: j w)
  case (Cons x xs)
  obtain k b where "x = (k, b)" by (cases x)
  then show ?case
    using Cons.IH assms by (auto simp: decode_at_def unix_now_ok split: sum.split wire_value.split)
qed simp

text \<open>What is seen lies between what is visible at the last and at the first moment.\<close>

lemma seen_at_between:
  assumes "\<And>j. t0 \<le> word_of_int (clock j)" and "\<And>j. word_of_int (clock j) \<le> t1"
  shows "subseq (visible (Some (decode_for_scan t1)) xs) (seen_at clock j xs)"
    and "subseq (seen_at clock j xs) (visible (Some (decode_for_scan t0)) xs)"
proof -
  have "subseq (visible (Some (decode_for_scan t1)) xs) (seen_at clock j xs) \<and>
      subseq (seen_at clock j xs) (visible (Some (decode_for_scan t0)) xs)"
  proof (induction xs arbitrary: j)
    case (Cons x xs)
    obtain k b where x: "x = (k, b)" by (cases x)
    have "t0 < ts" if "word_of_int (clock j) < ts" for ts using assms(1) [of j] that by simp
    moreover have "word_of_int (clock j) < ts" if "t1 < ts" for ts using assms(2) [of j] that by simp
    ultimately show ?case
      using Cons.IH [of j] Cons.IH [of "Suc j"]
      by (auto simp: x decode_for_scan_def split: sum.split wire_value.split)
  qed simp
  then show "subseq (visible (Some (decode_for_scan t1)) xs) (seen_at clock j xs)"
    "subseq (seen_at clock j xs) (visible (Some (decode_for_scan t0)) xs)" by blast+
qed

context lmdb_live
begin

lemma core_at:
  assumes "\<And>j. 0 \<le> clock j" and "\<not> empty_start start"
  shows "scan_range_core_at L clock s start hi limit = Return (Inr
    \<lparr>scan_entries = take (limit_cap limit) (seen_at clock 0 (range_items (kv_of V s) start (end_bound hi))),
     scan_revision = last_applied_index s\<rparr>)"
proof -
  obtain t where t: "read_txn L (sm_env s) = Inr t" using read_txn_ok by blast
  have view: "txn_view V t DB_KV = kv_of V s" using read_txn [OF t] by (simp add: kv_of_def)
  show ?thesis
    using range_ok [OF assms(2), of t DB_KV Unbounded] t view
    by (simp add: scan_range_core_at_def scan_loop_at_spec [OF assms(1)] takeWhile_range_items)
qed

lemma rev_at:
  assumes "\<And>j. 0 \<le> clock j" and "start \<noteq> []"
  shows "scan_range_rev_at L clock s start hi limit = Return (Inr
    \<lparr>scan_entries = take (max 1 (limit_cap limit))
       (rev (seen_at clock 0 (range_items (kv_of V s) (Included start) (Excluded hi)))),
     scan_revision = last_applied_index s\<rparr>)"
proof -
  let ?xs = "range_items (kv_of V s) (Included start) (Excluded hi)"
  obtain t where t: "read_txn L (sm_env s) = Inr t" using read_txn_ok by blast
  have view: "txn_view V t DB_KV = kv_of V s" using read_txn [OF t] by (simp add: kv_of_def)
  have iter: "db_range L t DB_KV (Included start) (Excluded hi) = Inr (map Inr ?xs)"
    using range_ok [of "Included start" t DB_KV "Excluded hi"] assms(2) view by (simp add: empty_start_def)
  obtain es where es: "rev_loop (map Inr (seen_at clock 0 ?xs)) (limit_cap limit) None [] = Inr es"
    using rev_loop_total by blast
  have "es = last_n (max 1 (limit_cap limit)) (seen_at clock 0 ?xs)"
    using rev_loop_sound [OF es, of "seen_at clock 0 ?xs"] by (simp add: reads_as_def)
  then show ?thesis
    using t iter es assms(2) by (simp add: scan_range_rev_at_def rev_loop_at_spec [OF assms(1)] rev_last_n)
qed

end


section \<open>Properties\<close>

text \<open>With a clock that stands still, reading it anew for every value makes no difference: each of the four scans
  is, for every behaviour of the store, errors included, the scan that judges all its entries at one time.\<close>

theorem still_clock_scans:
  assumes "0 \<le> t"
  shows "node_scan_all_at L (\<lambda>_. t) limit n = Return (node_scan_all L (word_of_int t) limit n) \<and>
    node_scan_prefix_at L (\<lambda>_. t) p after limit n = Return (node_scan_prefix L (word_of_int t) p after limit n) \<and>
    node_scan_range_at L (\<lambda>_. t) start hi limit n = Return (node_scan_range L (word_of_int t) start hi limit n) \<and>
    node_scan_range_rev_at L (\<lambda>_. t) start hi limit n = Return (node_scan_range_rev L (word_of_int t) start hi limit n)"
  by (simp add: node_scan_all_at_def node_scan_all_def scan_all_def node_scan_prefix_at_def node_scan_prefix_def
      scan_prefix_bounded_def node_scan_range_at_def node_scan_range_def scan_range_def node_scan_range_rev_at_def
      node_scan_range_rev_def core_still [OF assms] rev_still [OF assms])

theorem still_clock_scans_witness:
  "node_scan_all_at mem_api (\<lambda>_. 5) (Some 7) (demo_node [([7], encode_raw [1])]) =
    Return (node_scan_all mem_api 5 (Some 7) (demo_node [([7], encode_raw [1])]))"
  using still_clock_scans [of 5 mem_api "Some 7" "demo_node [([7], encode_raw [1])]"] by simp

text \<open>C14. A scan over a running clock. Each reading lies between \<open>t0\<close> and \<open>t1\<close>. Then a prefix scan, or a
  backward scan, goes through a list of entries that has everything still visible at \<open>t1\<close>, nothing that was not
  visible at \<open>t0\<close>, all in key order, and returns the first \<open>limit\<close> of them.\<close>

theorem running_clock_scans:
  assumes "lmdb_live L V" and "\<And>j. 0 \<le> clock j" and "\<And>j. t0 \<le> word_of_int (clock j)"
    and "\<And>j. word_of_int (clock j) \<le> t1" and "p \<noteq> []" and "case after of None \<Rightarrow> True | Some a \<Rightarrow> p \<le> a"
    and "start \<noteq> []"
  shows "(\<exists>es. node_scan_prefix_at L clock p after limit n =
        Return (Inr \<lparr>scan_entries = take (limit_cap limit) es, scan_revision = last_applied_index (node_sm n)\<rparr>) \<and>
      subseq (visible (Some (live_value t1)) (prefix_items (node_kv V n) p after)) es \<and>
      subseq es (visible (Some (live_value t0)) (prefix_items (node_kv V n) p after))) \<and>
    (\<exists>es. node_scan_range_rev_at L clock start hi limit n =
        Return (Inr \<lparr>scan_entries = take (max 1 (limit_cap limit)) (rev es), scan_revision = last_applied_index (node_sm n)\<rparr>) \<and>
      subseq (visible (Some (live_value t1)) (range_items (node_kv V n) (Included start) (Excluded hi))) es \<and>
      subseq es (visible (Some (live_value t0)) (range_items (node_kv V n) (Included start) (Excluded hi))))"
proof -
  note between = seen_at_between [where clock = clock, OF assms(3,4), unfolded scan_filter_is_live_value]
  have "\<not> empty_start (case after of Some a \<Rightarrow> Excluded a | None \<Rightarrow> Included p)"
    using assms(5,6) by (auto simp: empty_start_def split: option.splits)
  note core = lmdb_live.core_at [where clock = clock, OF assms(1,2) this]
  have "node_scan_prefix_at L clock p after limit n = Return (Inr
      \<lparr>scan_entries = take (limit_cap limit) (seen_at clock 0 (prefix_items (node_kv V n) p after)),
       scan_revision = last_applied_index (node_sm n)\<rparr>)"
    using assms(5) prefix_range_items [OF assms(6), of "node_kv V n"]
    by (simp add: node_scan_prefix_at_def core node_kv_def)
  moreover have "node_scan_range_rev_at L clock start hi limit n = Return (Inr
      \<lparr>scan_entries = take (max 1 (limit_cap limit))
         (rev (seen_at clock 0 (range_items (node_kv V n) (Included start) (Excluded hi)))),
       scan_revision = last_applied_index (node_sm n)\<rparr>)"
    using lmdb_live.rev_at [where clock = clock, OF assms(1,2,7)] by (simp add: node_scan_range_rev_at_def node_kv_def)
  ultimately show ?thesis using between by blast
qed

text \<open>A value with expiry 6 is read at time 5 and one with expiry 3 at time 4.\<close>

theorem running_clock_scans_witness:
  "\<exists>es. node_scan_prefix_at mem_api (\<lambda>j. if j = 0 then 4 else 5) [7] None (Some 9)
      (demo_node [([7], encode_ttl [1] (Some 3)), ([7, 1], encode_ttl [2] (Some 6))]) =
    Return (Inr \<lparr>scan_entries = take 9 es, scan_revision = last_applied_index demo_sm\<rparr>) \<and> ([7, 1], [2]) \<in> set es"
proof -
  let ?n = "demo_node [([7], encode_ttl [1] (Some 3)), ([7, 1], encode_ttl [2] (Some 6))]"
  let ?clock = "\<lambda>j :: nat. if j = 0 then 4 else 5 :: int"
  have clock: "0 \<le> ?clock j" "(4 :: u64) \<le> word_of_int (?clock j)" "word_of_int (?clock j) \<le> (5 :: u64)" for j
    by (simp_all add: word_le_nat_alt)
  have "[7 :: u8] \<noteq> []" "case None of None \<Rightarrow> True | Some a \<Rightarrow> [7 :: u8] \<le> a" by simp_all
  note scan = running_clock_scans [where clock = ?clock and p = "[7]" and start = "[7]" and n = ?n and limit = "Some 9",
      OF mem.lmdb_live_axioms clock this this(1), THEN conjunct1]
  obtain es where es: "node_scan_prefix_at mem_api ?clock [7] None (Some 9) ?n =
      Return (Inr \<lparr>scan_entries = take (limit_cap (Some 9)) es, scan_revision = last_applied_index (node_sm ?n)\<rparr>)"
    and sub: "subseq (visible (Some (live_value 5)) (prefix_items (node_kv mem_view ?n) [7] None)) es"
    using scan by (elim exE conjE) (rule that)
  have "finite (dom (node_kv mem_view ?n))" by simp
  then have "([7, 1], [2]) \<in> set (visible (Some (live_value 5)) (prefix_items (node_kv mem_view ?n) [7] None))"
    by (auto simp: set_visible prefix_items_def set_items word_less_nat_alt)
  then have "([7, 1], [2]) \<in> set es" using sub unfolding subseq_singleton_left [symmetric] by (rule subseq_order.order_trans)
  moreover have "limit_cap (Some 9) = 9" "last_applied_index (node_sm ?n) = last_applied_index demo_sm"
    by (simp_all add: limit_cap_def demo_node_def)
  ultimately show ?thesis using es by auto
qed

end
