(* ===== verification/Cas_Loop.thy ===== *)
theory Cas_Loop
  imports Available
begin

text \<open>
  The read-modify-write loop the repository recommends in place of a read-write transaction (both
  example programs contain it): read a counter, add one, compare-and-swap, retry when the swap
  lost a race. The loop may run forever, so it is a partial function whose value \<open>None\<close> is "never
  returns". What other clients do between the read and the swap of round \<open>i\<close> is the function
  \<open>interfere i\<close>; the clock of that round is \<open>clock i\<close>.
\<close>


section \<open>Numbers in decimal\<close>

text \<open>
  \<open>str::parse::<u64>\<close>: an optional plus sign, then at least one digit, no overflow. On bytes that
  are not UTF-8 the source gives up before parsing; such bytes contain a byte that is no digit, so
  the result is the same.
\<close>

definition digit_value :: "u8 \<Rightarrow> nat option" where
  "digit_value b = (if 48 \<le> unat b \<and> unat b \<le> 57 then Some (unat b - 48) else None)"

fun parse_digits :: "bytes \<Rightarrow> nat \<Rightarrow> nat option" where
  "parse_digits [] acc = Some acc"
| "parse_digits (b # bs) acc =
    (case digit_value b of
       None \<Rightarrow> None
     | Some d \<Rightarrow>
         if acc * 10 + d < 2 ^ 64 then parse_digits bs (acc * 10 + d) else None)"

definition parse_u64 :: "bytes \<Rightarrow> u64 option" where
  "parse_u64 bs =
    (let ds = (case bs of [] \<Rightarrow> [] | c # rest \<Rightarrow> if c = 43 \<and> rest \<noteq> [] then rest else bs)
     in if ds = [] then None else map_option word_of_nat (parse_digits ds 0))"

definition u64_to_string :: "u64 \<Rightarrow> bytes" where
  "u64_to_string n = str_bytes (show_nat (unat n))"

text \<open>\<open>checks\<close> says whether the build traps the overflow of \<open>n + 1\<close>.\<close>

definition next_count :: "bool \<Rightarrow> bytes option \<Rightarrow> bytes exec" where
  "next_count checks current =
    (case Option.bind current parse_u64 of
       Some n \<Rightarrow> exec_bind (add_u64 checks n 1) (\<lambda>m. Return (u64_to_string m))
     | None \<Rightarrow> Return (str_bytes ''1''))"

lemma digit_value_char: "d < (10 :: nat) \<Longrightarrow> digit_value (of_char (char_of (48 + d) :: char)) = Some d"
proof -
  assume "d < 10"
  then have "d = 0 \<or> d = 1 \<or> d = 2 \<or> d = 3 \<or> d = 4 \<or> d = 5 \<or> d = 6 \<or> d = 7 \<or> d = 8 \<or> d = 9"
    by presburger
  then show ?thesis
    by (elim disjE) (simp_all add: digit_value_def char_of_def of_char_def bit_0)
qed

lemma parse_digits_append:
  "parse_digits (xs @ ys) acc = Option.bind (parse_digits xs acc) (parse_digits ys)"
  by (induction xs arbitrary: acc) (auto split: option.split)

lemma parse_digits_show: "n < 2 ^ 64 \<Longrightarrow> parse_digits (str_bytes (show_nat n)) 0 = Some n"
proof (induction n rule: show_nat.induct)
  case (1 n)
  show ?case
  proof (cases "n < 10")
    case True
    then show ?thesis
      using digit_value_char [of n] 1(2) by (subst show_nat.simps) (simp add: str_bytes_def)
  next
    case False
    have split: "n div 10 * 10 + n mod 10 = n" by simp
    have "parse_digits (str_bytes (show_nat (n div 10))) 0 = Some (n div 10)"
      using 1 False by simp
    then show ?thesis
      using False digit_value_char [of "n mod 10"] 1(2) split
      by (subst show_nat.simps) (simp add: str_bytes_def parse_digits_append)
  qed
qed

lemma show_nat_hd: "\<exists>d ds. d < (10 :: nat) \<and> str_bytes (show_nat n) = of_char (char_of (48 + d) :: char) # ds"
proof (induction n rule: show_nat.induct)
  case (1 n)
  show ?case
  proof (cases "n < 10")
    case True
    then show ?thesis by (subst show_nat.simps) (auto simp: str_bytes_def)
  next
    case False
    then show ?thesis using 1 by (subst show_nat.simps) (auto simp: str_bytes_def)
  qed
qed

text \<open>Printing a 64-bit number in decimal and parsing it back gives the number.\<close>

lemma parse_print_u64: "parse_u64 (u64_to_string n) = Some n"
proof -
  obtain d ds where d: "d < (10 :: nat)" and s: "u64_to_string n = of_char (char_of (48 + d) :: char) # ds"
    using show_nat_hd [of "unat n"] by (auto simp: u64_to_string_def)
  have "(of_char (char_of (48 + d) :: char) :: u8) \<noteq> 43"
    using digit_value_char [OF d] by (auto simp: digit_value_def)
  then have "parse_u64 (u64_to_string n) = map_option word_of_nat (parse_digits (u64_to_string n) 0)"
    by (simp add: parse_u64_def s)
  also have "parse_digits (u64_to_string n) 0 = Some (unat n)"
    unfolding u64_to_string_def by (rule parse_digits_show) (rule unat_u64_less)
  finally show ?thesis by simp
qed


text \<open>What a counter value stands for: the decimal number, or 0 when there is none.\<close>

definition number_at :: "bytes option \<Rightarrow> u64" where
  "number_at x = (case Option.bind x parse_u64 of Some c \<Rightarrow> c | None \<Rightarrow> 0)"

lemma number_at_printed [simp]: "number_at (Some (u64_to_string c)) = c"
  by (simp add: number_at_def parse_print_u64)

lemma max_u64: "2 ^ 64 \<le> unat c + unat (1 :: u64) \<longleftrightarrow> c = - 1" for c :: u64
proof -
  have "unat (- 1 :: u64) = 2 ^ 64 - 1"
    by (simp add: unsigned_minus_1_eq_mask mask_eq_exp_minus_1)
  then have "c = - 1 \<longleftrightarrow> unat c = 2 ^ 64 - 1" by (simp add: word_unat_eq_iff del: unsigned_minus_1_eq_mask)
  then show ?thesis using unat_u64_less [of c] by auto
qed

text \<open>The code counts up, an absent or unreadable value from 0, and traps or wraps at the largest number.\<close>

lemma next_count_value:
  "next_count checks x =
    (if checks \<and> number_at x = - 1 then Panic else Return (u64_to_string (number_at x + 1)))"
proof (cases "Option.bind x parse_u64")
  case None
  have "show_nat 1 = ''1''" by code_simp
  then have "u64_to_string 1 = str_bytes ''1''" by (simp add: u64_to_string_def)
  then show ?thesis using None by (simp add: next_count_def number_at_def)
next
  case (Some c)
  then have "next_count checks x = exec_bind (add_u64 checks c 1) (\<lambda>m. Return (u64_to_string m))" "number_at x = c"
    by (simp_all add: next_count_def number_at_def)
  then show ?thesis unfolding add_u64_def max_u64 by simp
qed


section \<open>The loop\<close>

datatype cas_error = ReadFailed error | SwapFailed error

text \<open>\<open>rd\<close> is the read of the round: \<open>get\<close> in one example, \<open>get_linearizable\<close> in the other.\<close>

type_synonym ('g, 'e) reader = "int \<Rightarrow> ('g, 'e) node \<Rightarrow> ((error + bytes option) \<times> ('g, 'e) node) exec"

definition cas_round ::
  "('g, 'e) reader \<Rightarrow> ('g, 'e) client_api \<Rightarrow> bool \<Rightarrow> bytes \<Rightarrow> int \<Rightarrow> (('g, 'e) node \<Rightarrow> ('g, 'e) node) \<Rightarrow>
   ('g, 'e) node \<Rightarrow> ((cas_error + bytes option) \<times> ('g, 'e) node) exec" where
  "cas_round rd A checks key clock interfere n =
    exec_bind (rd clock n) (\<lambda>(r, n1).
    (case r of
       Inl e \<Rightarrow> Return (Inl (ReadFailed e), n1)
     | Inr current \<Rightarrow>
         exec_bind (next_count checks current) (\<lambda>next_value.
         (case node_compare_and_swap A key current next_value (interfere n1) of
            (Inl e, n2) \<Rightarrow> Return (Inl (SwapFailed e), n2)
          | (Inr swapped, n2) \<Rightarrow> Return (Inr (if swapped then Some next_value else None), n2)))))"

partial_function (option) cas_loop ::
  "('g, 'e) reader \<Rightarrow> ('g, 'e) client_api \<Rightarrow> bool \<Rightarrow> bytes \<Rightarrow> (nat \<Rightarrow> int) \<Rightarrow>
   (nat \<Rightarrow> ('g, 'e) node \<Rightarrow> ('g, 'e) node) \<Rightarrow> nat \<Rightarrow> ('g, 'e) node \<Rightarrow>
   ((cas_error + bytes) \<times> ('g, 'e) node) exec option" where
  "cas_loop rd A checks key clock interfere i n =
    (case cas_round rd A checks key (clock i) (interfere i) n of
       Panic \<Rightarrow> Some Panic
     | Return (r, n') \<Rightarrow>
         (case r of
            Inl e \<Rightarrow> Some (Return (Inl e, n'))
          | Inr (Some v) \<Rightarrow> Some (Return (Inr v, n'))
          | Inr None \<Rightarrow> cas_loop rd A checks key clock interfere (Suc i) n'))"

text \<open>What both reads promise about a well-formed store.\<close>

definition reads_key :: "('e, 't) lmdb_view \<Rightarrow> bytes \<Rightarrow> ('g, 'e) reader \<Rightarrow> bool" where
  "reads_key V key rd \<longleftrightarrow>
     (\<forall>clock n. 0 \<le> clock \<longrightarrow> values_wf (node_kv V n) \<longrightarrow>
       (\<exists>n'. rd clock n = Return (Inr (logical (word_of_int clock) (node_kv V n) key), n') \<and>
         limits n' = limits n \<and> node_kv V n' = reap (word_of_int clock) key (node_kv V n)))"

text \<open>The key holds nothing or a value without TTL.\<close>

definition plain_at :: "bytes \<Rightarrow> kv \<Rightarrow> bool" where
  "plain_at key m \<longleftrightarrow> (\<exists>x. m key = map_option encode_raw x)"

lemma plain_at_simps:
  "m key = map_option encode_raw x \<Longrightarrow> logical now m key = x"
  "m key = map_option encode_raw x \<Longrightarrow> reap now key m = m"
  by (cases x; simp add: logical_def reap_def expired_def decode_live_value_def)+

lemma plain_at_upd [simp]: "plain_at key (m(key \<mapsto> encode_raw v))"
  unfolding plain_at_def by (rule exI [of _ "Some v"]) simp

context leader_client
begin

text \<open>A \<open>put\<close>, whatever it reports, leaves the store as it was or with the value written.\<close>

lemma node_put_attempt:
  assumes "node_put A k v n = (r, n')"
  shows "node_kv V n' = node_kv V n \<or> node_kv V n' = (node_kv V n)(k \<mapsto> encode_raw v)"
proof (cases "check_sizes k v n")
  case (Inr u)
  then obtain r0 g s where call: "c_put A k (encode_raw v) (inner n, node_sm n) = (r0, g, s)"
    and n': "n' = n\<lparr>inner := g, node_sm := s\<rparr>"
    using assms by (auto simp: node_put_def via_client_def split: prod.splits)
  have "attempted V (Insert k (encode_raw v) None) (node_sm n) s"
    using call put_failed committed_attempted [OF put_done] by (cases r0) auto
  then show ?thesis using n' by (auto simp: attempted_def node_kv_def)
qed (use assms in \<open>simp add: node_put_def\<close>)

end

context available_client
begin

lemma get_reads_key: "admissible_key L key \<Longrightarrow> reads_key V key (\<lambda>clock. node_get L clock key)"
  unfolding reads_key_def using get_run by blast

lemma get_linearizable_reads_key:
  "admissible_key L key \<Longrightarrow> reads_key V key (\<lambda>clock. node_get_linearizable L A clock key)"
  unfolding reads_key_def using get_linearizable_run by blast

text \<open>One round over a plain value.\<close>

lemma cas_round_plain:
  assumes "admissible_key L key" and "reads_key V key rd" and "0 \<le> clock"
    and "values_wf (node_kv V n)" and "node_kv V n key = map_option encode_raw x"
  shows "(next_count checks x = Panic \<and> cas_round rd A checks key clock f n = Panic) \<or>
    (\<exists>v n1 n2. next_count checks x = Return v \<and> node_kv V n1 = node_kv V n \<and>
      limits n1 = limits n \<and> limits n2 = limits (f n1) \<and>
      (if node_kv V (f n1) key = node_kv V n key
       then cas_round rd A checks key clock f n = Return (Inr (Some v), n2) \<and>
         node_kv V n2 = (node_kv V (f n1))(key \<mapsto> encode_raw v)
       else cas_round rd A checks key clock f n = Return (Inr None, n2) \<and>
         node_kv V n2 = node_kv V (f n1)))"
proof -
  obtain n1 where rd: "rd clock n = Return (Inr x, n1)"
    and same: "node_kv V n1 = node_kv V n" "limits n1 = limits n"
    using assms(2-4) plain_at_simps [of "node_kv V n" key x, OF assms(5)] unfolding reads_key_def by metis
  show ?thesis
  proof (cases "next_count checks x")
    case Panic
    then show ?thesis using rd by (simp add: cas_round_def)
  next
    case (Return v)
    obtain n2 where swap: "node_compare_and_swap A key x v (f n1) =
        (Inr (node_kv V (f n1) key = map_option encode_raw x), n2)"
      and lim: "limits n2 = limits (f n1)"
      and kv: "node_kv V n2 = (if node_kv V (f n1) key = map_option encode_raw x
        then (node_kv V (f n1))(key \<mapsto> encode_raw v) else node_kv V (f n1))"
      using cas_run [OF assms(1), of "map_option encode_raw x" "encode_raw v" "f n1"]
      by (auto simp: node_compare_and_swap_def)
    have "cas_round rd A checks key clock f n =
        Return (Inr (if node_kv V (f n1) key = map_option encode_raw x then Some v else None), n2)"
      by (simp add: cas_round_def rd Return swap)
    then show ?thesis
      using Return same lim kv assms(5) by (intro disjI2 exI [of _ v] exI [of _ n1] exI [of _ n2]) simp
  qed
qed

text \<open>One round of the loop: it panics, it wins, or it goes on in the contents the others left.\<close>

lemma cas_loop_round:
  assumes "admissible_key L key" and "reads_key V key rd" and "\<And>i. 0 \<le> clock i"
    and "values_wf (node_kv V n)" and "node_kv V n key = map_option encode_raw x"
  obtains (panic) "next_count checks x = Panic" "cas_loop rd A checks key clock interfere i n = Some Panic"
    | (won) v n1 n2 where "next_count checks x = Return v" "node_kv V n1 = node_kv V n" "limits n1 = limits n"
      "limits n2 = limits (interfere i n1)" "node_kv V (interfere i n1) key = node_kv V n key"
      "cas_loop rd A checks key clock interfere i n = Some (Return (Inr v, n2))"
      "node_kv V n2 = (node_kv V (interfere i n1))(key \<mapsto> encode_raw v)"
    | (lost) n1 n2 where "node_kv V n1 = node_kv V n" "limits n1 = limits n"
      "limits n2 = limits (interfere i n1)" "node_kv V (interfere i n1) key \<noteq> node_kv V n key"
      "cas_loop rd A checks key clock interfere i n = cas_loop rd A checks key clock interfere (Suc i) n2"
      "node_kv V n2 = node_kv V (interfere i n1)"
proof -
  note loop = cas_loop.simps [of rd A checks key clock interfere i n]
  consider "next_count checks x = Panic"
      "cas_round rd A checks key (clock i) (interfere i) n = Panic"
    | v n1 n2 where "next_count checks x = Return v" "node_kv V n1 = node_kv V n" "limits n1 = limits n"
      "limits n2 = limits (interfere i n1)"
      "if node_kv V (interfere i n1) key = node_kv V n key
       then cas_round rd A checks key (clock i) (interfere i) n = Return (Inr (Some v), n2) \<and>
         node_kv V n2 = (node_kv V (interfere i n1))(key \<mapsto> encode_raw v)
       else cas_round rd A checks key (clock i) (interfere i) n = Return (Inr None, n2) \<and>
         node_kv V n2 = node_kv V (interfere i n1)"
    using cas_round_plain [OF assms(1,2,3,4,5), of checks i "interfere i"] by blast
  then show thesis
  proof cases
    case 1
    then show thesis using loop by (intro panic) simp_all
  next
    case (2 v n1 n2)
    show thesis
    proof (cases "node_kv V (interfere i n1) key = node_kv V n key")
      case True
      then show thesis using 2 loop by (intro won [OF 2(1-4)]) simp_all
    next
      case False
      then show thesis using 2(5) loop by (intro lost [OF 2(2-4)]) simp_all
    qed
  qed
qed

lemma cas_loop_converges_from:
  assumes "admissible_key L key" and "reads_key V key rd" and "\<And>i. 0 \<le> clock i"
    and plain: "\<And>i. i \<le> k \<Longrightarrow> values_wf (s i) \<and> plain_at key (s i)"
    and others: "\<And>i m. i \<le> k \<Longrightarrow> node_kv V m = s i \<Longrightarrow> limits m = l \<Longrightarrow>
      node_kv V (interfere i m) = s (Suc i) \<and> limits (interfere i m) = l"
    and quiet: "s (Suc k) key = s k key"
  shows "i \<le> k \<Longrightarrow> node_kv V n = s i \<Longrightarrow> limits n = l \<Longrightarrow>
    (cas_loop rd A checks key clock interfere i n = Some Panic \<and>
      (\<exists>j x. j \<le> k \<and> s j key = map_option encode_raw x \<and> next_count checks x = Panic)) \<or>
    (\<exists>j x v n'. i \<le> j \<and> j \<le> k \<and> (\<forall>i'. i \<le> i' \<longrightarrow> i' < j \<longrightarrow> s (Suc i') key \<noteq> s i' key) \<and>
      cas_loop rd A checks key clock interfere i n = Some (Return (Inr v, n')) \<and>
      limits n' = l \<and> s (Suc j) key = s j key \<and>
      s (Suc j) key = map_option encode_raw x \<and> next_count checks x = Return v \<and>
      node_kv V n' = (s (Suc j))(key \<mapsto> encode_raw v))"
proof (induction "k - i" arbitrary: i n rule: less_induct)
  case less
  obtain x where x: "s i key = map_option encode_raw x"
    using plain [OF less.prems(1)] by (auto simp: plain_at_def)
  then have xn: "node_kv V n key = map_option encode_raw x" using less.prems(2) by simp
  have wf: "values_wf (node_kv V n)" using plain less.prems by simp
  from assms(1,2,3) wf xn show ?case
  proof (cases rule: cas_loop_round [where checks = checks and interfere = interfere and i = i and clock = clock])
    case panic
    then show ?thesis using x less.prems(1) by blast
  next
    case (won v n1 n2)
    have "node_kv V (interfere i n1) = s (Suc i)" "limits (interfere i n1) = l"
      using others [of i n1] less.prems won(2,3) by auto
    then show ?thesis
      using x won less.prems(1,2)
      by (intro disjI2 exI [of _ i] exI [of _ x] exI [of _ v] exI [of _ n2]) (simp del: fun_upd_apply)
  next
    case (lost n1 n2)
    then have next_s: "s (Suc i) key \<noteq> s i key" "node_kv V n2 = s (Suc i)" "limits n2 = l"
      using others [of i n1] less.prems by auto
    then have i: "Suc i \<le> k" using quiet less.prems(1) by (metis le_neq_implies_less Suc_leI)
    then have "k - Suc i < k - i" by simp
    note IH = less.hyps [OF this i next_s(2,3)]
    have mono: "\<forall>i'. i \<le> i' \<longrightarrow> i' < j \<longrightarrow> s (Suc i') key \<noteq> s i' key"
      if "\<forall>i'. Suc i \<le> i' \<longrightarrow> i' < j \<longrightarrow> s (Suc i') key \<noteq> s i' key" for j
      using that next_s(1) by (metis le_neq_implies_less Suc_leI)
    from IH show ?thesis
      unfolding lost(5) by (elim disj_forward ex_forward conj_forward) (assumption | erule Suc_leD | erule mono)+
  qed
qed

end


section \<open>Properties\<close>




lemma parse_41: "parse_u64 (str_bytes ''41'') = Some 41" and parse_9: "parse_u64 (str_bytes ''9'') = Some 9"
  by (simp_all add: parse_u64_def str_bytes_def digit_value_def of_char_def)


text \<open>A loop whose every round loses, by an invariant of the node, never returns.\<close>

lemma cas_loop_diverges:
  assumes round: "\<And>j m. I m \<Longrightarrow>
      \<exists>m'. cas_round rd A checks key (clock j) (interfere j) m = Return (Inr None, m') \<and> I m'"
    and "I n"
  shows "cas_loop rd A checks key clock interfere i n = None"
proof (rule ccontr)
  have no: "cas_loop rd' A' checks' key' clock' interfere' i n = Some res \<Longrightarrow>
      (rd', A', checks', key', clock', interfere') = (rd, A, checks, key, clock, interfere) \<longrightarrow> \<not> I n"
    for rd' A' checks' key' clock' interfere' i n res
  proof (rule cas_loop.raw_induct [where P = "\<lambda>rd' A' checks' key' clock' interfere' i n res.
      (rd', A', checks', key', clock', interfere') = (rd, A, checks, key, clock, interfere) \<longrightarrow> \<not> I n"],
      intro impI notI)
    fix loop rd' A' checks' key' clock' interfere' i n res
    assume IH: "\<And>rd' A' checks' key' clock' interfere' i n res.
        loop rd' A' checks' key' clock' interfere' i n = Some res \<Longrightarrow>
        (rd', A', checks', key', clock', interfere') = (rd, A, checks, key, clock, interfere) \<longrightarrow>
        \<not> I n"
      and run: "(case cas_round rd' A' checks' key' (clock' i) (interfere' i) n of
          Panic \<Rightarrow> Some Panic
        | Return (r, n') \<Rightarrow>
            (case r of Inl e \<Rightarrow> Some (Return (Inl e, n'))
             | Inr (Some v) \<Rightarrow> Some (Return (Inr v, n'))
             | Inr None \<Rightarrow> loop rd' A' checks' key' clock' interfere' (Suc i) n')) = Some res"
      and same: "(rd', A', checks', key', clock', interfere') = (rd, A, checks, key, clock, interfere)"
      and inv: "I n"
    obtain m' where "cas_round rd A checks key (clock i) (interfere i) n = Return (Inr None, m')" "I m'"
      using round [OF inv] by blast
    then show False using run same IH [of rd A checks key clock interfere "Suc i" m' res] by simp
  qed
  assume "cas_loop rd A checks key clock interfere i n \<noteq> None"
  then obtain res where "cas_loop rd A checks key clock interfere i n = Some res" by blast
  from no [OF this] show False using assms(2) by simp
qed

text \<open>One round over a value with a TTL: while it is live the swap is refused, since it compares the stored
  envelope with that of a value without TTL; from the expiry on the read removes the value and the
  count starts anew.\<close>

context available_client
begin

lemma cas_round_live_ttl:
  assumes "admissible_key L key" and "reads_key V key rd" and "0 \<le> clock" and "word_of_int clock < ts"
    and "values_wf (node_kv V n)" and "node_kv V n key = Some (encode_ttl p (Some ts))"
    and "next_count checks (Some p) = Return w"
  shows "\<exists>n'. cas_round rd A checks key clock (\<lambda>m. m) n = Return (Inr None, n') \<and> node_kv V n' = node_kv V n"
proof -
  have live: "\<not> expired (word_of_int clock) (node_kv V n) key"
    "logical (word_of_int clock) (node_kv V n) key = Some p"
    using assms(4,6) by (simp_all add: expired_iff logical_def not_le)
  then obtain n1 where n1: "rd clock n = Return (Inr (Some p), n1)" "node_kv V n1 = node_kv V n"
    using assms(2,3,5) unfolding reads_key_def reap_def by metis
  have "encode_ttl p (Some ts) \<noteq> encode_raw p" by (metis encode_raw_neq_ttl)
  then obtain n2 where "node_compare_and_swap A key (Some p) w n1 = (Inr False, n2)" "node_kv V n2 = node_kv V n1"
    using cas_run [OF assms(1), of "Some (encode_raw p)" "encode_raw w" n1] assms(6) n1(2)
    by (auto simp: node_compare_and_swap_def)
  then show ?thesis using n1 assms(7) by (simp add: cas_round_def)
qed

lemma cas_round_expired_ttl:
  assumes "admissible_key L key" and "reads_key V key rd" and "0 \<le> clock" and "ts \<le> word_of_int clock"
    and "values_wf (node_kv V n)" and "node_kv V n key = Some (encode_ttl p (Some ts))"
  shows "\<exists>n'. cas_round rd A checks key clock (\<lambda>m. m) n = Return (Inr (Some (str_bytes ''1'')), n') \<and>
    node_kv V n' = (node_kv V n)(key \<mapsto> encode_raw (str_bytes ''1''))"
proof -
  have over: "expired (word_of_int clock) (node_kv V n) key" using assms(4,6) by (auto simp: expired_iff)
  then obtain n1 where n1: "rd clock n = Return (Inr None, n1)" "node_kv V n1 = (node_kv V n)(key := None)"
    using assms(2,3,5) logical_expired [OF over] unfolding reads_key_def reap_def by metis
  obtain n2 where "node_compare_and_swap A key None (str_bytes ''1'') n1 = (Inr True, n2)"
    "node_kv V n2 = (node_kv V n1)(key \<mapsto> encode_raw (str_bytes ''1''))"
    using cas_run [OF assms(1), of None "encode_raw (str_bytes ''1'')" n1] n1(2)
    by (auto simp: node_compare_and_swap_def)
  then show ?thesis using n1 by (simp add: cas_round_def next_count_def)
qed

lemma cas_loop_outlasts_ttl:
  assumes "admissible_key L key" and "reads_key V key rd" and "\<And>i. 0 \<le> clock i"
    and "next_count checks (Some p) = Return w"
    and "\<And>i. i < m \<Longrightarrow> word_of_int (clock i) < ts" and "ts \<le> word_of_int (clock m)"
    and "values_wf kv0" and "kv0 key = Some (encode_ttl p (Some ts))"
  shows "i \<le> m \<Longrightarrow> node_kv V n = kv0 \<Longrightarrow>
    \<exists>n'. cas_loop rd A checks key clock (\<lambda>_ n. n) i n = Some (Return (Inr (str_bytes ''1''), n')) \<and>
      node_kv V n' = kv0(key \<mapsto> encode_raw (str_bytes ''1''))"
proof (induction "m - i" arbitrary: i n)
  case 0
  then have "i = m" by simp
  then show ?case
    using cas_round_expired_ttl [OF assms(1-3,6), of n p checks] assms(7,8) 0(3)
    by (subst cas_loop.simps) auto
next
  case (Suc d)
  then have "i < m" "d = m - Suc i" "Suc i \<le> m" by simp_all
  moreover obtain n1 where "cas_round rd A checks key (clock i) (\<lambda>n. n) n = Return (Inr None, n1)" "node_kv V n1 = kv0"
    using cas_round_live_ttl [OF assms(1-3) assms(5) [OF \<open>i < m\<close>], of n p checks w] assms(4,7,8) Suc.prems(2)
    by auto
  ultimately show ?case using Suc.hyps(1) [of "Suc i" n1] by (subst cas_loop.simps) simp
qed

end

text \<open>C30. On a value written with a TTL the loop spins until the value has expired, without any rival: it
  returns exactly if the clock of some round has reached the expiry, and then in the first such
  round, having removed the old counter and stored 1 in its place. While the clocks stay before the expiry it goes on for ever.\<close>

theorem cas_loop_spins_on_ttl:
  fixes n :: "('g, 'e) node"
  assumes "available_client L V A" and "admissible_key L key" and "reads_key V key rd"
    and "\<And>i. 0 \<le> clock i"
    and "values_wf (node_kv V n)" and "node_kv V n key = Some (encode_ttl p (Some ts))"
    and "\<not> (checks \<and> number_at (Some p) = - 1)"
  shows "(cas_loop rd A checks key clock (\<lambda>_ m. m) 0 n \<noteq> None \<longleftrightarrow> (\<exists>i. ts \<le> word_of_int (clock i))) \<and>
    (\<forall>r. cas_loop rd A checks key clock (\<lambda>_ m. m) 0 n = Some r \<longrightarrow>
      (\<exists>n'. r = Return (Inr (str_bytes ''1''), n') \<and>
        node_kv V n' = (node_kv V n)(key \<mapsto> encode_raw (str_bytes ''1''))))"
proof -
  obtain w where w: "next_count checks (Some p) = Return w" using assms(7) by (auto simp: next_count_value)
  show ?thesis
  proof (cases "\<exists>i. ts \<le> word_of_int (clock i)")
    case True
    define m where "m = (LEAST i. ts \<le> word_of_int (clock i))"
    have "ts \<le> word_of_int (clock m)" unfolding m_def using True by (rule LeastI_ex)
    moreover have "word_of_int (clock i) < ts" if "i < m" for i
      using not_less_Least [of i "\<lambda>i. ts \<le> word_of_int (clock i)"] that by (simp add: m_def not_le)
    ultimately show ?thesis
      using available_client.cas_loop_outlasts_ttl [where clock = clock and m = m and ts = ts and ?kv0.0 = "node_kv V n"
            and i = 0 and n = n, OF assms(1-4) w] assms(5,6) True
      by auto
  next
    case False
    then have "word_of_int (clock i) < ts" for i by (simp add: not_le)
    then have "\<exists>m'. cas_round rd A checks key (clock j) (\<lambda>m. m) m = Return (Inr None, m') \<and> node_kv V m' = node_kv V n"
      if "node_kv V m = node_kv V n" for j and m :: "('g, 'e) node"
      using available_client.cas_round_live_ttl [OF assms(1-3) assms(4) _ _ _ w, of j ts m] assms(5,6) that by simp
    then have "cas_loop rd A checks key clock (\<lambda>_ m. m) 0 n = None"
      by (rule cas_loop_diverges [where I = "\<lambda>m :: ('g, 'e) node. node_kv V m = node_kv V n"]) simp_all
    then show ?thesis using False by simp
  qed
qed

text \<open>A counter at 41 that expires at 9: at clock 5 for ever the loop never returns, and with a clock
  that shows 5, 6, 7 and so on it returns with 1.\<close>

theorem cas_loop_spins_on_ttl_witness:
  "cas_loop (\<lambda>clock. node_get mem_api clock [7]) (solo_api mem_api) True [7] (\<lambda>_. 5) (\<lambda>_ m. m) 0
    (demo_node [([7], encode_ttl (str_bytes ''41'') (Some 9))]) = None \<and>
   (\<exists>n'. cas_loop (\<lambda>clock. node_get mem_api clock [7]) (solo_api mem_api) True [7] (\<lambda>i. 5 + int i) (\<lambda>_ m. m) 0
    (demo_node [([7], encode_ttl (str_bytes ''41'') (Some 9))]) = Some (Return (Inr (str_bytes ''1''), n')))"
proof -
  have reads: "reads_key mem_view [7] (\<lambda>clock. node_get mem_api clock [7])"
    by (rule solo_mem.get_reads_key) simp
  have "number_at (Some (str_bytes ''41'')) = 41" by (simp add: number_at_def parse_41)
  then have spins: "(cas_loop (\<lambda>clock. node_get mem_api clock [7]) (solo_api mem_api) True [7] clock (\<lambda>_ m. m) 0
      (demo_node [([7], encode_ttl (str_bytes ''41'') (Some 9))]) \<noteq> None \<longleftrightarrow> (\<exists>i. 9 \<le> (word_of_int (clock i) :: u64))) \<and>
    (\<forall>r. cas_loop (\<lambda>clock. node_get mem_api clock [7]) (solo_api mem_api) True [7] clock (\<lambda>_ m. m) 0
      (demo_node [([7], encode_ttl (str_bytes ''41'') (Some 9))]) = Some r \<longrightarrow>
      (\<exists>n'. r = Return (Inr (str_bytes ''1''), n') \<and> node_kv mem_view n' =
        (node_kv mem_view (demo_node [([7], encode_ttl (str_bytes ''41'') (Some 9))]))([7] \<mapsto> encode_raw (str_bytes ''1''))))"
    if "\<And>i. 0 \<le> clock i" for clock
    using cas_loop_spins_on_ttl [OF solo_mem.available_client_axioms _ reads that, where
        n = "demo_node [([7], encode_ttl (str_bytes ''41'') (Some 9))]" and p = "str_bytes ''41''" and ts = 9 and checks = True]
    by simp
  have "(9 :: u64) \<le> word_of_int (5 + int 4)" by simp
  then have "\<exists>i. (9 :: u64) \<le> word_of_int (5 + int i)" by blast
  moreover have "\<not> (9 :: u64) \<le> word_of_int 5" by (simp add: word_le_nat_alt)
  ultimately show ?thesis
    using spins [of "\<lambda>_. 5"] spins [of "\<lambda>i. 5 + int i"] by fastforce
qed

end
