(* ===== verification/Program.thy ===== *)
theory Program
  imports Cas_Loop
begin

text \<open>
  Client programs of the database. A program runs on a state (the node) and the lines printed so
  far; it may not terminate (\<open>None\<close>), panic, return an error (the \<open>?\<close> operator) or a result. The
  triples \<open>runs\<close> say what a program returns, writes and prints on every node with given contents
  and limits; they have a rule per operation of the API, valid for every available client.
\<close>


section \<open>Programs\<close>

text \<open>A printed line is the list of the arguments of the formatting macro. \<open>Lossy\<close> stands for
  \<open>String::from_utf8_lossy\<close> of the bytes, \<open>Debug\<close> for the \<open>{:?}\<close> form of an error.\<close>

datatype piece = Lit string | Lossy bytes | Number nat | Truth bool | Debug error

datatype printed = Out "piece list" | Err "piece list"

type_synonym ('x, 'r) program =
  "'x \<times> printed list \<Rightarrow> ((error + 'r) \<times> 'x \<times> printed list) exec option"

definition result_of :: "'r \<Rightarrow> ('x, 'r) program" where
  "result_of r = (\<lambda>s. Some (Return (Inr r, s)))"

definition and_do :: "('x, 'a) program \<Rightarrow> ('a \<Rightarrow> ('x, 'b) program) \<Rightarrow> ('x, 'b) program" where
  "and_do p f = (\<lambda>s.
    (case p s of
       Some (Return (Inr x, s')) \<Rightarrow> f x s'
     | Some (Return (Inl e, s')) \<Rightarrow> Some (Return (Inl e, s'))
     | Some Panic \<Rightarrow> Some Panic
     | None \<Rightarrow> None))"

text \<open>A call of the API: total, possibly panicking, possibly not returning, or without effect.\<close>

definition call :: "('x \<Rightarrow> (error + 'r) \<times> 'x) \<Rightarrow> ('x, 'r) program" where
  "call f = (\<lambda>(n, out). (case f n of (r, n') \<Rightarrow> Some (Return (r, n', out))))"

definition call_exec :: "('x \<Rightarrow> ((error + 'r) \<times> 'x) exec) \<Rightarrow> ('x, 'r) program" where
  "call_exec f = (\<lambda>(n, out). Some (exec_bind (f n) (\<lambda>(r, n'). Return (r, n', out))))"

definition call_loop :: "('x \<Rightarrow> ((cas_error + 'r) \<times> 'x) exec option) \<Rightarrow> ('x, cas_error + 'r) program" where
  "call_loop f = (\<lambda>(n, out).
    map_option (\<lambda>res. exec_bind res (\<lambda>(r, n'). Return (Inr r, n', out))) (f n))"

definition query :: "('x \<Rightarrow> error + 'r) \<Rightarrow> ('x, 'r) program" where
  "query f = (\<lambda>(n, out). Some (Return (f n, n, out)))"

text \<open>The result of a program as a value, for code that looks at the error instead of passing it on.\<close>

definition attempt :: "('x, 'r) program \<Rightarrow> ('x, error + 'r) program" where
  "attempt p = (\<lambda>s.
    (case p s of
       Some (Return (r, s')) \<Rightarrow> Some (Return (Inr r, s'))
     | Some Panic \<Rightarrow> Some Panic
     | None \<Rightarrow> None))"

text \<open>What others do to the state before the program goes on.\<close>

definition meanwhile :: "('x \<Rightarrow> 'x) \<Rightarrow> ('x, unit) program" where
  "meanwhile f = (\<lambda>(n, out). Some (Return (Inr (), f n, out)))"

definition say :: "piece list \<Rightarrow> ('x, unit) program" where
  "say line = (\<lambda>(n, out). Some (Return (Inr (), n, out @ [Out line])))"

definition complain :: "piece list \<Rightarrow> ('x, unit) program" where
  "complain line = (\<lambda>(n, out). Some (Return (Inr (), n, out @ [Err line])))"

definition assert_that :: "bool \<Rightarrow> ('x, unit) program" where
  "assert_that b = (\<lambda>s. if b then Some (Return (Inr (), s)) else Some Panic)"

fun for_each :: "('a \<Rightarrow> ('x, unit) program) \<Rightarrow> 'a list \<Rightarrow> ('x, unit) program" where
  "for_each f [] = result_of ()"
| "for_each f (x # xs) = and_do (f x) (\<lambda>_. for_each f xs)"

definition when_some :: "'a option \<Rightarrow> ('a \<Rightarrow> ('x, unit) program) \<Rightarrow> ('x, unit) program" where
  "when_some v f = (case v of None \<Rightarrow> result_of () | Some x \<Rightarrow> f x)"


section \<open>Triples\<close>

definition runs ::
  "('e, 't) lmdb_view \<Rightarrow> nat \<times> nat \<times> path \<Rightarrow> kv \<Rightarrow> printed list \<Rightarrow> (('g, 'e) node, 'r) program \<Rightarrow>
   'r \<Rightarrow> kv \<Rightarrow> printed list \<Rightarrow> bool" where
  "runs V l m out p r m' out' \<longleftrightarrow>
     (\<forall>n. node_kv V n = m \<longrightarrow> limits n = l \<longrightarrow>
       (\<exists>n'. p (n, out) = Some (Return (Inr r, n', out')) \<and> node_kv V n' = m' \<and> limits n' = l))"

lemma runsD:
  "runs V l m out p r m' out' \<Longrightarrow> node_kv V n = m \<Longrightarrow> limits n = l \<Longrightarrow>
   \<exists>n'. p (n, out) = Some (Return (Inr r, n', out')) \<and> node_kv V n' = m' \<and> limits n' = l"
  by (simp add: runs_def)

lemma runs_result: "runs V l m out (result_of r) r m out"
  by (simp add: runs_def result_of_def)

lemma runs_and_do:
  fixes p :: "(('g, 'e) node, 'a) program"
  assumes "runs V l m out p x m1 out1" and "runs V l m1 out1 (f x) r m2 out2"
  shows "runs V l m out (and_do p f) r m2 out2"
  unfolding runs_def
proof (intro allI impI)
  fix n :: "('g, 'e) node"
  assume "node_kv V n = m" "limits n = l"
  then obtain n1 where "p (n, out) = Some (Return (Inr x, n1, out1))" "node_kv V n1 = m1" "limits n1 = l"
    using runsD [OF assms(1)] by blast
  then show "\<exists>n'. and_do p f (n, out) = Some (Return (Inr r, n', out2)) \<and> node_kv V n' = m2 \<and> limits n' = l"
    using runsD [OF assms(2), of n1] by (simp add: and_do_def)
qed

lemma runs_call:
  "(\<And>n. node_kv V n = m \<Longrightarrow> limits n = l \<Longrightarrow>
     \<exists>n'. f n = (Inr r, n') \<and> limits n' = limits n \<and> node_kv V n' = m') \<Longrightarrow>
   runs V l m out (call f) r m' out"
  unfolding runs_def call_def by fastforce

lemma runs_call_exec:
  "(\<And>n. node_kv V n = m \<Longrightarrow> limits n = l \<Longrightarrow>
     \<exists>n'. f n = Return (Inr r, n') \<and> limits n' = limits n \<and> node_kv V n' = m') \<Longrightarrow>
   runs V l m out (call_exec f) r m' out"
  unfolding runs_def call_exec_def by fastforce

lemma runs_query:
  "(\<And>n. node_kv V n = m \<Longrightarrow> f n = Inr r) \<Longrightarrow> runs V l m out (query f) r m out"
  by (simp add: runs_def query_def)

lemma runs_attempt: "runs V l m out p r m' out' \<Longrightarrow> runs V l m out (attempt p) (Inr r) m' out'"
  unfolding runs_def attempt_def by fastforce

lemma runs_say: "runs V l m out (say line) () m (out @ [Out line])"
  by (simp add: runs_def say_def)

lemma runs_meanwhile:
  "(\<And>n. node_kv V n = m \<Longrightarrow> limits n = l \<Longrightarrow> node_kv V (f n) = m' \<and> limits (f n) = l) \<Longrightarrow>
   runs V l m out (meanwhile f) () m' out"
  by (simp add: runs_def meanwhile_def)

lemma runs_assert: "b \<Longrightarrow> runs V l m out (assert_that b) () m out"
  by (simp add: runs_def assert_that_def)

lemma runs_when_some:
  "runs V l m out (f x) () m' out' \<Longrightarrow> runs V l m out (when_some (Some x) f) () m' out'"
  "runs V l m out (when_some None f) () m out"
  by (simp_all add: when_some_def runs_result)

lemma runs_for_each_say:
  "runs V l m out (for_each (\<lambda>x. say (line x)) xs) () m (out @ map (\<lambda>x. Out (line x)) xs)"
proof (induction xs arbitrary: out)
  case (Cons x xs)
  then show ?case
    using runs_and_do [OF runs_say [of V l m out "line x"] Cons.IH [of "out @ [Out (line x)]"]]
    by simp
qed (simp add: runs_result)

lemma runs_conseq:
  "runs V l m out p r' m1 out1 \<Longrightarrow> r' = r \<Longrightarrow> m1 = m' \<Longrightarrow> out1 = out' \<Longrightarrow> runs V l m out p r m' out'"
  by simp

lemmas runs_control = runs_result runs_say runs_assert runs_attempt runs_when_some runs_for_each_say


section \<open>Rules for the operations\<close>

text \<open>The entries of a map among the keys of a sorted list, when no other key of the set is bound.\<close>

lemma items_filter_unique:
  assumes "finite (dom m)" and "sorted_keys xs" and "\<And>k v. (k, v) \<in> set xs \<longleftrightarrow> m k = Some v \<and> P k"
  shows "filter (\<lambda>(k, _). P k) (items m) = xs"
proof -
  let ?ys = "filter (\<lambda>(k, _). P k) (items m)"
  have sorted: "sorted_keys ?ys" by (rule sorted_filter_keys) (rule sorted_items)
  have "map_of ys k = Some v \<longleftrightarrow> (k, v) \<in> set ys" if "sorted_keys ys" for ys k v
    using that by (simp add: map_of_eq_Some_iff strict_sorted_iff)
  then have "map_of ?ys k = Some v \<longleftrightarrow> map_of xs k = Some v" for k v
    using assms sorted set_items [OF assms(1)] by auto
  then have "map_of ?ys = map_of xs" by (intro ext) (metis option.exhaust)
  then show ?thesis using items_map_of [OF sorted] items_map_of [OF assms(2)] by metis
qed

lemma plain_at_cases [simp]:
  "plain_at k (m(j := x)) \<longleftrightarrow> (if j = k then (\<exists>y. x = map_option encode_raw y) else plain_at k m)"
  "\<exists>y. Some (encode_raw v) = map_option encode_raw y" "\<exists>y. None = map_option encode_raw y"
  by (auto simp: plain_at_def intro: exI [of _ "Some v"])

text \<open>What a read returns for a plain value or an absent key, without changing the store.\<close>

context available_client
begin

lemma runs_put:
  assumes "admissible_key L k" and "length k \<le> fst l" and "length v \<le> fst (snd l)"
  shows "runs V l m out (call (node_put A k v)) () (m(k \<mapsto> encode_raw v)) out"
  by (rule runs_call) (use put_run assms in \<open>auto simp: limits_def\<close>)

lemma runs_put_with_ttl:
  assumes "admissible_key L k" and "length k \<le> fst l" and "length v \<le> fst (snd l)"
    and "0 \<le> clock" and "clock + uint ttl < 2 ^ 64"
  shows "runs V l m out (call_exec (node_put_with_ttl checks A clock k v ttl)) ()
    (m(k \<mapsto> encode_ttl v (Some (word_of_int clock + ttl)))) out"
  by (rule runs_call_exec) (use put_with_ttl_run assms in \<open>auto simp: limits_def\<close>)

lemma runs_delete:
  "admissible_key L k \<Longrightarrow> runs V l m out (call (node_delete A k)) () (m(k := None)) out"
  by (rule runs_call) (use delete_run in blast)

lemma runs_batch:
  "\<forall>op \<in> set ops. admissible_key L (op_key op) \<Longrightarrow>
   runs V l m out (call (node_batch A ops)) () (fold spec_op (map encode_op ops) m) out"
  by (rule runs_call) (use batch_run in blast)

lemma runs_put_if_absent:
  "admissible_key L k \<Longrightarrow> m k = None \<Longrightarrow>
   runs V l m out (call (node_put_if_absent A k v)) True (m(k \<mapsto> encode_raw v)) out"
  by (rule runs_call) (use cas_run [of k None "encode_raw v"] in \<open>force simp: node_put_if_absent_def\<close>)

lemma runs_get:
  assumes "admissible_key L k" and "values_wf m" and "0 \<le> clock" and "m k = map_option encode_raw x"
  shows "runs V l m out (call_exec (node_get L clock k)) x m out"
  by (rule runs_call_exec) (use get_run assms plain_at_simps [of m k x, OF assms(4)] in metis)

lemma runs_get_linearizable:
  assumes "admissible_key L k" and "values_wf m" and "0 \<le> clock" and "m k = map_option encode_raw x"
  shows "runs V l m out (call_exec (node_get_linearizable L A clock k)) x m out"
  by (rule runs_call_exec) (use get_linearizable_run assms plain_at_simps [of m k x, OF assms(4)] in metis)

lemma runs_exists:
  assumes "admissible_key L k" and "values_wf m" and "0 \<le> clock" and "m k = map_option encode_raw x"
  shows "runs V l m out (call_exec (node_exists L clock k :: ('x, 'e) node \<Rightarrow> _)) (x \<noteq> None) m out"
proof (rule runs_call_exec)
  fix n :: "('x, 'e) node"
  assume "node_kv V n = m"
  then obtain n' where "fetch_local L clock k n = Return (Inr x, n')" "limits n' = limits n" "node_kv V n' = m"
    using get_run [OF assms(1), of n clock] assms(2-4) plain_at_simps [of m k x, OF assms(4)]
    by (auto simp: node_get_def)
  then show "\<exists>n'. node_exists L clock k n = Return (Inr (x \<noteq> None), n') \<and>
      limits n' = limits n \<and> node_kv V n' = m"
    by (simp add: node_exists_def)
qed

lemma runs_scan_prefix:
  assumes "p \<noteq> []" and "case after of None \<Rightarrow> True | Some a \<Rightarrow> p \<le> a"
    and "sorted_keys xs" and "\<And>k v. (k, v) \<in> set xs \<longleftrightarrow> m k = Some v \<and> prefix p k \<and>
      (case after of None \<Rightarrow> True | Some a \<Rightarrow> a < k)"
  shows "runs V l m out (query (\<lambda>n :: ('x, 'e) node. map_ok scan_entries (node_scan_prefix L now p after limit n)))
    (take (limit_cap limit) (visible (Some (decode_for_scan now)) xs)) m out"
proof (rule runs_query)
  fix n :: "('x, 'e) node"
  assume m: "node_kv V n = m"
  have "prefix_items m p after = xs"
    unfolding prefix_items_def
    by (rule items_filter_unique [OF _ assms(3,4)]) (use m finite_env in \<open>auto simp: node_kv_def kv_of_def\<close>)
  then show "map_ok scan_entries (node_scan_prefix L now p after limit n) =
      Inr (take (limit_cap limit) (visible (Some (decode_for_scan now)) xs))"
    using scan_prefix_bounded_live [OF assms(1,2), of "node_sm n" limit "Some (decode_for_scan now)"] m
    by (simp add: node_scan_prefix_def node_kv_def)
qed

lemma runs_scan_range:
  assumes "start \<noteq> []" and "sorted_keys xs"
    and "\<And>k v. (k, v) \<in> set xs \<longleftrightarrow> m k = Some v \<and> start \<le> k \<and> k < hi"
  shows "runs V l m out (query (\<lambda>n :: ('x, 'e) node. map_ok scan_entries (node_scan_range L now start hi limit n)))
    (take (limit_cap limit) (visible (Some (decode_for_scan now)) xs)) m out"
proof (rule runs_query)
  fix n :: "('x, 'e) node"
  assume m: "node_kv V n = m"
  have "filter (\<lambda>(k, _). start \<le> k \<and> k < hi) (items m) = xs"
    by (rule items_filter_unique [OF _ assms(2,3)]) (use m finite_env in \<open>auto simp: node_kv_def kv_of_def\<close>)
  then show "map_ok scan_entries (node_scan_range L now start hi limit n) =
      Inr (take (limit_cap limit) (visible (Some (decode_for_scan now)) xs))"
    using scan_range_live [of "node_sm n" start "Some hi" limit "Some (decode_for_scan now)"] assms(1) m
    by (simp add: node_scan_range_def node_kv_def)
qed

lemma runs_cas_loop:
  assumes "admissible_key L k" and "reads_key V k rd" and "\<And>i. 0 \<le> clock i"
    and "values_wf m" and "m k = map_option encode_raw x" and "next_count checks x = Return v"
  shows "runs V l m out (call_loop (cas_loop rd A checks k clock (\<lambda>_ n. n) 0)) (Inr v) (m(k \<mapsto> encode_raw v)) out"
  unfolding runs_def
proof (intro allI impI)
  fix n :: "('g, 'e) node"
  assume n: "node_kv V n = m" "limits n = l"
  obtain n1 n2 where "cas_round rd A checks k (clock 0) (\<lambda>n. n) n = Return (Inr (Some v), n2)"
    "node_kv V n2 = m(k \<mapsto> encode_raw v)" "limits n2 = l"
    using cas_round_plain [OF assms(1,2) assms(3) [of 0], of n x checks "\<lambda>n. n"] assms(4-6) n by auto
  then show "\<exists>n'. call_loop (cas_loop rd A checks k clock (\<lambda>_ n. n) 0) (n, out) = Some (Return (Inr (Inr v), n', out)) \<and>
      node_kv V n' = m(k \<mapsto> encode_raw v) \<and> limits n' = l"
    by (subst call_loop_def, subst cas_loop.simps) simp
qed

text \<open>The loop against rivals that move the store along \<open>s\<close> and change the key in every round
  before \<open>k\<close>.\<close>

lemma runs_cas_loop_rivals:
  assumes "admissible_key L key" and "reads_key V key rd" and "\<And>i. 0 \<le> clock i"
    and "\<And>i. i \<le> k \<Longrightarrow> values_wf (s i) \<and> plain_at key (s i)"
    and others: "\<And>i n. i \<le> k \<Longrightarrow> node_kv V n = s i \<Longrightarrow> limits n = l \<Longrightarrow>
      node_kv V (interfere i n) = s (Suc i) \<and> limits (interfere i n) = l"
    and "\<And>i. i < k \<Longrightarrow> s (Suc i) key \<noteq> s i key" and "s (Suc k) key = s k key"
    and "\<And>i x. i \<le> k \<Longrightarrow> s i key = map_option encode_raw x \<Longrightarrow> next_count checks x \<noteq> Panic"
    and "s k key = map_option encode_raw y" and "next_count checks y = Return v" and "s 0 = m"
  shows "runs V l m out (call_loop (cas_loop rd A checks key clock interfere 0)) (Inr v)
    ((s (Suc k))(key \<mapsto> encode_raw v)) out"
  unfolding runs_def
proof (intro allI impI)
  fix n :: "('g, 'e) node"
  assume n: "node_kv V n = m" "limits n = l"
  have "\<exists>j x v' n'. j \<le> k \<and>
      cas_loop rd A checks key clock interfere 0 n = Some (Return (Inr v', n')) \<and>
      limits n' = l \<and> s (Suc j) key = s j key \<and>
      s (Suc j) key = map_option encode_raw x \<and> next_count checks x = Return v' \<and>
      node_kv V n' = (s (Suc j))(key \<mapsto> encode_raw v')"
    using cas_loop_converges_from [of key rd clock k s l interfere 0 n checks] assms(1-5,7,8,11) n
    by blast
  then obtain j x v' n' where j: "j \<le> k" and ret: "cas_loop rd A checks key clock interfere 0 n = Some (Return (Inr v', n'))"
    and n': "limits n' = l" "node_kv V n' = (s (Suc j))(key \<mapsto> encode_raw v')"
    and x: "s (Suc j) key = s j key" "s (Suc j) key = map_option encode_raw x" "next_count checks x = Return v'"
    by blast
  have "j = k" using assms(6) [of j] j x(1) by (cases "j < k") auto
  moreover from this have "x = y" using x assms(9) by (cases x; cases y) auto
  ultimately show "\<exists>n'. call_loop (cas_loop rd A checks key clock interfere 0) (n, out) =
      Some (Return (Inr (Inr v), n', out)) \<and>
      node_kv V n' = (s (Suc k))(key \<mapsto> encode_raw v) \<and> limits n' = l"
    using ret n' x(3) assms(10) by (simp add: call_loop_def)
qed

text \<open>The rules with the value read off the store, for running whole programs.\<close>

lemma runs_get_Some:
  "admissible_key L k \<Longrightarrow> values_wf m \<Longrightarrow> 0 \<le> clock \<Longrightarrow> m k = Some (encode_raw v) \<Longrightarrow>
   runs V l m out (call_exec (node_get L clock k)) (Some v) m out"
  by (rule runs_get) simp_all

lemma runs_get_linearizable_Some:
  "admissible_key L k \<Longrightarrow> values_wf m \<Longrightarrow> 0 \<le> clock \<Longrightarrow> m k = Some (encode_raw v) \<Longrightarrow>
   runs V l m out (call_exec (node_get_linearizable L A clock k)) (Some v) m out"
  by (rule runs_get_linearizable) simp_all

lemma runs_exists_plain:
  assumes "admissible_key L k" and "values_wf m" and "0 \<le> clock" and "plain_at k m"
  shows "runs V l m out (call_exec (node_exists L clock k)) (m k \<noteq> None) m out"
proof -
  obtain x where x: "m k = map_option encode_raw x" using assms(4) by (auto simp: plain_at_def)
  then show ?thesis using runs_exists [OF assms(1-3) x] by simp
qed

lemmas runs_api = runs_put runs_put_with_ttl runs_delete runs_batch runs_put_if_absent runs_get_Some
  runs_get_linearizable_Some runs_exists_plain

end


section \<open>An engine that becomes ready\<close>

locale ready_client = available_client L V A
  for L :: "('e, 't) lmdb_api" and V :: "('e, 't) lmdb_view" and A :: "('g, 'e) client_api" +
  fixes E :: "('g, 'e, 'l) engine_api"
  assumes wait_ready: "\<exists>g s. e_wait_ready E timeout x = (Inr (), g, s) \<and> kv_of V s = kv_of V (snd x)"
begin

lemma runs_wait_ready: "runs V l m out (call (node_wait_ready E timeout)) () m out"
proof (rule runs_call)
  fix n :: "('g, 'e) node"
  assume "node_kv V n = m"
  then show "\<exists>n'. node_wait_ready E timeout n = (Inr (), n') \<and> limits n' = limits n \<and> node_kv V n' = m"
    using wait_ready [of timeout "(inner n, node_sm n)"]
    by (auto simp: node_wait_ready_def limits_def node_kv_def)
qed

end

interpretation solo_ready: ready_client mem_api mem_view "solo_api mem_api" solo_engine
  by unfold_locales (auto simp: solo_engine_def)


section \<open>Whole programs\<close>

text \<open>
  Open a node, run the body, close the node. An error ends the program; the node is then dropped
  and its lock freed. The result has the printed lines, the state machine as closed and the locks
  held afterwards.
\<close>

type_synonym 'e main_result = "((error + 'e state_machine) \<times> printed list \<times> path set) exec option"

definition run_main ::
  "('e, 't) lmdb_api \<Rightarrow> ('g \<times> 'e state_machine \<Rightarrow> (engine_error + unit) \<times> 'e state_machine) \<Rightarrow>
   (('g, 'e) node, unit) program \<Rightarrow> (error + ('g, 'e) node) \<times> path set \<Rightarrow> 'e main_result" where
  "run_main L stop body opened =
    (case opened of
       (Inl e, held) \<Rightarrow> Some (Return (Inl e, [], held))
     | (Inr n, held) \<Rightarrow>
         (case body (n, []) of
            None \<Rightarrow> None
          | Some Panic \<Rightarrow> Some Panic
          | Some (Return (Inl e, n', out)) \<Rightarrow>
              Some (Return (Inl e, out, release (data_dir_lock n') held))
          | Some (Return (Inr _, n', out)) \<Rightarrow>
              (case node_close L stop n' held of
                 (Inl e, s, held') \<Rightarrow> Some (Return (Inl e, out, held'))
               | (Inr _, s, held') \<Rightarrow> Some (Return (Inr s, out, held')))))"

context lmdb
begin

lemma sm_drop_kv: "kv_of V (sm_drop L s) = kv_of V s"
proof (cases "persist_last_applied L (last_applied s) s")
  case (Pair r s')
  show ?thesis
  proof (cases r)
    case (Inl e)
    then show ?thesis
      using Pair by (auto simp: sm_drop_def persist_last_applied_def split: sum.splits)
  next
    case (Inr u)
    then have "persist_last_applied L (last_applied s) s = (Inr (), s')" using Pair by simp
    from persist_refines(1) [OF this] show ?thesis
      using Pair by (simp add: sm_drop_def kv_of_def with_last_applied_def)
  qed
qed

lemma run_main_ok:
  assumes "runs V (limits n) (node_kv V n) [] body () m out"
    and "\<And>x. fst (stop x) = Inr () \<and> kv_of V (snd (stop x)) = kv_of V (snd x)"
  shows "\<exists>s. run_main L stop body (Inr n, held) = Some (Return (Inr s, out, release (data_dir_lock n) held)) \<and>
    kv_of V s = m"
proof -
  obtain n' where body: "body (n, []) = Some (Return (Inr (), n', out))"
    and n': "node_kv V n' = m" "limits n' = limits n"
    using runsD [OF assms(1) refl refl] by metis
  obtain s where stop: "stop (inner n', node_sm n') = (Inr (), s)" "kv_of V s = node_kv V n'"
    using assms(2) [of "(inner n', node_sm n')"] by (metis node_kv_def prod.collapse snd_conv)
  show ?thesis
    using body stop n' sm_drop_kv [of s] by (simp add: run_main_def node_close_def limits_def)
qed

end



section \<open>Keys written in the program text\<close>

lemma unat_of_char: "unat (of_char c :: u8) = of_char c"
  by (metis nat_of_char_less_256 of_nat_of_char unat_word_of_nat_byte)

lemma of_char_u8_inject: "(of_char c :: u8) = of_char d \<longleftrightarrow> c = d"
  by (metis of_char_eq_iff unat_of_char)

lemma str_bytes_eq [simp]: "str_bytes s = str_bytes t \<longleftrightarrow> s = t"
  by (simp add: str_bytes_def inj_map_eq_map inj_def of_char_u8_inject)

lemma prefix_str_bytes [simp]: "prefix (str_bytes s) (str_bytes t) \<longleftrightarrow> prefix s t"
  unfolding str_bytes_def
proof (induction s arbitrary: t)
  case (Cons c s)
  then show ?case by (cases t) (simp_all add: of_char_u8_inject)
qed simp

lemma str_bytes_Nil [simp]: "str_bytes s = [] \<longleftrightarrow> s = []"
  by (simp add: str_bytes_def)

lemma between_prefix: "p @ a \<le> k \<Longrightarrow> k < p @ b \<Longrightarrow> prefix p (k :: bytes)"
proof (induction p arbitrary: k)
  case (Cons x p)
  then show ?case by (cases k) auto
qed simp

end
