(* ===== verification/Example_Single.thy ===== *)
theory Example_Single
  imports Program
begin

text \<open>
  The example program \<open>examples/single-node/single_node.rs\<close>, section by section, as a program over
  the API. Each reading of the system clock is a value of its own: \<open>clock 0\<close>, \<open>clock 1\<close> and so on,
  in no given order. The main result runs it to the end
  on every available client and gives every line it prints and the contents it leaves.
\<close>


section \<open>The program\<close>

definition single_basic ::
  "('e, 't) lmdb_api \<Rightarrow> ('g, 'e) client_api \<Rightarrow> (nat \<Rightarrow> int) \<Rightarrow> (('g, 'e) node, unit) program" where
  "single_basic L A clock =
    and_do (call (node_put A (str_bytes ''user:1'') (str_bytes ''alice''))) (\<lambda>_.
    and_do (call (node_put A (str_bytes ''user:2'') (str_bytes ''bob''))) (\<lambda>_.
    and_do (call_exec (node_get L (clock 0) (str_bytes ''user:1''))) (\<lambda>user1.
    and_do (when_some user1 (\<lambda>v. say [Lit ''user:1 = '', Lossy v])) (\<lambda>_.
    and_do (call_exec (node_exists L (clock 1) (str_bytes ''user:2''))) (\<lambda>present.
    and_do (assert_that present) (\<lambda>_.
    and_do (call (node_delete A (str_bytes ''user:2''))) (\<lambda>_.
    and_do (call_exec (node_exists L (clock 2) (str_bytes ''user:2''))) (\<lambda>still.
    assert_that (\<not> still)))))))))"

definition example_batch :: "batch_op list" where
  "example_batch =
    [BatchInsert (str_bytes ''user:1'') (str_bytes ''alice_v2''),
     BatchInsert (str_bytes ''idx:name:alice_v2'') (str_bytes ''1''),
     BatchDelete (str_bytes ''idx:name:alice'')]"

definition single_batch ::
  "('e, 't) lmdb_api \<Rightarrow> ('g, 'e) client_api \<Rightarrow> (nat \<Rightarrow> int) \<Rightarrow> (('g, 'e) node, unit) program" where
  "single_batch L A clock =
    and_do (call (node_batch A example_batch)) (\<lambda>_.
    and_do (call_exec (node_get L (clock 3) (str_bytes ''user:1''))) (\<lambda>user1.
    when_some user1 (\<lambda>v. say [Lit ''after batch, user:1 = '', Lossy v])))"

definition pass_on :: "cas_error + 'r \<Rightarrow> ('x, 'r) program" where
  "pass_on r = query (\<lambda>_.
    (case r of Inl (ReadFailed e) \<Rightarrow> Inl e | Inl (SwapFailed e) \<Rightarrow> Inl e | Inr x \<Rightarrow> Inr x))"

text \<open>No other task uses the node, so nothing interferes with the loop.\<close>

definition single_counter ::
  "('e, 't) lmdb_api \<Rightarrow> ('g, 'e) client_api \<Rightarrow> bool \<Rightarrow> (nat \<Rightarrow> int) \<Rightarrow> (('g, 'e) node, unit) program" where
  "single_counter L A checks clock =
    and_do (call (node_put A (str_bytes ''counter:views'') (str_bytes ''1000''))) (\<lambda>_.
    and_do (call_loop (cas_loop (\<lambda>t. node_get L t (str_bytes ''counter:views'')) A checks
      (str_bytes ''counter:views'') (\<lambda>i. clock (10 + i)) (\<lambda>_ n. n) 0)) (\<lambda>r.
    and_do (pass_on r) (\<lambda>next_value.
    say [Lit ''counter:views incremented to '', Lossy next_value])))"

definition price_json :: string where
  "price_json = ''{'' @ [CHR 0x22] @ ''price'' @ [CHR 0x22] @ '':9.99}''"

definition single_ttl ::
  "('g, 'e) client_api \<Rightarrow> bool \<Rightarrow> (nat \<Rightarrow> int) \<Rightarrow> (('g, 'e) node, unit) program" where
  "single_ttl A checks clock =
    and_do (call_exec (node_put_with_ttl checks A (clock 4) (str_bytes ''session:tok_abc123'')
      (str_bytes ''user:1'') 30)) (\<lambda>_.
    and_do (call (node_put_if_absent A (str_bytes ''lock:invoice:42'') (str_bytes ''node:1''))) (\<lambda>acquired.
    and_do (say [Lit ''lock acquired = '', Truth acquired]) (\<lambda>_.
    call_exec (node_put_with_ttl checks A (clock 5) (str_bytes ''cache:product:99'')
      (str_bytes price_json) 300))))"

text \<open>The program looks at the entries of a scan only.\<close>

definition single_scans ::
  "('e, 't) lmdb_api \<Rightarrow> ('g, 'e) client_api \<Rightarrow> (nat \<Rightarrow> int) \<Rightarrow> (('g, 'e) node, unit) program" where
  "single_scans L A clock =
    and_do (call (node_put A (str_bytes ''user:3'') (str_bytes ''carol''))) (\<lambda>_.
    and_do (query (\<lambda>n. map_ok scan_entries
      (node_scan_prefix L (word_of_int (clock 6)) (str_bytes ''user:'') None (Some 100) n))) (\<lambda>users.
    and_do (say [Lit ''users ('', Number (length users), Lit ''):'']) (\<lambda>_.
    and_do (for_each (\<lambda>e. say [Lit ''  '', Lossy (fst e), Lit '' = '', Lossy (snd e)]) users) (\<lambda>_.
    and_do (query (\<lambda>n. map_ok scan_entries
      (node_scan_prefix L (word_of_int (clock 7)) (str_bytes ''user:'') None (Some 2) n))) (\<lambda>page1.
    and_do (when_some (if page1 = [] then None else Some (fst (last page1))) (\<lambda>last_key.
      and_do (query (\<lambda>n. map_ok scan_entries
        (node_scan_prefix L (word_of_int (clock 8)) (str_bytes ''user:'') (Some last_key) (Some 2) n))) (\<lambda>page2.
      say [Lit ''page2 count = '', Number (length page2)]))) (\<lambda>_.
    and_do (query (\<lambda>n. map_ok scan_entries
      (node_scan_range L (word_of_int (clock 9)) (str_bytes ''user:1'') (str_bytes ''user:9'') (Some 10) n)))
      (\<lambda>range. say [Lit ''range scan count = '', Number (length range)])))))))"

text \<open>The last read; \<open>t\<close> is the clock then.\<close>

definition single_linearizable ::
  "('e, 't) lmdb_api \<Rightarrow> ('g, 'e) client_api \<Rightarrow> int \<Rightarrow> (('g, 'e) node, unit) program" where
  "single_linearizable L A t =
    and_do (call_exec (node_get_linearizable L A t (str_bytes ''counter:views''))) (\<lambda>views.
    when_some views (\<lambda>v. say [Lit ''linearizable counter:views = '', Lossy v]))"

definition single_body ::
  "('e, 't) lmdb_api \<Rightarrow> ('g, 'e) client_api \<Rightarrow> ('g, 'e, 'l) engine_api \<Rightarrow> bool \<Rightarrow> (nat \<Rightarrow> int) \<Rightarrow> int \<Rightarrow>
   (('g, 'e) node, unit) program" where
  "single_body L A E checks clock t =
    and_do (call (node_wait_ready E 10)) (\<lambda>_.
    and_do (single_basic L A clock) (\<lambda>_.
    and_do (single_batch L A clock) (\<lambda>_.
    and_do (single_counter L A checks clock) (\<lambda>_.
    and_do (single_ttl A checks clock) (\<lambda>_.
    and_do (single_scans L A clock) (\<lambda>_.
    single_linearizable L A t))))))"


section \<open>Its sections run\<close>

text \<open>Room for the longest key and value of the example programs (18 bytes).\<close>

definition roomy :: "('e, 't) lmdb_api \<Rightarrow> nat \<times> nat \<times> path \<Rightarrow> bool" where
  "roomy L l \<longleftrightarrow> 18 \<le> max_key_size L \<and> 18 \<le> fst l \<and> 18 \<le> fst (snd l)"

lemma roomy_simps:
  assumes "roomy L l" and "s \<noteq> []" and "length s \<le> 18"
  shows "admissible_key L (str_bytes s)" and "length (str_bytes s) \<le> fst l"
    and "length (str_bytes s) \<le> fst (snd l)"
  using assms by (simp_all add: roomy_def admissible_key_def)

context available_client
begin

lemma runs_single_basic:
  assumes "roomy L l" and "values_wf m" and "\<And>i. 0 \<le> clock i"
  shows "runs V l m out (single_basic L A clock) ()
    (m(str_bytes ''user:1'' \<mapsto> encode_raw (str_bytes ''alice''), str_bytes ''user:2'' := None))
    (out @ [Out [Lit ''user:1 = '', Lossy (str_bytes ''alice'')]])"
  unfolding single_basic_def
  by (rule runs_conseq, (rule runs_and_do runs_control runs_api | simp add: assms roomy_simps [OF assms(1)] del: length_str_bytes)+)

lemma runs_single_batch:
  assumes "roomy L l" and "values_wf m" and "\<And>i. 0 \<le> clock i"
  shows "runs V l m out (single_batch L A clock) ()
    (m(str_bytes ''user:1'' \<mapsto> encode_raw (str_bytes ''alice_v2''),
       str_bytes ''idx:name:alice_v2'' \<mapsto> encode_raw (str_bytes ''1''),
       str_bytes ''idx:name:alice'' := None))
    (out @ [Out [Lit ''after batch, user:1 = '', Lossy (str_bytes ''alice_v2'')]])"
  unfolding single_batch_def example_batch_def
  by (rule runs_conseq, (rule runs_and_do runs_control runs_api | simp add: assms roomy_simps [OF assms(1)] del: length_str_bytes)+)

lemma runs_pass_on: "runs V l m out (pass_on (Inr x)) x m out"
  by (simp add: runs_def pass_on_def query_def)

lemma runs_single_counter:
  assumes "roomy L l" and "values_wf m" and "\<And>i. 0 \<le> clock i"
  shows "runs V l m out (single_counter L A checks clock) ()
    (m(str_bytes ''counter:views'' \<mapsto> encode_raw (str_bytes ''1001'')))
    (out @ [Out [Lit ''counter:views incremented to '', Lossy (str_bytes ''1001'')]])"
proof -
  have next_value: "next_count checks (Some (str_bytes ''1000'')) = Return (str_bytes ''1001'')"
  proof -
    have "parse_u64 (str_bytes ''1000'') = Some 1000"
      by (simp add: parse_u64_def str_bytes_def digit_value_def of_char_def)
    moreover have "show_nat 1001 = ''1001''" by code_simp
    ultimately show ?thesis by (simp add: next_count_def add_u64_def u64_to_string_def)
  qed
  show ?thesis
    unfolding single_counter_def
    by (rule runs_conseq, (rule runs_and_do runs_control runs_api runs_pass_on runs_cas_loop [OF _ get_reads_key, where x = "Some (str_bytes ''1000'')"]
    | simp add: assms roomy_simps [OF assms(1)] next_value del: length_str_bytes)+)
qed

lemma runs_single_ttl:
  assumes "roomy L l" and "values_wf m" and "\<And>i. 0 \<le> clock i" and "\<And>i. clock i < 2 ^ 63"
    and "m (str_bytes ''lock:invoice:42'') = None"
  shows "runs V l m out (single_ttl A checks clock) ()
    (m(str_bytes ''session:tok_abc123'' \<mapsto>
         encode_ttl (str_bytes ''user:1'') (Some (word_of_int (clock 4) + 30)),
       str_bytes ''lock:invoice:42'' \<mapsto> encode_raw (str_bytes ''node:1''),
       str_bytes ''cache:product:99'' \<mapsto>
         encode_ttl (str_bytes price_json) (Some (word_of_int (clock 5) + 300))))
    (out @ [Out [Lit ''lock acquired = '', Truth True]])"
proof -
  have near: "clock i < 18446744073709551586" "clock i < 18446744073709551316" for i
    using assms(4) [of i] by simp_all
  show ?thesis
    unfolding single_ttl_def
    by (rule runs_conseq, (rule runs_and_do runs_control runs_api
      | simp add: assms near roomy_simps [OF assms(1)] price_json_def del: length_str_bytes)+)
qed

text \<open>The \<open>user:\<close> keys when the scans run.\<close>

definition two_users :: "(bytes \<times> bytes) list" where
  "two_users =
    [(str_bytes ''user:1'', encode_raw (str_bytes ''alice_v2'')),
     (str_bytes ''user:3'', encode_raw (str_bytes ''carol''))]"

lemma runs_single_scans:
  assumes "roomy L l"
    and users: "\<And>k. prefix (str_bytes ''user:'') k \<Longrightarrow>
      m k = (if k = str_bytes ''user:1'' then Some (encode_raw (str_bytes ''alice_v2'')) else None)"
  shows "runs V l m out (single_scans L A clock) ()
    (m(str_bytes ''user:3'' \<mapsto> encode_raw (str_bytes ''carol'')))
    (out @
     [Out [Lit ''users ('', Number 2, Lit ''):''],
      Out [Lit ''  '', Lossy (str_bytes ''user:1''), Lit '' = '', Lossy (str_bytes ''alice_v2'')],
      Out [Lit ''  '', Lossy (str_bytes ''user:3''), Lit '' = '', Lossy (str_bytes ''carol'')],
      Out [Lit ''page2 count = '', Number 0],
      Out [Lit ''range scan count = '', Number 2]])"
proof -
  let ?m = "m(str_bytes ''user:3'' \<mapsto> encode_raw (str_bytes ''carol''))"
  have order: "str_bytes ''user:1'' < str_bytes ''user:3''" "str_bytes ''user:3'' < str_bytes ''user:9''"
    by (simp_all add: str_bytes_def of_char_def)
  have visible: "visible (Some (decode_for_scan now)) two_users =
      [(str_bytes ''user:1'', str_bytes ''alice_v2''), (str_bytes ''user:3'', str_bytes ''carol'')]" for now
    by (simp add: two_users_def scan_filter_is_live_value)
  have bound: "?m k = Some v \<and> prefix (str_bytes ''user:'') k \<longleftrightarrow> (k, v) \<in> set two_users" for k v
    using users [of k] by (auto simp: two_users_def split: if_splits)
  have range: "?m k = Some v \<and> str_bytes ''user:1'' \<le> k \<and> k < str_bytes ''user:9'' \<longleftrightarrow>
      (k, v) \<in> set two_users" for k v
  proof -
    have "prefix (str_bytes ''user:'') k" if "str_bytes ''user:1'' \<le> k" "k < str_bytes ''user:9''"
      using that between_prefix [of "str_bytes ''user:''" "str_bytes ''1''" k "str_bytes ''9''"]
      by (simp add: str_bytes_def)
    then show ?thesis
      using bound [of k v] order by (auto simp: two_users_def)
  qed
  have scan: "runs V l ?m out (query (\<lambda>n :: ('g, 'e) node. map_ok scan_entries
      (node_scan_prefix L now (str_bytes ''user:'') None limit n)))
      (take (limit_cap limit) [(str_bytes ''user:1'', str_bytes ''alice_v2''), (str_bytes ''user:3'', str_bytes ''carol'')])
      ?m out" for out now limit
    using runs_scan_prefix [of "str_bytes ''user:''" None two_users ?m l out now limit] bound order
    by (simp add: visible) (simp add: two_users_def)
  have scan_after: "runs V l ?m out (query (\<lambda>n :: ('g, 'e) node. map_ok scan_entries
      (node_scan_prefix L now (str_bytes ''user:'') (Some (str_bytes ''user:3'')) limit n))) [] ?m out"
    for out now limit
  proof -
    have "str_bytes ''user:'' \<le> str_bytes ''user:3''" by (rule prefix_le) simp
    moreover have "\<not> (?m k = Some v \<and> prefix (str_bytes ''user:'') k \<and> str_bytes ''user:3'' < k)" for k v
      using bound [of k v] order by (auto simp: two_users_def)
    ultimately show ?thesis
      using runs_scan_prefix [of "str_bytes ''user:''" "Some (str_bytes ''user:3'')" "[]" ?m l out now limit]
      by simp
  qed
  have scan_range: "runs V l ?m out (query (\<lambda>n :: ('g, 'e) node. map_ok scan_entries
      (node_scan_range L now (str_bytes ''user:1'') (str_bytes ''user:9'') (Some 10) n)))
      [(str_bytes ''user:1'', str_bytes ''alice_v2''), (str_bytes ''user:3'', str_bytes ''carol'')] ?m out"
    for out now
    using runs_scan_range [of "str_bytes ''user:1''" two_users ?m "str_bytes ''user:9''" l out now "Some 10"]
      range order
    by (simp add: visible limit_cap_def) (simp add: two_users_def)
  show ?thesis
    unfolding single_scans_def
    by (rule runs_conseq, (rule runs_and_do runs_control runs_put scan scan_after scan_range
      | simp add: limit_cap_def roomy_simps [OF assms(1)] del: length_str_bytes)+)
qed

lemma runs_single_linearizable:
  assumes "roomy L l" and "values_wf m" and "0 \<le> t"
    and "m (str_bytes ''counter:views'') = Some (encode_raw v)"
  shows "runs V l m out (single_linearizable L A t) () m
    (out @ [Out [Lit ''linearizable counter:views = '', Lossy v]])"
  unfolding single_linearizable_def
  by (rule runs_conseq, (rule runs_and_do runs_control runs_api
    | simp add: assms roomy_simps [OF assms(1)] del: length_str_bytes)+)

end

text \<open>The contents the program leaves and the lines it prints.\<close>

definition single_result :: "(nat \<Rightarrow> int) \<Rightarrow> kv \<Rightarrow> kv" where
  "single_result clock m =
    m(str_bytes ''user:1'' \<mapsto> encode_raw (str_bytes ''alice_v2''),
      str_bytes ''user:2'' := None,
      str_bytes ''idx:name:alice_v2'' \<mapsto> encode_raw (str_bytes ''1''),
      str_bytes ''idx:name:alice'' := None,
      str_bytes ''counter:views'' \<mapsto> encode_raw (str_bytes ''1001''),
      str_bytes ''session:tok_abc123'' \<mapsto>
        encode_ttl (str_bytes ''user:1'') (Some (word_of_int (clock 4) + 30)),
      str_bytes ''lock:invoice:42'' \<mapsto> encode_raw (str_bytes ''node:1''),
      str_bytes ''cache:product:99'' \<mapsto>
        encode_ttl (str_bytes price_json) (Some (word_of_int (clock 5) + 300)),
      str_bytes ''user:3'' \<mapsto> encode_raw (str_bytes ''carol''))"

definition single_lines :: "printed list" where
  "single_lines =
    [Out [Lit ''user:1 = '', Lossy (str_bytes ''alice'')],
     Out [Lit ''after batch, user:1 = '', Lossy (str_bytes ''alice_v2'')],
     Out [Lit ''counter:views incremented to '', Lossy (str_bytes ''1001'')],
     Out [Lit ''lock acquired = '', Truth True],
     Out [Lit ''users ('', Number 2, Lit ''):''],
     Out [Lit ''  '', Lossy (str_bytes ''user:1''), Lit '' = '', Lossy (str_bytes ''alice_v2'')],
     Out [Lit ''  '', Lossy (str_bytes ''user:3''), Lit '' = '', Lossy (str_bytes ''carol'')],
     Out [Lit ''page2 count = '', Number 0],
     Out [Lit ''range scan count = '', Number 2],
     Out [Lit ''linearizable counter:views = '', Lossy (str_bytes ''1001'')]]"

text \<open>A store the example was not run on before: no user and no lock.\<close>

definition fresh_for_example :: "kv \<Rightarrow> bool" where
  "fresh_for_example m \<longleftrightarrow>
     values_wf m \<and> m (str_bytes ''lock:invoice:42'') = None \<and>
     (\<forall>k. prefix (str_bytes ''user:'') k \<longrightarrow> m k = None)"

lemma fresh_user: "fresh_for_example m \<Longrightarrow> prefix (str_bytes ''user:'') k \<Longrightarrow> m k = None"
  by (simp add: fresh_for_example_def)

context ready_client
begin

lemma runs_single_body:
  assumes "roomy L l" and "fresh_for_example m" and "\<And>i. 0 \<le> clock i" and "\<And>i. clock i < 2 ^ 63" and "0 \<le> t"
  shows "runs V l m [] (single_body L A E checks clock t) () (single_result clock m) single_lines"
proof -
  have m: "values_wf m" "m (str_bytes ''lock:invoice:42'') = None" "m (str_bytes ''user:2'') = None"
    using assms(2) fresh_user [OF assms(2)] by (simp_all add: fresh_for_example_def)
  have near: "clock i < 9223372036854775808" for i
    using assms(4) [of i] by simp
  show ?thesis
    unfolding single_body_def
    by (rule runs_conseq, (rule runs_and_do runs_wait_ready runs_single_basic runs_single_batch runs_single_counter
       runs_single_ttl runs_single_scans runs_single_linearizable
      | (simp add: assms near m; fail) | (force simp: fresh_user [OF assms(2)]; fail))+)
      (simp_all add: single_result_def single_lines_def fun_eq_iff)
qed

end

text \<open>
  The program calls the lock one "with 10 s lease", but \<open>put_if_absent\<close> writes no TTL: the key is
  found taken however late one looks.
\<close>

lemma lock_has_no_lease:
  "logical now (single_result clock m) (str_bytes ''lock:invoice:42'') = Some (str_bytes ''node:1'') \<and>
   \<not> expired now (single_result clock m) (str_bytes ''lock:invoice:42'')"
  by (simp add: single_result_def logical_def expired_def decode_live_value_def)


section \<open>The whole program\<close>

text \<open>\<open>main\<close>: open the node in \<open>./data\<close>, run the body, close the node.\<close>

definition single_main ::
  "('e, 't) lmdb_api \<Rightarrow> ('g, 'e, 'c) host \<Rightarrow> ('g, 'e) client_api \<Rightarrow> ('g, 'e, 'l) engine_api \<Rightarrow>
   ('g \<times> 'e state_machine \<Rightarrow> (engine_error + unit) \<times> 'e state_machine) \<Rightarrow> bool \<Rightarrow> (nat \<Rightarrow> int) \<Rightarrow> int \<Rightarrow>
   path set \<Rightarrow> 'e main_result" where
  "single_main L H A E stop checks clock t held =
    run_main L stop (single_body L A E checks clock t) (node_open L H [''.'', ''data''] held)"

lemma node_open_Inr:
  assumes "node_open L H d held = (Inr n, held')"
  shows "limits n = (512, 1048576, lock_path d)" and "lock_path d \<notin> held" and "held' = insert (lock_path d) held"
proof -
  obtain lock h where got: "acquire (h_mkdir H d) (h_open_lock H d) (h_lock_fault H) d held = (Inr lock, h)"
    using assms by (auto simp: node_open_def Let_def split: prod.splits sum.splits)
  obtain started where run: "finish_open lock h (config_new d) started = (Inr n, held')"
    using assms got by (auto simp: node_open_def Let_def)
  from acquire_Inr [OF got] run
  show "limits n = (512, 1048576, lock_path d)" "lock_path d \<notin> held" "held' = insert (lock_path d) held"
    by (auto simp: finish_open_def limits_def config_new_def default_max_key_bytes_def
        default_max_value_bytes_def split: sum.splits)
qed

text \<open>C31. A run of the single-node example. Opened on a directory that holds no user
  key and no lock key, over any engine that becomes ready and is available, and with a clock
  between 1970 and the far future, it returns without error or panic, prints exactly the lines of
  \<open>single_lines\<close>, leaves exactly the contents \<open>single_result\<close>, and gives the directory lock back. From
  then on the session token reads until 30 seconds after its put and not later, as its comment promises; the advisory
  lock, to which its comment gives a lease of 10 seconds, reads as taken at every time.\<close>

theorem single_node_example:
  assumes "ready_client L V A E" and "18 \<le> max_key_size L"
    and "node_open L H [''.'', ''data''] held = (Inr n, held')" and "fresh_for_example (node_kv V n)"
    and "\<And>i. 0 \<le> clock i" and "\<And>i. clock i < 2 ^ 63" and "0 \<le> t"
    and "\<And>x. fst (stop x) = Inr () \<and> kv_of V (snd (stop x)) = kv_of V (snd x)"
  shows "\<exists>s. single_main L H A E stop checks clock t held = Some (Return (Inr s, single_lines, held)) \<and>
    kv_of V s = single_result clock (node_kv V n) \<and>
    (\<forall>now. logical now (kv_of V s) (str_bytes ''session:tok_abc123'') =
        (if now < word_of_int (clock 4) + 30 then Some (str_bytes ''user:1'') else None) \<and>
      logical now (kv_of V s) (str_bytes ''lock:invoice:42'') = Some (str_bytes ''node:1''))"
proof -
  have later: "logical now (single_result clock m) (str_bytes ''session:tok_abc123'') =
      (if now < word_of_int (clock 4) + 30 then Some (str_bytes ''user:1'') else None)" for now m
    by (auto simp: single_result_def logical_def not_le)
  note opened = node_open_Inr [OF assms(3)]
  have "roomy L (limits n)" using assms(2) opened(1) by (simp add: roomy_def)
  then have "runs V (limits n) (node_kv V n) [] (single_body L A E checks clock t) ()
      (single_result clock (node_kv V n)) single_lines"
    using ready_client.runs_single_body [OF assms(1)] assms(4-7) by blast
  moreover have "lmdb L V"
    using assms(1) by (simp add: ready_client_def available_client_def lmdb_live_def)
  moreover have "release (data_dir_lock n) held' = held"
    using opened by (auto simp: limits_def release_def)
  ultimately obtain s where
    "single_main L H A E stop checks clock t held = Some (Return (Inr s, single_lines, held))"
    "kv_of V s = single_result clock (node_kv V n)"
    using lmdb.run_main_ok [of L V n _ _ _ stop held'] assms(3,8) by (fastforce simp: single_main_def)
  then show ?thesis using later lock_has_no_lease by (intro exI [of _ s]) simp
qed

theorem single_node_example_witness:
  "\<exists>s. single_main mem_api demo_host (solo_api mem_api) solo_engine (\<lambda>x. (Inr (), snd x)) True (\<lambda>_. 5) 7 {} =
      Some (Return (Inr s, single_lines, {})) \<and>
    kv_of mem_view s (str_bytes ''user:3'') = Some (encode_raw (str_bytes ''carol'')) \<and>
    logical 1000 (kv_of mem_view s) (str_bytes ''session:tok_abc123'') = None \<and>
    logical 1000 (kv_of mem_view s) (str_bytes ''lock:invoice:42'') = Some (str_bytes ''node:1'')"
proof -
  obtain w where w: "wal_new mem_api (Inr ()) None = Inr w" using demo_wal.wal_new_live by blast
  obtain s where s: "sm_new mem_api (Inr ()) None (config_new [''.'', ''data'']) = Inr s"
    using mem.sm_new_live by blast
  obtain n held' where opened: "node_open mem_api demo_host [''.'', ''data''] {} = (Inr n, held')" "node_sm n = s"
    by (simp add: node_open_def acquire_def try_lock_def open_stores_def demo_host_def w s finish_open_def Let_def)
  have "node_kv mem_view n = Map.empty"
    using mem.sm_new_refines [OF s] opened(2) by (simp add: node_kv_def kv_of_def)
  then have "fresh_for_example (node_kv mem_view n)" by (simp add: fresh_for_example_def)
  then obtain s' where s': "single_main mem_api demo_host (solo_api mem_api) solo_engine (\<lambda>x. (Inr (), snd x)) True
      (\<lambda>_. 5) 7 {} = Some (Return (Inr s', single_lines, {}))"
    "kv_of mem_view s' = single_result (\<lambda>_. 5) (node_kv mem_view n)"
    "\<forall>now. logical now (kv_of mem_view s') (str_bytes ''session:tok_abc123'') =
        (if now < word_of_int 5 + 30 then Some (str_bytes ''user:1'') else None) \<and>
      logical now (kv_of mem_view s') (str_bytes ''lock:invoice:42'') = Some (str_bytes ''node:1'')"
    using single_node_example [OF solo_ready.ready_client_axioms _ opened(1), of "\<lambda>_. 5" 7 "\<lambda>x. (Inr (), snd x)" True]
    by (auto simp: mem_api_def mem_max_key_def)
  have "\<not> (1000 :: u64) < word_of_int 5 + 30" by (simp add: word_less_nat_alt)
  then show ?thesis using s' by (intro exI [of _ s']) (simp add: single_result_def)
qed

end
