(* ===== verification/Example_Cluster.thy ===== *)
theory Example_Cluster
  imports Example_Single
begin

text \<open>
  The example program \<open>examples/three-node/three_node.rs\<close>: the same API on a cluster, with errors of
  writes printed instead of passed on. Two results: what it prints when the cluster is available
  and other nodes write the counter at any time, and what it prints when no write gets through.
  \<open>between j\<close> is what the other nodes commit before the \<open>j\<close>-th call outside the loop, and \<open>others i\<close>
  what they commit between the read and the swap of round \<open>i\<close> of the loop.
\<close>


section \<open>The program\<close>

text \<open>\<open>if let Err(e) = ... { eprintln!(...) }\<close>\<close>

definition or_complain :: "string \<Rightarrow> ('x, unit) program \<Rightarrow> ('x, unit) program" where
  "or_complain message p =
    and_do (attempt p) (\<lambda>r.
    (case r of Inl e \<Rightarrow> complain [Lit message, Debug e] | Inr _ \<Rightarrow> result_of ()))"

definition cluster_info_lines ::
  "('g, 'e, 'l) engine_api \<Rightarrow> ('l \<Rightarrow> u32) \<Rightarrow> (('g, 'e) node, unit) program" where
  "cluster_info_lines E leader_id =
    and_do (query (\<lambda>n. Inr (node_leader E n))) (\<lambda>leader.
    and_do (when_some leader (\<lambda>l. say [Lit ''leader = node:'', Number (unat (leader_id l))])) (\<lambda>_.
    and_do (query (\<lambda>n. Inr (node_cluster_info E n))) (\<lambda>info.
    say [Lit ''cluster members = '', Number (length (mb_members info))])))"

definition cluster_writes ::
  "('e, 't) lmdb_api \<Rightarrow> ('g, 'e) client_api \<Rightarrow> int \<Rightarrow> (nat \<Rightarrow> ('g, 'e) node \<Rightarrow> ('g, 'e) node) \<Rightarrow>
   (('g, 'e) node, unit) program" where
  "cluster_writes L A t between =
    and_do (meanwhile (between 0)) (\<lambda>_.
    and_do (or_complain ''db put error: '' (call (node_put A (str_bytes ''user:1'') (str_bytes ''alice'')))) (\<lambda>_.
    and_do (meanwhile (between 1)) (\<lambda>_.
    and_do (call_exec (node_get L t (str_bytes ''user:1''))) (\<lambda>user1.
    and_do (when_some user1 (\<lambda>v. say [Lit ''user:1 = '', Lossy v])) (\<lambda>_.
    and_do (meanwhile (between 2)) (\<lambda>_.
    and_do (or_complain ''db batch error: '' (call (node_batch A example_batch))) (\<lambda>_.
    and_do (meanwhile (between 3)) (\<lambda>_.
    or_complain ''db put error: '' (call (node_put A (str_bytes ''counter:views'') (str_bytes ''0'')))))))))))"

definition cluster_counter ::
  "('e, 't) lmdb_api \<Rightarrow> ('g, 'e) client_api \<Rightarrow> bool \<Rightarrow> (nat \<Rightarrow> int) \<Rightarrow>
   (nat \<Rightarrow> ('g, 'e) node \<Rightarrow> ('g, 'e) node) \<Rightarrow> (('g, 'e) node, unit) program" where
  "cluster_counter L A checks clock others =
    and_do (call_loop (cas_loop (\<lambda>t. node_get_linearizable L A t (str_bytes ''counter:views'')) A checks
      (str_bytes ''counter:views'') clock others 0)) (\<lambda>r.
    (case r of
       Inr next_value \<Rightarrow> say [Lit ''counter:views = '', Lossy next_value]
     | Inl (ReadFailed e) \<Rightarrow> complain [Lit ''db get_linearizable error: '', Debug e]
     | Inl (SwapFailed e) \<Rightarrow> complain [Lit ''db CAS error: '', Debug e]))"

definition cluster_linearizable ::
  "('e, 't) lmdb_api \<Rightarrow> ('g, 'e) client_api \<Rightarrow> int \<Rightarrow> (('g, 'e) node, unit) program" where
  "cluster_linearizable L A t =
    and_do (attempt (call_exec (node_get_linearizable L A t (str_bytes ''counter:views'')))) (\<lambda>r.
    (case r of
       Inr views \<Rightarrow> when_some views (\<lambda>v. say [Lit ''linearizable counter:views = '', Lossy v])
     | Inl e \<Rightarrow> complain [Lit ''db get_linearizable error: '', Debug e]))"

definition cluster_ttl ::
  "('g, 'e) client_api \<Rightarrow> bool \<Rightarrow> int \<Rightarrow> int \<Rightarrow> (nat \<Rightarrow> ('g, 'e) node \<Rightarrow> ('g, 'e) node) \<Rightarrow>
   (('g, 'e) node, unit) program" where
  "cluster_ttl A checks t u between =
    and_do (meanwhile (between 6)) (\<lambda>_.
    and_do (or_complain ''db put_with_ttl error: '' (call_exec (node_put_with_ttl checks A t
      (str_bytes ''session:tok_xyz'') (str_bytes ''user:1'') 30))) (\<lambda>_.
    and_do (meanwhile (between 7)) (\<lambda>_.
    or_complain ''db put_with_ttl error: '' (call_exec (node_put_with_ttl checks A u
      (str_bytes ''lock:report:7'') (str_bytes ''node:1'') 10)))))"

text \<open>The last part waits for Ctrl+C, which always comes.\<close>

definition cluster_scan ::
  "('e, 't) lmdb_api \<Rightarrow> int \<Rightarrow> (('g, 'e) node, unit) program" where
  "cluster_scan L t =
    and_do (query (\<lambda>n. map_ok scan_entries
      (node_scan_prefix L (word_of_int t) (str_bytes ''user:'') None (Some 100) n))) (\<lambda>users.
    and_do (say [Lit ''users on this node: '', Number (length users)]) (\<lambda>_.
    and_do (say [Lit ''Node running. Press Ctrl+C to shutdown gracefully.'']) (\<lambda>_.
    say [Lit ''Received Ctrl+C, shutting down gracefully...''])))"

text \<open>Each reading of the system clock is a value of its own: \<open>clock i\<close> in round \<open>i\<close> of the loop, \<open>t 0\<close> to
  \<open>t 4\<close> outside it.\<close>

definition cluster_body ::
  "('e, 't) lmdb_api \<Rightarrow> ('g, 'e) client_api \<Rightarrow> ('g, 'e, 'l) engine_api \<Rightarrow> ('l \<Rightarrow> u32) \<Rightarrow> bool \<Rightarrow> (nat \<Rightarrow> int) \<Rightarrow>
   (nat \<Rightarrow> int) \<Rightarrow> (nat \<Rightarrow> ('g, 'e) node \<Rightarrow> ('g, 'e) node) \<Rightarrow> (nat \<Rightarrow> ('g, 'e) node \<Rightarrow> ('g, 'e) node) \<Rightarrow>
   (('g, 'e) node, unit) program" where
  "cluster_body L A E leader_id checks clock t others between =
    and_do (call (node_wait_ready E 10)) (\<lambda>_.
    and_do (cluster_info_lines E leader_id) (\<lambda>_.
    and_do (cluster_writes L A (t 0) between) (\<lambda>_.
    and_do (meanwhile (between 4)) (\<lambda>_.
    and_do (cluster_counter L A checks clock others) (\<lambda>_.
    and_do (meanwhile (between 5)) (\<lambda>_.
    and_do (cluster_linearizable L A (t 1)) (\<lambda>_.
    and_do (cluster_ttl A checks (t 2) (t 3) between) (\<lambda>_.
    and_do (meanwhile (between 8)) (\<lambda>_.
    cluster_scan L (t 4))))))))))"

text \<open>\<open>main\<close>: the configuration path comes from the environment, with a default.\<close>

definition cluster_main ::
  "(string \<Rightarrow> config_error + lmdb_table) \<Rightarrow> ('e, 't) lmdb_api \<Rightarrow> ('g, 'e, 'c) host \<Rightarrow> ('g, 'e) client_api \<Rightarrow>
   ('g, 'e, 'l) engine_api \<Rightarrow> ('l \<Rightarrow> u32) \<Rightarrow>
   ('g \<times> 'e state_machine \<Rightarrow> (engine_error + unit) \<times> 'e state_machine) \<Rightarrow> bool \<Rightarrow> (nat \<Rightarrow> int) \<Rightarrow> (nat \<Rightarrow> int) \<Rightarrow>
   (nat \<Rightarrow> ('g, 'e) node \<Rightarrow> ('g, 'e) node) \<Rightarrow> (nat \<Rightarrow> ('g, 'e) node \<Rightarrow> ('g, 'e) node) \<Rightarrow> string option \<Rightarrow> path set \<Rightarrow>
   'e main_result" where
  "cluster_main load L H A E leader_id stop checks clock t others between config_env held =
    (let config_path = (case config_env of Some p \<Rightarrow> p | None \<Rightarrow> ''examples/three-node/config/n1.toml'')
     in case node_open_from_file checks load L H (Some config_path) held of
          Panic \<Rightarrow> Some Panic
        | Return opened \<Rightarrow> run_main L stop (cluster_body L A E leader_id checks clock t others between) opened)"


section \<open>Its sections run\<close>

text \<open>\<open>or_complain\<close> on success and on an error.\<close>

lemma runs_or_complain: "runs V l m out p () m' out' \<Longrightarrow> runs V l m out (or_complain message p) () m' out'"
  unfolding or_complain_def
  by (rule runs_and_do [OF runs_attempt], assumption, simp, rule runs_result)

definition fails_with :: "nat \<times> nat \<times> path \<Rightarrow> (('g, 'e) node, 'r) program \<Rightarrow> error \<Rightarrow> bool" where
  "fails_with l p e \<longleftrightarrow> (\<forall>n out. limits n = l \<longrightarrow> p (n, out) = Some (Return (Inl e, n, out)))"

lemma runs_attempt_fails: "fails_with l p e \<Longrightarrow> runs V l m out (attempt p) (Inl e) m out"
  by (simp add: fails_with_def runs_def attempt_def)

lemma runs_complain: "runs V l m out (complain line) () m (out @ [Err line])"
  by (simp add: runs_def complain_def)

lemma runs_or_complain_fails:
  "fails_with l p e \<Longrightarrow> runs V l m out (or_complain message p) () m (out @ [Err [Lit message, Debug e]])"
  unfolding or_complain_def
  by (rule runs_and_do [OF runs_attempt_fails], assumption, simp, rule runs_complain)

lemma runs_inner_query:
  "(\<And>n. node_kv V n = m \<Longrightarrow> f n = x) \<Longrightarrow> runs V l m out (query (\<lambda>n. Inr (f n))) x m out"
  by (rule runs_query) simp


text \<open>
  The race for the counter: in round \<open>i\<close> the other nodes take it from \<open>c i\<close> to \<open>c (i + 1)\<close> and
  write nothing else; round \<open>k\<close> is the first in which they leave it alone.
\<close>

definition racing ::
  "('e, 't) lmdb_view \<Rightarrow> nat \<times> nat \<times> path \<Rightarrow> bytes \<Rightarrow> kv \<Rightarrow> (nat \<Rightarrow> u64) \<Rightarrow> nat \<Rightarrow> (nat \<Rightarrow> ('g, 'e) node \<Rightarrow> ('g, 'e) node) \<Rightarrow> bool"
where
  "racing V l key m c k others \<longleftrightarrow>
     (\<forall>i n. i \<le> k \<longrightarrow> node_kv V n = m(key \<mapsto> encode_raw (u64_to_string (c i))) \<longrightarrow> limits n = l \<longrightarrow>
        node_kv V (others i n) = m(key \<mapsto> encode_raw (u64_to_string (c (Suc i)))) \<and> limits (others i n) = l) \<and>
     (\<forall>i<k. c (Suc i) \<noteq> c i) \<and> c (Suc k) = c k \<and> (\<forall>i\<le>k. c i \<noteq> - 1)"

text \<open>The other nodes at the remaining points: before call \<open>j\<close> they leave \<open>e j\<close> at the counter and write nothing else.\<close>

definition only_counter ::
  "('e, 't) lmdb_view \<Rightarrow> nat \<times> nat \<times> path \<Rightarrow> bytes \<Rightarrow> (nat \<Rightarrow> bytes option) \<Rightarrow> (nat \<Rightarrow> ('g, 'e) node \<Rightarrow> ('g, 'e) node) \<Rightarrow> bool"
where
  "only_counter V l key e between \<longleftrightarrow>
     (\<forall>j n. limits n = l \<longrightarrow> node_kv V (between j n) = (node_kv V n)(key := e j) \<and> limits (between j n) = l)"

lemma runs_between:
  "only_counter V l key e between \<Longrightarrow> runs V l m out (meanwhile (between j)) () (m(key := e j)) out"
  by (rule runs_meanwhile) (simp add: only_counter_def)

definition valid_value :: "bytes option \<Rightarrow> bool" where
  "valid_value x \<longleftrightarrow> (\<forall>b. x = Some b \<longrightarrow> (\<exists>v. decode b = Inr v))"

lemma values_wf_upd: "values_wf m \<Longrightarrow> valid_value x \<Longrightarrow> values_wf (m(k := x))"
  by (auto simp: values_wf_def valid_value_def)

context available_client
begin

lemma runs_cluster_writes:
  assumes "roomy L l" and "values_wf m" and "0 \<le> t" and "only_counter V l (str_bytes ''counter:views'') e between"
    and "\<And>j. j < 4 \<Longrightarrow> valid_value (e j)"
  shows "runs V l m out (cluster_writes L A t between) ()
    (m(str_bytes ''user:1'' \<mapsto> encode_raw (str_bytes ''alice_v2''),
       str_bytes ''idx:name:alice_v2'' \<mapsto> encode_raw (str_bytes ''1''),
       str_bytes ''idx:name:alice'' := None,
       str_bytes ''counter:views'' \<mapsto> encode_raw (str_bytes ''0'')))
    (out @ [Out [Lit ''user:1 = '', Lossy (str_bytes ''alice'')]])"
  unfolding cluster_writes_def example_batch_def
  by (rule runs_conseq, (rule runs_and_do runs_control runs_or_complain runs_between [OF assms(4)] runs_api
    | simp add: assms values_wf_upd roomy_simps [OF assms(1)] del: length_str_bytes)+)

lemma runs_cluster_linearizable:
  assumes "roomy L l" and "values_wf m" and "0 \<le> t" and "m (str_bytes ''counter:views'') = Some (encode_raw v)"
  shows "runs V l m out (cluster_linearizable L A t) () m
    (out @ [Out [Lit ''linearizable counter:views = '', Lossy v]])"
  unfolding cluster_linearizable_def
  by (rule runs_conseq, (rule runs_and_do runs_control runs_api
    | simp add: assms roomy_simps [OF assms(1)] del: length_str_bytes)+)

lemma runs_cluster_ttl:
  assumes "roomy L l" and "0 \<le> t" and "t < 2 ^ 63" and "0 \<le> u" and "u < 2 ^ 63"
    and "only_counter V l (str_bytes ''counter:views'') e between"
  shows "runs V l m out (cluster_ttl A checks t u between) ()
    (m(str_bytes ''counter:views'' := e 7, str_bytes ''session:tok_xyz'' \<mapsto> encode_ttl (str_bytes ''user:1'') (Some (word_of_int t + 30)),
       str_bytes ''lock:report:7'' \<mapsto> encode_ttl (str_bytes ''node:1'') (Some (word_of_int u + 10)))) out"
proof -
  have near: "t < 18446744073709551586" "u < 18446744073709551606" using assms(3,5) by simp_all
  show ?thesis
    unfolding cluster_ttl_def
    by (rule runs_conseq, (rule runs_and_do runs_control runs_or_complain runs_between [OF assms(6)] runs_api
      | simp add: assms near roomy_simps [OF assms(1)] del: length_str_bytes)+)
      (simp_all add: fun_eq_iff)
qed

lemma runs_cluster_counter:
  assumes "roomy L l" and "values_wf m" and "\<And>i. 0 \<le> clock i"
    and "m (str_bytes ''counter:views'') = Some (encode_raw (u64_to_string (c 0)))"
    and "racing V l (str_bytes ''counter:views'') m c k others"
  shows "runs V l m out (cluster_counter L A checks clock others) ()
    (m(str_bytes ''counter:views'' \<mapsto> encode_raw (u64_to_string (c k + 1))))
    (out @ [Out [Lit ''counter:views = '', Lossy (u64_to_string (c k + 1))]])"
proof -
  let ?key = "str_bytes ''counter:views''"
  let ?s = "\<lambda>i. m(?key \<mapsto> encode_raw (u64_to_string (c i)))"
  note race = assms(5) [unfolded racing_def]
  have reads: "reads_key V ?key (\<lambda>t. node_get_linearizable L A t ?key)"
    using assms(1) by (intro get_linearizable_reads_key) (simp add: roomy_simps del: length_str_bytes)
  have next_value: "next_count checks (Some (u64_to_string n)) = Return (u64_to_string (n + 1))" if "n \<noteq> - 1" for n
    using that by (simp add: next_count_value)
  have distinct: "?s (Suc i) ?key \<noteq> ?s i ?key" if "i < k" for i
    using that race parse_print_u64 by (simp, metis option.inject)
  have loop: "runs V l m out (call_loop (cas_loop (\<lambda>t. node_get_linearizable L A t ?key) A checks ?key clock others 0))
      (Inr (u64_to_string (c k + 1))) ((?s (Suc k))(?key \<mapsto> encode_raw (u64_to_string (c k + 1)))) out"
  proof (rule runs_cas_loop_rivals [OF _ reads assms(3)])
    show "next_count checks x \<noteq> Panic" if "i \<le> k" "?s i ?key = map_option encode_raw x" for i x
      using that race next_value [of "c i"] by (cases x) auto
    show "?s k ?key = map_option encode_raw (Some (u64_to_string (c k)))" by simp
    show "node_kv V (others i n) = ?s (Suc i) \<and> limits (others i n) = l"
      if "i \<le> k" "node_kv V n = ?s i" "limits n = l" for i n
      using race that by blast
    show "values_wf (?s i) \<and> plain_at ?key (?s i)" for i using assms(2) by simp
    show "?s 0 = m" using assms(4) by (auto simp: fun_eq_iff)
  qed (use race assms(2) distinct next_value [of "c k"] in \<open>auto simp: roomy_simps [OF assms(1)] simp del: length_str_bytes\<close>)
  show ?thesis
    unfolding cluster_counter_def
    by (rule runs_conseq, rule runs_and_do, rule loop, simp, rule runs_say) simp_all
qed

lemma runs_cluster_scan:
  assumes "\<And>k. prefix (str_bytes ''user:'') k \<Longrightarrow>
      m k = (if k = str_bytes ''user:1'' then x else None)"
    and "x = map_option encode_raw v"
  shows "runs V l m out (cluster_scan L t :: (('x, 'e) node, unit) program) () m
    (out @ [Out [Lit ''users on this node: '', Number (if v = None then 0 else 1)],
            Out [Lit ''Node running. Press Ctrl+C to shutdown gracefully.''],
            Out [Lit ''Received Ctrl+C, shutting down gracefully...'']])"
proof -
  let ?xs = "case v of None \<Rightarrow> [] | Some b \<Rightarrow> [(str_bytes ''user:1'', encode_raw b)]"
  have scan: "runs V l m out (query (\<lambda>n :: ('x, 'e) node. map_ok scan_entries
      (node_scan_prefix L (word_of_int t) (str_bytes ''user:'') None (Some 100) n)))
      (take (limit_cap (Some 100)) (visible (Some (decode_for_scan (word_of_int t))) ?xs)) m out" for out
    by (rule runs_scan_prefix) (use assms in \<open>auto split: option.splits if_splits\<close>)
  have count: "length (take (limit_cap (Some 100)) (visible (Some (decode_for_scan (word_of_int t))) ?xs)) =
      (if v = None then 0 else 1)"
    by (cases v) (simp_all add: limit_cap_def scan_filter_is_live_value)
  show ?thesis
    unfolding cluster_scan_def
    by (rule runs_conseq, (rule runs_and_do scan runs_say)+) (simp_all only: count append_assoc append.simps)
qed

end







section \<open>A cluster that takes no writes\<close>

text \<open>Every call of the client reports the error \<open>e\<close> and changes nothing.\<close>

definition unavailable :: "('g, 'e) client_api \<Rightarrow> client_api_error \<Rightarrow> bool" where
  "unavailable A e \<longleftrightarrow>
     (\<forall>k v x. c_put A k v x = (Inl e, x)) \<and> (\<forall>ops x. c_batch A ops x = (Inl e, x)) \<and>
     (\<forall>k x. c_get_linearizable A k x = (Inl e, x))"

lemma unavailable_via:
  assumes "unavailable A e"
  shows "via_client (c_put A k b) n = (Inl (Client e), n)" "via_client (c_batch A ops) n = (Inl (Client e), n)"
    "via_client (c_get_linearizable A k) n = (Inl (Client e), n)"
  using assms by (simp_all add: unavailable_def via_client_def)

lemma roomy_check_sizes:
  "roomy L (limits n) \<Longrightarrow> length s \<le> 18 \<Longrightarrow> length v \<le> 18 \<Longrightarrow>
   check_sizes (str_bytes s) (str_bytes v) n = Inr ()"
  by (auto simp: roomy_def limits_def check_sizes_def validate_key_def validate_value_def)

lemma unavailable_fails:
  assumes "unavailable A e" and "roomy L l"
  shows "length s \<le> 18 \<Longrightarrow> length v \<le> 18 \<Longrightarrow>
      fails_with l (call (node_put A (str_bytes s) (str_bytes v))) (Client e)"
    and "fails_with l (call (node_batch A ops)) (Client e)"
    and "fails_with l (call_exec (node_get_linearizable L A t k)) (Client e)"
    and "length s \<le> 18 \<Longrightarrow> length v \<le> 18 \<Longrightarrow> 0 \<le> t \<Longrightarrow> t + uint ttl < 2 ^ 64 \<Longrightarrow>
      fails_with l (call_exec (node_put_with_ttl checks A t (str_bytes s) (str_bytes v) ttl)) (Client e)"
  using assms(2) unavailable_via [OF assms(1)]
  by (auto simp: fails_with_def call_def call_exec_def node_put_def node_batch_def node_put_with_ttl_def
      node_get_linearizable_def roomy_check_sizes unix_now_ok expiry_add)

lemma runs_cluster_counter_unavailable:
  assumes "unavailable A e"
  shows "runs V l m out (cluster_counter L A checks clock others) () m
    (out @ [Err [Lit ''db get_linearizable error: '', Debug (Client e)]])"
proof -
  have "cas_loop (\<lambda>t. node_get_linearizable L A t k) A checks k clock others 0 n =
      Some (Return (Inl (ReadFailed (Client e)), n))" for k n
    using assms by (subst cas_loop.simps)
      (simp add: cas_round_def node_get_linearizable_def unavailable_via)
  then show ?thesis
    by (simp add: runs_def cluster_counter_def and_do_def call_loop_def complain_def)
qed

definition degraded_lines :: "client_api_error \<Rightarrow> nat \<Rightarrow> printed list" where
  "degraded_lines e members =
    [Out [Lit ''cluster members = '', Number members],
     Err [Lit ''db put error: '', Debug (Client e)],
     Err [Lit ''db batch error: '', Debug (Client e)],
     Err [Lit ''db put error: '', Debug (Client e)],
     Err [Lit ''db get_linearizable error: '', Debug (Client e)],
     Err [Lit ''db get_linearizable error: '', Debug (Client e)],
     Err [Lit ''db put_with_ttl error: '', Debug (Client e)],
     Err [Lit ''db put_with_ttl error: '', Debug (Client e)],
     Out [Lit ''users on this node: '', Number 0],
     Out [Lit ''Node running. Press Ctrl+C to shutdown gracefully.''],
     Out [Lit ''Received Ctrl+C, shutting down gracefully...'']]"

lemma runs_get_None:
  fixes V :: "('e, 't) lmdb_view"
  assumes "lmdb_live L V" and "admissible_key L k" and "values_wf m" and "0 \<le> t" and "m k = None"
  shows "runs V l m out (call_exec (node_get L t k :: ('g, 'e) node \<Rightarrow> _)) None m out"
  using available_client.runs_get [OF lmdb_live.solo_available [OF assms(1)] assms(2-4), of None] assms(5)
  by simp

lemma runs_cluster_degraded:
  fixes V :: "('e, 't) lmdb_view" and A :: "('g, 'e) client_api"
  assumes "lmdb_live L V" and "unavailable A e" and "roomy L l" and "values_wf m"
    and "\<And>k. prefix (str_bytes ''user:'') k \<Longrightarrow> m k = None" and "\<And>i. 0 \<le> t i" and "\<And>i. t i < 2 ^ 63"
    and "\<And>n :: ('g, 'e) node. node_wait_ready E 10 n = (Inr (), n)"
    and "\<And>g. e_leader_info E g = None" and "\<And>g. e_membership E g = mb"
    and "\<And>j n. between j (n :: ('g, 'e) node) = n"
  shows "runs V l m [] (cluster_body L A E leader_id checks clock t others between) () m
    (degraded_lines e (length (mb_members mb)))"
proof -
  have near: "t i < 18446744073709551586" "t i < 18446744073709551606" for i using assms(7) [of i] by simp_all
  have scan: "runs V l m out (cluster_scan L (t 4) :: (('g, 'e) node, unit) program) () m
    (out @ [Out [Lit ''users on this node: '', Number 0],
            Out [Lit ''Node running. Press Ctrl+C to shutdown gracefully.''],
            Out [Lit ''Received Ctrl+C, shutting down gracefully...'']])" for out
    using available_client.runs_cluster_scan [OF lmdb_live.solo_available [OF assms(1)], of m None None] assms(5)
    by simp
  have ready: "runs V l m out (call (node_wait_ready E 10 :: ('g, 'e) node \<Rightarrow> _)) () m out" for out
    by (rule runs_call) (simp add: assms(8))
  note fails = unavailable_fails [OF assms(2,3)]
  have alone: "runs V l m out (meanwhile (between j)) () m out" for j out
    by (rule runs_meanwhile) (simp add: assms(11))
  show ?thesis
    unfolding cluster_body_def cluster_info_lines_def cluster_writes_def cluster_linearizable_def cluster_ttl_def
    by (rule runs_conseq, (rule runs_and_do ready runs_attempt_fails runs_control runs_inner_query runs_or_complain_fails fails runs_complain alone
      runs_get_None [OF assms(1)] runs_cluster_counter_unavailable [OF assms(2)] scan
      | simp add: node_leader_def node_cluster_info_def assms near roomy_simps [OF assms(3)] del: length_str_bytes)+)
      (simp add: degraded_lines_def)
qed


section \<open>Properties\<close>


text \<open>A fresh node on the in-memory store, opened from a configuration file.\<close>

definition demo_load :: "string \<Rightarrow> config_error + lmdb_table" where
  "demo_load p = Inr \<lparr>tab_data_dir = [''data''], tab_map_size_gb = Some 1, tab_max_key_bytes = None,
    tab_max_value_bytes = None\<rparr>"

lemma demo_open_from_file:
  "\<exists>n held. node_open_from_file True demo_load mem_api demo_host (Some p) {} = Return (Inr n, held) \<and>
    node_kv mem_view n = Map.empty \<and> limits n = (512, 1048576, lock_path [''data'']) \<and>
    release (lock_path [''data'']) held = {}"
proof -
  let ?config = "\<lparr>data_dir = [''data''], map_size_gb = 1073741824, max_key_bytes = 512,
    max_value_bytes = 1048576\<rparr>"
  obtain w where w: "wal_new mem_api (Inr ()) None = Inr w" using demo_wal.wal_new_live by blast
  obtain s where s: "sm_new mem_api (Inr ()) None ?config = Inr s" using mem.sm_new_live by blast
  have "config_from_file True demo_load (Some p) = Return (Inr ?config)"
    by (simp add: config_from_file_def demo_load_def deserialize_section_def or_default_def mul_u64_def
        default_max_key_bytes_def default_max_value_bytes_def)
  then have "node_open_from_file True demo_load mem_api demo_host (Some p) {} =
      Return (Inr \<lparr>inner = 0, node_sm = s, data_dir_lock = lock_path [''data''], node_max_key = 512,
        node_max_value = 1048576\<rparr>, {lock_path [''data'']})"
    by (simp add: node_open_from_file_def acquire_def try_lock_def open_stores_def demo_host_def w s
        finish_open_def Let_def)
  moreover have "kv_of mem_view s = Map.empty"
    using mem.sm_new_refines [OF s] by (simp add: kv_of_def)
  ultimately show ?thesis by (simp add: node_kv_def limits_def release_def)
qed









text \<open>The cluster example while no call of the client gets through and no leader is known: no
  error is lost and none ends the program. It reports each failed call once, in order, leaves the
  loop at the failed read, serves its local reads and ends in an orderly shutdown, with the
  contents unchanged.\<close>

theorem cluster_example_degrades:
  fixes n :: "('g, 'e) node"
  assumes "lmdb_live L V" and "unavailable A e" and "roomy L (limits n)"
    and "node_open_from_file checks load L H (Some config) held = Return (Inr n, held')"
    and "values_wf (node_kv V n)" and "\<And>k. prefix (str_bytes ''user:'') k \<Longrightarrow> node_kv V n k = None"
    and "\<And>i. 0 \<le> t i" and "\<And>i. t i < 2 ^ 63" and "\<And>m :: ('g, 'e) node. node_wait_ready E 10 m = (Inr (), m)"
    and "\<And>g. e_leader_info E g = None" and "\<And>g. e_membership E g = mb"
    and "\<And>x. fst (stop x) = Inr () \<and> kv_of V (snd (stop x)) = kv_of V (snd x)"
    and "\<And>j m. between j (m :: ('g, 'e) node) = m"
  shows "\<exists>s. cluster_main load L H A E leader_id stop checks clock t others between (Some config) held =
      Some (Return (Inr s, degraded_lines e (length (mb_members mb)), release (data_dir_lock n) held')) \<and>
    kv_of V s = node_kv V n"
proof -
  have "lmdb L V" using assms(1) by (simp add: lmdb_live_def)
  moreover have "runs V (limits n) (node_kv V n) [] (cluster_body L A E leader_id checks clock t others between) ()
      (node_kv V n) (degraded_lines e (length (mb_members mb)))"
    by (rule runs_cluster_degraded [OF assms(1,2,3,5-11,13)])
  ultimately show ?thesis
    using lmdb.run_main_ok [of L V n _ _ _ stop held'] assms(4,12) by (fastforce simp: cluster_main_def)
qed

definition no_client :: "(u64, mem) client_api" where
  "no_client =
    \<lparr>c_put = (\<lambda>_ _ x. (Inl (Business ClusterUnavailable ''no quorum'' None), x)),
     c_delete = (\<lambda>_ x. (Inl (Business ClusterUnavailable ''no quorum'' None), x)),
     c_batch = (\<lambda>_ x. (Inl (Business ClusterUnavailable ''no quorum'' None), x)),
     c_cas = (\<lambda>_ _ _ x. (Inl (Business ClusterUnavailable ''no quorum'' None), x)),
     c_get_linearizable = (\<lambda>_ x. (Inl (Business ClusterUnavailable ''no quorum'' None), x)),
     c_get_lease = (\<lambda>_ x. (Inl (Business ClusterUnavailable ''no quorum'' None), x))\<rparr>"

theorem cluster_example_degrades_witness:
  "\<exists>s. cluster_main demo_load mem_api demo_host no_client
      (solo_engine\<lparr>e_leader_info := \<lambda>_. None,
        e_membership := \<lambda>_. \<lparr>mb_members = [1], mb_learners = [], mb_committed_index = 0\<rparr>\<rparr>)
      (\<lambda>_. 1) (\<lambda>x. (Inr (), snd x)) True (\<lambda>_. 5) (\<lambda>_. 7) (\<lambda>_ n. n) (\<lambda>_ n. n) (Some ''n1.toml'') {} =
    Some (Return (Inr s, degraded_lines (Business ClusterUnavailable ''no quorum'' None) 1, {}))"
proof -
  let ?E = "solo_engine\<lparr>e_leader_info := \<lambda>_. None,
    e_membership := \<lambda>_. \<lparr>mb_members = [1], mb_learners = [], mb_committed_index = 0\<rparr>\<rparr>"
  obtain n held where n: "node_open_from_file True demo_load mem_api demo_host (Some ''n1.toml'') {} = Return (Inr n, held)"
    "node_kv mem_view n = Map.empty" "limits n = (512, 1048576, lock_path [''data''])"
    "release (lock_path [''data'']) held = {}"
    using demo_open_from_file by blast
  have "roomy mem_api (limits n)" using n(3) by (simp add: roomy_def mem_api_def mem_max_key_def)
  moreover have "data_dir_lock n = lock_path [''data'']" using n(3) by (simp add: limits_def)
  moreover have "unavailable no_client (Business ClusterUnavailable ''no quorum'' None)"
    by (simp add: unavailable_def no_client_def)
  moreover have "node_wait_ready ?E 10 m = (Inr (), m)" for m
    by (simp add: node_wait_ready_def solo_engine_def)
  ultimately show ?thesis
    using cluster_example_degrades [OF mem.lmdb_live_axioms _ _ n(1), of no_client "Business ClusterUnavailable ''no quorum'' None" "\<lambda>_. 7" ?E
        "\<lparr>mb_members = [1], mb_learners = [], mb_committed_index = 0\<rparr>" "\<lambda>x. (Inr (), snd x)" "\<lambda>_ n. n" "\<lambda>_. 1" "\<lambda>_. 5" "\<lambda>_ n. n"] n(2,4)
    by auto
qed

end
