(* ===== verification/Replica.thy ===== *)
theory Replica
  imports Node
begin

text \<open>
  Replicas that remove expired values on their own. \<open>delete_local\<close> deletes without consensus, so
  two nodes that applied the same log can store different bytes. The first theorem says when that
  is invisible: entries without compare-and-swap, and the log split into chunks and interleaved with
  local removals in any way, leave every later read the same. The other two give the cases where
  it is not: a compare-and-swap sees the stored bytes, and a removal that is decided on a value read
  earlier can hit a newer one.
\<close>


section \<open>Runs of one replica\<close>

text \<open>
  What one replica does: apply the next chunk of the log, or remove a value it finds expired at some
  time. The log a run applied is the concatenation of its chunks.
\<close>

datatype replica_step = ApplyChunk "apply_entry list" | ReapKey u64 bytes

fun run_step :: "replica_step \<Rightarrow> kv \<Rightarrow> kv" where
  "run_step (ApplyChunk chunk) m = snd (spec_chunk chunk m)"
| "run_step (ReapKey now k) m = reap now k m"

fun run_log :: "replica_step list \<Rightarrow> apply_entry list" where
  "run_log [] = []"
| "run_log (ApplyChunk chunk # steps) = chunk @ run_log steps"
| "run_log (ReapKey now k # steps) = run_log steps"

definition reaps_by :: "u64 \<Rightarrow> replica_step list \<Rightarrow> bool" where
  "reaps_by now steps \<longleftrightarrow> (\<forall>t k. ReapKey t k \<in> set steps \<longrightarrow> t \<le> now)"

text \<open>Two stores that no read at \<open>now\<close> or later can tell apart.\<close>

definition read_equiv :: "u64 \<Rightarrow> kv \<Rightarrow> kv \<Rightarrow> bool" where
  "read_equiv now m m' \<longleftrightarrow> (\<forall>later \<ge> now. logical later m = logical later m')"

lemma read_equiv_refl [simp]: "read_equiv now m m"
  by (simp add: read_equiv_def)

lemma read_equiv_trans: "read_equiv now m1 m2 \<Longrightarrow> read_equiv now m2 m3 \<Longrightarrow> read_equiv now m1 m3"
  by (simp add: read_equiv_def)

lemma read_equiv_sym: "read_equiv now m m' \<Longrightarrow> read_equiv now m' m"
  by (simp add: read_equiv_def)

lemma read_equiv_reap: "t \<le> now \<Longrightarrow> read_equiv now (reap t k m) m"
  unfolding read_equiv_def using logical_reap order_trans by blast

lemma logical_spec_op_cong:
  "logical now m = logical now m' \<Longrightarrow> logical now (spec_op op m) = logical now (spec_op op m')"
  by (cases op) simp_all

lemma logical_fold_cong:
  "logical now m = logical now m' \<Longrightarrow>
   logical now (fold spec_op ops m) = logical now (fold spec_op ops m')"
proof (induction ops arbitrary: m m')
  case (Cons op ops)
  show ?case
    using Cons.IH [OF logical_spec_op_cong [OF Cons.prems], of op] by (simp only: fold.simps comp_apply)
qed (simp only: fold.simps id_apply)

lemma read_equiv_chunk:
  "cas_free chunk \<Longrightarrow> read_equiv now m m' \<Longrightarrow>
   read_equiv now (snd (spec_chunk chunk m)) (snd (spec_chunk chunk m'))"
  unfolding read_equiv_def cas_free_spec using logical_fold_cong by blast

lemma run_read_equiv:
  "cas_free (run_log steps) \<Longrightarrow> reaps_by now steps \<Longrightarrow> read_equiv now m m' \<Longrightarrow>
   read_equiv now (fold run_step steps m) (snd (spec_chunk (run_log steps) m'))"
proof (induction steps arbitrary: m m')
  case (Cons step steps)
  have later: "reaps_by now steps" using Cons.prems(2) by (simp add: reaps_by_def)
  show ?case
  proof (cases step)
    case (ApplyChunk chunk)
    have free: "cas_free chunk" "cas_free (run_log steps)"
      using Cons.prems(1) ApplyChunk by (simp_all add: cas_free_def)
    show ?thesis
      using Cons.IH [OF free(2) later read_equiv_chunk [OF free(1) Cons.prems(3)]] ApplyChunk
      by (simp add: spec_chunk_append)
  next
    case (ReapKey t k)
    have "t \<le> now" using Cons.prems(2) ReapKey by (simp add: reaps_by_def)
    then have "read_equiv now (reap t k m) m'"
      using read_equiv_reap read_equiv_trans Cons.prems(3) by blast
    then show ?thesis using Cons.IH [OF _ later] Cons.prems(1) ReapKey by simp
  qed
qed simp


section \<open>Properties\<close>

text \<open>Two replicas that applied the same compare-and-swap-free log, each in chunks of its own
  and each removing expired values whenever it liked up to some time, answer every read from that
  time on alike.\<close>

theorem replicas_read_alike:
  assumes "run_log p = run_log q" and "cas_free (run_log p)" and "reaps_by now p" and "reaps_by now q"
  shows "read_equiv now (fold run_step p m) (fold run_step q m)"
proof -
  have "read_equiv now (fold run_step p m) (snd (spec_chunk (run_log p) m))"
    using assms(2,3) by (rule run_read_equiv) simp
  moreover have "read_equiv now (fold run_step q m) (snd (spec_chunk (run_log p) m))"
    using run_read_equiv [of q now m m] assms by simp
  ultimately show ?thesis using read_equiv_trans read_equiv_sym by blast
qed

definition ttl_log :: "apply_entry list" where
  "ttl_log = [demo_entry 1 (Insert [7] (encode_ttl [1] (Some 3)) None)]"

theorem replicas_read_alike_witness:
  "logical 5 (fold run_step [ApplyChunk ttl_log, ReapKey 4 [7]] Map.empty) =
    logical 5 (fold run_step [ApplyChunk ttl_log] Map.empty)"
  using replicas_read_alike [of "[ApplyChunk ttl_log, ReapKey 4 [7]]" "[ApplyChunk ttl_log]" 5 Map.empty]
  by (simp add: read_equiv_def ttl_log_def demo_entry_def cas_free_def reaps_by_def word_le_nat_alt)

text \<open>With a compare-and-swap in the log the local removal is visible: of two replicas that
  applied the same log, the one that had removed the expired value stores the new one, the other
  refuses it, and from then on every read of the key differs between them.\<close>

theorem reaping_diverges_on_cas:
  "\<exists>chunk. run_log [ApplyChunk ttl_log, ReapKey 4 [7], ApplyChunk chunk] =
      run_log [ApplyChunk ttl_log, ApplyChunk chunk] \<and>
    (\<forall>now. logical (max 4 now)
        (fold run_step [ApplyChunk ttl_log, ReapKey 4 [7], ApplyChunk chunk] Map.empty) [7] = Some [2] \<and>
      logical (max 4 now) (fold run_step [ApplyChunk ttl_log, ApplyChunk chunk] Map.empty) [7] = None)"
proof (intro exI [of _ "[demo_entry 2 (CompareAndSwap [7] None (encode_raw [2]))]"] conjI allI)
  fix now :: u64
  have "(3 :: u64) \<le> 4" by (simp add: word_le_nat_alt)
  then have le: "3 \<le> max 4 now" by (simp add: le_max_iff_disj)
  have "decode_live_value (encode_ttl [1] (Some 3)) 4 = Inr Expired"
    by (simp add: decode_live_value_def word_le_nat_alt)
  then show "logical (max 4 now) (fold run_step [ApplyChunk ttl_log, ReapKey 4 [7],
      ApplyChunk [demo_entry 2 (CompareAndSwap [7] None (encode_raw [2]))]] Map.empty) [7] = Some [2]"
    by (simp add: ttl_log_def demo_entry_def reap_def expired_def)
  show "logical (max 4 now) (fold run_step [ApplyChunk ttl_log,
      ApplyChunk [demo_entry 2 (CompareAndSwap [7] None (encode_raw [2]))]] Map.empty) [7] = None"
    using le by (simp add: ttl_log_def demo_entry_def)
qed (simp add: ttl_log_def)

text \<open>C36. A point read is two transactions, one to fetch and one to remove. When a committed write of
  the same key is applied between them, the read, which had fetched an expired value, removes the
  new one: the write was acknowledged and is in the log, and this replica has lost it for every
  later read.\<close>

theorem reap_race_loses_write:
  assumes "lmdb_live L V" and "admissible_key L k" and "0 \<le> clock"
    and "node_kv V n k = Some (encode_ttl w (Some ts))" and "ts \<le> word_of_int clock"
    and "entry_command e = Insert k (encode_raw v) None"
  shows "\<exists>raw rs s n'. sm_get L (node_sm n) k = Inr raw \<and>
    apply_chunk L [e] (node_sm n) = (Inr rs, s) \<and> kv_of V s k = Some (encode_raw v) \<and>
    decode_and_reap L clock k raw (n\<lparr>node_sm := s\<rparr>) = Return (Inr None, n') \<and>
    (\<forall>now. logical now (node_kv V n') k = None)"
proof -
  have lmdb: "lmdb L V" using assms(1) by (rule lmdb_live.axioms)
  have "chunk_admissible L [e]" using assms(2,6) by (simp add: chunk_admissible_def)
  then obtain rs s where run: "apply_chunk L [e] (node_sm n) = (Inr rs, s)"
    using lmdb_live.apply_chunk_live [OF assms(1)] by blast
  obtain s' where s': "delete_local L k s = (Inr (), s')"
    using lmdb_live.delete_local_live [OF assms(1,2)] by blast
  have raw: "sm_get L (node_sm n) k = Inr (Some (encode_ttl w (Some ts)))"
    using lmdb_live.sm_get_live [OF assms(1,2), of "node_sm n"] assms(4) by (simp add: node_kv_def)
  have "kv_of V s k = Some (encode_raw v)"
    using lmdb.apply_chunk_refines(2) [OF lmdb run] assms(6) by (simp add: kv_of_def [of V s])
  moreover have "decode_and_reap L clock k (Some (encode_ttl w (Some ts))) (n\<lparr>node_sm := s\<rparr>) =
      Return (Inr None, n\<lparr>node_sm := s'\<rparr>)"
    using s' assms(5) by (simp add: decode_and_reap_def unix_now_ok [OF assms(3)] decode_live_value_def)
  moreover have "\<forall>now. logical now (node_kv V (n\<lparr>node_sm := s'\<rparr>)) k = None"
    using lmdb.delete_local_refines(1) [OF lmdb s'] by (simp add: node_kv_def kv_of_def [of V s'] logical_def)
  ultimately show ?thesis using raw run by blast
qed

theorem reap_race_loses_write_witness:
  "\<exists>raw rs s n'. sm_get mem_api (node_sm (demo_node [([7], encode_ttl [1] (Some 3))])) [7] = Inr raw \<and>
    apply_chunk mem_api [demo_entry 2 (Insert [7] (encode_raw [2]) None)]
      (node_sm (demo_node [([7], encode_ttl [1] (Some 3))])) = (Inr rs, s) \<and>
    decode_and_reap mem_api 5 [7] raw (demo_node [([7], encode_ttl [1] (Some 3))]\<lparr>node_sm := s\<rparr>) = Return (Inr None, n') \<and>
    logical 5 (node_kv mem_view n') [7] = None"
  using reap_race_loses_write [OF mem.lmdb_live_axioms, of "[7]" 5
      "demo_node [([7], encode_ttl [1] (Some 3))]" "[1]" 3
      "demo_entry 2 (Insert [7] (encode_raw [2]) None)" "[2]"]
  by (fastforce simp: demo_entry_def)

end
