(* ===== verification/Interleave.thy ===== *)
theory Interleave
  imports Replica
begin

text \<open>
  A scan concurrent with the applier. \<open>apply_chunk\<close> commits its transaction, then stores the two
  halves of \<open>last_applied\<close>; a scan opens a read transaction, then loads \<open>last_applied_index\<close> as the
  revision of its result. No lock spans these steps, so here each is a transition of its own and
  the two threads interleave freely. One result bounds how far the entries of a scan and its
  revision can be apart, the other shows that they do come apart, in both directions.
\<close>


section \<open>The steps\<close>

definition commit_chunk ::
  "('e, 't) lmdb_api \<Rightarrow> apply_entry list \<Rightarrow> 'e state_machine \<Rightarrow>
   (engine_error + apply_result list \<times> log_id option) \<times> 'e state_machine" where
  "commit_chunk L chunk s =
    (case map_err lmdb_err (write_txn L (sm_env s)) of
       Inl e \<Rightarrow> (Inl e, s)
     | Inr wtxn \<Rightarrow>
         (case apply_loop L chunk wtxn [] None (entry_terms s) of
            (Inl e, terms) \<Rightarrow> (Inl e, s\<lparr>entry_terms := terms\<rparr>)
          | (Inr (wtxn, results, highest), terms) \<Rightarrow>
              (case map_err lmdb_err (txn_commit L wtxn) of
                 Inl e \<Rightarrow> (Inl e, s\<lparr>entry_terms := terms\<rparr>)
               | Inr env \<Rightarrow> (Inr (results, highest), s\<lparr>entry_terms := terms, sm_env := env\<rparr>))))"

text \<open>The two stores of \<open>update_last_applied\<close>.\<close>

definition store_index :: "log_id \<Rightarrow> 'e state_machine \<Rightarrow> 'e state_machine" where
  "store_index l s = s\<lparr>last_applied_index := log_index l\<rparr>"

definition store_term :: "log_id \<Rightarrow> 'e state_machine \<Rightarrow> 'e state_machine" where
  "store_term l s = s\<lparr>last_applied_term := log_term l\<rparr>"

text \<open>The rest of a scan once it has its transaction and its revision.\<close>

definition finish_scan ::
  "('e, 't) lmdb_api \<Rightarrow> 't \<Rightarrow> u64 \<Rightarrow> bound \<Rightarrow> bytes option \<Rightarrow> nat option \<Rightarrow> scan_filter \<Rightarrow>
   engine_error + scan_result" where
  "finish_scan L rtxn revision start hi limit filt =
    and_then (map_err lmdb_err (db_range L rtxn DB_KV start Unbounded)) (\<lambda>iter.
    map_ok (\<lambda>entries. \<lparr>scan_entries = entries, scan_revision = revision\<rparr>)
      (scan_loop iter hi (limit_cap limit) filt []))"

text \<open>Without interference the steps make up the sequential functions.\<close>

lemma apply_chunk_steps:
  "apply_chunk L chunk s =
    (case commit_chunk L chunk s of
       (Inl e, s') \<Rightarrow> (Inl e, s')
     | (Inr (rs, None), s') \<Rightarrow> (Inr rs, s')
     | (Inr (rs, Some l), s') \<Rightarrow> (Inr rs, store_term l (store_index l s')))"
  by (auto simp: apply_chunk_def commit_chunk_def store_index_def store_term_def update_last_applied_def
      split: sum.split prod.split option.split)

lemma scan_range_core_steps:
  "scan_range_core L s start hi limit filt =
    and_then (map_err lmdb_err (read_txn L (sm_env s))) (\<lambda>rtxn.
      finish_scan L rtxn (last_applied_index s) start hi limit filt)"
  by (simp add: scan_range_core_def finish_scan_def)


section \<open>Interleavings\<close>

datatype applier_pc = Idle | IndexNext log_id | TermNext log_id

datatype 't scan_pc = NotStarted | Opened 't | Loaded 't u64

record ('e, 't) conc =
  shared :: "'e state_machine"
  pending :: "apply_entry list list"
  applier :: applier_pc
  scanner :: "'t scan_pc"

text \<open>A chunk whose transaction failed stays pending; the engine applies it again.\<close>

inductive conc_step :: "('e, 't) lmdb_api \<Rightarrow> ('e, 't) conc \<Rightarrow> ('e, 't) conc \<Rightarrow> bool"
  for L :: "('e, 't) lmdb_api" where
  committed: "applier c = Idle \<Longrightarrow> pending c = chunk # rest \<Longrightarrow>
    commit_chunk L chunk (shared c) = (Inr (rs, highest), s) \<Longrightarrow>
    conc_step L c (c\<lparr>shared := s, pending := rest,
      applier := (case highest of None \<Rightarrow> Idle | Some l \<Rightarrow> IndexNext l)\<rparr>)"
| commit_failed: "applier c = Idle \<Longrightarrow> pending c = chunk # rest \<Longrightarrow>
    commit_chunk L chunk (shared c) = (Inl e, s) \<Longrightarrow> conc_step L c (c\<lparr>shared := s\<rparr>)"
| index_stored: "applier c = IndexNext l \<Longrightarrow>
    conc_step L c (c\<lparr>shared := store_index l (shared c), applier := TermNext l\<rparr>)"
| term_stored: "applier c = TermNext l \<Longrightarrow>
    conc_step L c (c\<lparr>shared := store_term l (shared c), applier := Idle\<rparr>)"
| opened: "scanner c = NotStarted \<Longrightarrow> read_txn L (sm_env (shared c)) = Inr t \<Longrightarrow>
    conc_step L c (c\<lparr>scanner := Opened t\<rparr>)"
| loaded: "scanner c = Opened t \<Longrightarrow>
    conc_step L c (c\<lparr>scanner := Loaded t (last_applied_index (shared c))\<rparr>)"

inductive conc_reachable ::
  "('e, 't) lmdb_api \<Rightarrow> 'e state_machine \<Rightarrow> apply_entry list list \<Rightarrow> ('e, 't) conc \<Rightarrow> bool"
  for L :: "('e, 't) lmdb_api" and s0 :: "'e state_machine" and chunks :: "apply_entry list list" where
  start: "conc_reachable L s0 chunks \<lparr>shared = s0, pending = chunks, applier = Idle, scanner = NotStarted\<rparr>"
| step: "conc_reachable L s0 chunks c \<Longrightarrow> conc_step L c c' \<Longrightarrow> conc_reachable L s0 chunks c'"

text \<open>The contents and the applied index after the chunks \<open>xs\<close>.\<close>

definition contents_after :: "kv \<Rightarrow> apply_entry list list \<Rightarrow> kv" where
  "contents_after m xs = snd (spec_chunk (concat xs) m)"

definition index_after :: "u64 \<Rightarrow> apply_entry list list \<Rightarrow> u64" where
  "index_after i xs = (if concat xs = [] then i else entry_index (last (concat xs)))"

lemma contents_after_snoc: "contents_after m (xs @ [x]) = snd (spec_chunk x (contents_after m xs))"
  by (simp add: contents_after_def spec_chunk_append)

lemma index_after_snoc: "index_after i (xs @ [x]) = (if x = [] then index_after i xs else entry_index (last x))"
  by (simp add: index_after_def)

context lmdb
begin

lemma commit_chunk_refines:
  assumes "commit_chunk L chunk s = (Inr (rs, highest), s')"
  shows "kv_of V s' = snd (spec_chunk chunk (kv_of V s))" and "last_applied_index s' = last_applied_index s"
    and "last_applied_term s' = last_applied_term s"
    and "highest = (if chunk = [] then None else Some (entry_id (last chunk)))"
proof -
  obtain t t' ts env where steps: "write_txn L (sm_env s) = Inr t"
    "apply_loop L chunk t [] None (entry_terms s) = (Inr (t', rs, highest), ts)"
    "txn_commit L t' = Inr env" and s': "s' = s\<lparr>entry_terms := ts, sm_env := env\<rparr>"
    using assms by (auto simp: commit_chunk_def split: sum.splits prod.splits)
  note facts = write_txn [OF steps(1)] apply_loop_refines [OF steps(2)] commit [OF steps(3)]
  show "kv_of V s' = snd (spec_chunk chunk (kv_of V s))" using facts s' by (simp add: kv_of_def)
  show "last_applied_index s' = last_applied_index s" "last_applied_term s' = last_applied_term s"
    using s' by simp_all
  show "highest = (if chunk = [] then None else Some (entry_id (last chunk)))"
    using facts by (simp add: advance_def)
qed

lemma commit_chunk_error_frame:
  "commit_chunk L chunk s = (Inl e, s') \<Longrightarrow> kv_of V s' = kv_of V s \<and> last_applied_index s' = last_applied_index s"
  by (auto simp: commit_chunk_def kv_of_def split: sum.splits prod.splits)

text \<open>
  \<open>n\<close> chunks are committed and \<open>p\<close> of them are in \<open>last_applied_index\<close>; a scan has seen \<open>j\<close> and its
  revision counts \<open>q\<close>.
\<close>

definition conc_inv ::
  "'e state_machine \<Rightarrow> apply_entry list list \<Rightarrow> nat \<Rightarrow> nat \<Rightarrow> ('e, 't) conc \<Rightarrow> bool" where
  "conc_inv s0 chunks n p c \<longleftrightarrow>
     n \<le> length chunks \<and> pending c = drop n chunks \<and>
     kv_of V (shared c) = contents_after (kv_of V s0) (take n chunks) \<and>
     last_applied_index (shared c) = index_after (last_applied_index s0) (take p chunks) \<and>
     (case applier c of
        IndexNext l \<Rightarrow> n = Suc p \<and> chunks ! p \<noteq> [] \<and> l = entry_id (last (chunks ! p))
      | _ \<Rightarrow> p = n) \<and>
     (case scanner c of
        NotStarted \<Rightarrow> True
      | Opened t \<Rightarrow> \<exists>j \<le> n. txn_view V t DB_KV = contents_after (kv_of V s0) (take j chunks)
      | Loaded t r \<Rightarrow> \<exists>j \<le> n. \<exists>q \<le> n. j \<le> Suc q \<and>
          txn_view V t DB_KV = contents_after (kv_of V s0) (take j chunks) \<and>
          r = index_after (last_applied_index s0) (take q chunks))"

lemma conc_inv_le: "conc_inv s0 chunks n p c \<Longrightarrow> p \<le> n \<and> n \<le> Suc p"
  by (auto simp: conc_inv_def split: applier_pc.splits)

lemma chunk_committed_inv:
  assumes "conc_inv s0 chunks n p c" and "applier c = Idle" and "pending c = chunk # rest"
    and "commit_chunk L chunk (shared c) = (Inr (rs, highest), s)"
  shows "\<exists>n' p'. conc_inv s0 chunks n' p' (c\<lparr>shared := s, pending := rest,
    applier := (case highest of None \<Rightarrow> Idle | Some l \<Rightarrow> IndexNext l)\<rparr>)"
    (is "\<exists>n' p'. conc_inv s0 chunks n' p' ?c")
proof -
  note inv = assms(1) [unfolded conc_inv_def]
  have "drop n chunks = chunk # rest" using inv assms(3) by simp
  then have n: "n < length chunks" "chunks ! n = chunk" "drop (Suc n) chunks = rest"
    by (metis drop_eq_Nil list.distinct(1) not_le, metis nth_via_drop, metis drop_Suc drop_tl list.sel(3))
  have take: "take (Suc n) chunks = take n chunks @ [chunk]" using n by (simp add: take_Suc_conv_app_nth)
  note facts = commit_chunk_refines [OF assms(4)]
  have "p = n" using inv assms(2) by simp
  show ?thesis
  proof (cases "chunk = []")
    case True
    have "conc_inv s0 chunks (Suc n) (Suc n) ?c"
      using inv assms(2) n take facts True \<open>p = n\<close>
      by (auto simp: conc_inv_def contents_after_snoc index_after_snoc le_Suc_eq split: scan_pc.splits)
    then show ?thesis by blast
  next
    case False
    have "conc_inv s0 chunks (Suc n) n ?c"
      using inv assms(2) n take facts False \<open>p = n\<close>
      by (auto simp: conc_inv_def contents_after_snoc le_Suc_eq split: scan_pc.splits)
    then show ?thesis by blast
  qed
qed

lemma conc_step_inv:
  assumes "conc_step L c c'" and "conc_inv s0 chunks n p c"
  shows "\<exists>n' p'. conc_inv s0 chunks n' p' c'"
  using assms
proof cases
  case (committed chunk rest rs highest s)
  then show ?thesis using chunk_committed_inv [OF assms(2) committed(2,3)] by simp
next
  case (commit_failed chunk rest e s)
  then have "conc_inv s0 chunks n p c'"
    using assms(2) commit_chunk_error_frame [OF commit_failed(4)] by (simp add: conc_inv_def)
  then show ?thesis by blast
next
  case (index_stored l)
  note inv = assms(2) [unfolded conc_inv_def]
  have "take (Suc p) chunks = take p chunks @ [chunks ! p]"
    using inv index_stored(2) by (simp add: take_Suc_conv_app_nth)
  then have "conc_inv s0 chunks n n c'"
    using inv index_stored
    by (auto simp: conc_inv_def store_index_def kv_of_def index_after_snoc entry_id_def)
  then show ?thesis by blast
next
  case (term_stored l)
  then have "conc_inv s0 chunks n p c'"
    using assms(2) by (simp add: conc_inv_def store_term_def kv_of_def)
  then show ?thesis by blast
next
  case (opened t)
  have "txn_view V t DB_KV = kv_of V (shared c)"
    using read_txn [OF opened(3)] by (simp add: kv_of_def)
  then have "conc_inv s0 chunks n p c'"
    using assms(2) opened(1) by (auto simp: conc_inv_def)
  then show ?thesis by blast
next
  case (loaded t)
  have "conc_inv s0 chunks n p c'"
    using assms(2) loaded conc_inv_le [OF assms(2)] by (fastforce simp: conc_inv_def)
  then show ?thesis by blast
qed

lemma reachable_conc_inv: "conc_reachable L s0 chunks c \<Longrightarrow> \<exists>n p. conc_inv s0 chunks n p c"
proof (induction rule: conc_reachable.induct)
  case start
  have "conc_inv s0 chunks 0 0 \<lparr>shared = s0, pending = chunks, applier = Idle, scanner = NotStarted\<rparr>"
    by (simp add: conc_inv_def contents_after_def index_after_def)
  then show ?case by blast
qed (use conc_step_inv in blast)

end


section \<open>Properties\<close>

text \<open>C16. A scan that runs while chunks are applied is isolated but not stamped: its entries are the
  filtered range of the contents after some first \<open>j\<close> chunks, none of them in part; its revision
  is the applied index after some first \<open>q\<close> chunks, where \<open>q\<close> can lag behind \<open>j\<close> by at most the one
  chunk in flight, and is not bounded above by \<open>j\<close>.\<close>

theorem concurrent_scan:
  assumes "lmdb L V" and "conc_reachable L s0 chunks c" and "scanner c = Loaded t r"
    and "finish_scan L t r start hi limit filt = Inr result"
  shows "\<exists>j q. j \<le> length chunks \<and> q \<le> length chunks \<and> j \<le> q + 1 \<and>
    scan_entries result = take (limit_cap limit) (visible filt
      (range_items (contents_after (kv_of V s0) (take j chunks)) start (end_bound hi))) \<and>
    scan_revision result = index_after (last_applied_index s0) (take q chunks)"
proof -
  obtain n p where "lmdb.conc_inv V s0 chunks n p c"
    using lmdb.reachable_conc_inv [OF assms(1,2)] by blast
  then have n: "n \<le> length chunks" and "\<exists>j \<le> n. \<exists>q \<le> n. j \<le> Suc q \<and>
      txn_view V t DB_KV = contents_after (kv_of V s0) (take j chunks) \<and>
      r = index_after (last_applied_index s0) (take q chunks)"
    using assms(3) by (simp_all add: lmdb.conc_inv_def [OF assms(1)])
  then obtain j q where "j \<le> n" "q \<le> n" "j \<le> Suc q"
    and jq: "txn_view V t DB_KV = contents_after (kv_of V s0) (take j chunks)"
    "r = index_after (last_applied_index s0) (take q chunks)"
    by blast
  then have "j \<le> length chunks" "q \<le> length chunks" "j \<le> q + 1" using n by simp_all
  note jq = this jq
  obtain its es where steps: "db_range L t DB_KV start Unbounded = Inr its"
    "scan_loop its hi (limit_cap limit) filt [] = Inr es"
    and result: "result = \<lparr>scan_entries = es, scan_revision = r\<rparr>"
    using assms(4) by (auto simp: finish_scan_def and_then_eq_Inr)
  have "es = take (limit_cap limit) (visible filt
      (range_items (contents_after (kv_of V s0) (take j chunks)) start (end_bound hi)))"
    using scan_loop_sound [OF lmdb.range [OF assms(1) steps(1)] steps(2)] jq(4)
    by (simp add: takeWhile_range_items)
  then show ?thesis using jq result by auto
qed

text \<open>The entries a scan of the contents \<open>m\<close> has.\<close>

definition scan_of :: "kv \<Rightarrow> bound \<Rightarrow> bytes option \<Rightarrow> nat option \<Rightarrow> scan_filter \<Rightarrow> (bytes \<times> bytes) list" where
  "scan_of m start hi limit filt = take (limit_cap limit) (visible filt (range_items m start (end_bound hi)))"

context lmdb_live
begin

lemma commit_chunk_live:
  assumes "chunk_admissible L chunk" and "chunk \<noteq> []"
  shows "\<exists>rs s'. commit_chunk L chunk s = (Inr (rs, Some (entry_id (last chunk))), s') \<and>
    kv_of V s' = snd (spec_chunk chunk (kv_of V s)) \<and> last_applied s' = last_applied s"
proof -
  obtain t where t: "write_txn L (sm_env s) = Inr t" using write_txn_ok by blast
  obtain t' rs h ts where loop: "apply_loop L chunk t [] None (entry_terms s) = (Inr (t', rs, h), ts)"
    using apply_loop_live [OF assms(1)] by (metis prod_cases3)
  obtain env where "txn_commit L t' = Inr env" using commit_ok by blast
  then obtain s' where run: "commit_chunk L chunk s = (Inr (rs, h), s')"
    by (simp add: commit_chunk_def t loop)
  show ?thesis using commit_chunk_refines [OF run] run assms(2) by (auto simp: last_applied_def)
qed

lemma finish_scan_live:
  assumes "\<not> empty_start start"
  shows "finish_scan L t r start hi limit filt =
    Inr \<lparr>scan_entries = scan_of (txn_view V t DB_KV) start hi limit filt, scan_revision = r\<rparr>"
proof -
  obtain es where "scan_loop (map Inr (range_items (txn_view V t DB_KV) start Unbounded)) hi
      (limit_cap limit) filt [] = Inr es" using scan_loop_total by blast
  moreover have "db_range L t DB_KV start Unbounded = Inr (map Inr (range_items (txn_view V t DB_KV) start Unbounded))"
    using range_ok [OF assms] by blast
  ultimately show ?thesis
    using scan_loop_sound [OF range] by (fastforce simp: finish_scan_def scan_of_def takeWhile_range_items)
qed

text \<open>The two runs, on one chunk.\<close>

lemma run_ahead:
  assumes "commit_chunk L chunk s0 = (Inr (rs, Some l), s)" and "read_txn L (sm_env s0) = Inr t"
  shows "conc_reachable L s0 [chunk]
    \<lparr>shared = store_index l s, pending = [], applier = TermNext l, scanner = Loaded t (log_index l)\<rparr>"
proof -
  let ?c = "\<lambda>s p a. \<lparr>shared = s, pending = p, applier = a, scanner = Opened t\<rparr>"
  note conc_reachable.start [of L s0 "[chunk]"]
  moreover have "conc_step L \<lparr>shared = s0, pending = [chunk], applier = Idle, scanner = NotStarted\<rparr> (?c s0 [chunk] Idle)"
    using conc_step.opened [of "\<lparr>shared = s0, pending = [chunk], applier = Idle, scanner = NotStarted\<rparr>" L t] assms(2)
    by simp
  moreover have "conc_step L (?c s0 [chunk] Idle) (?c s [] (IndexNext l))"
    using conc_step.committed [of "?c s0 [chunk] Idle" chunk "[]" L rs "Some l" s] assms(1) by simp
  moreover have "conc_step L (?c s [] (IndexNext l)) (?c (store_index l s) [] (TermNext l))"
    using conc_step.index_stored [of "?c s [] (IndexNext l)" l L] by simp
  moreover have "conc_step L (?c (store_index l s) [] (TermNext l))
      \<lparr>shared = store_index l s, pending = [], applier = TermNext l, scanner = Loaded t (log_index l)\<rparr>"
    using conc_step.loaded [of "?c (store_index l s) [] (TermNext l)" t L] by (simp add: store_index_def)
  ultimately show ?thesis by (meson conc_reachable.step)
qed

lemma run_behind:
  assumes "commit_chunk L chunk s0 = (Inr (rs, Some l), s)" and "read_txn L (sm_env s) = Inr t"
  shows "conc_reachable L s0 [chunk]
    \<lparr>shared = s, pending = [], applier = IndexNext l, scanner = Loaded t (last_applied_index s)\<rparr>"
proof -
  let ?c = "\<lambda>pc. \<lparr>shared = s, pending = [], applier = IndexNext l, scanner = pc\<rparr>"
  let ?init = "\<lparr>shared = s0, pending = [chunk], applier = Idle, scanner = NotStarted\<rparr>"
  note conc_reachable.start [of L s0 "[chunk]"]
  moreover have "conc_step L ?init (?c NotStarted)"
    using conc_step.committed [of ?init chunk "[]" L rs "Some l" s] assms(1) by simp
  moreover have "conc_step L (?c NotStarted) (?c (Opened t))"
    using conc_step.opened [of "?c NotStarted" L t] assms(2) by simp
  moreover have "conc_step L (?c (Opened t)) (?c (Loaded t (last_applied_index s)))"
    using conc_step.loaded [of "?c (Opened t)" t L] by simp
  ultimately show ?thesis by (meson conc_reachable.step)
qed

text \<open>\<open>last_applied\<close> loads the two halves one after the other, so it can pair the new index with the
  old term, which is the id of no entry.\<close>

lemma last_applied_torn:
  assumes "chunk_admissible L chunk" and "chunk \<noteq> []"
  shows "\<exists>c. conc_reachable L s0 [chunk] c \<and>
    last_applied (shared c) = \<lparr>log_index = entry_index (last chunk), log_term = last_applied_term s0\<rparr>"
proof -
  obtain rs s where commit: "commit_chunk L chunk s0 = (Inr (rs, Some (entry_id (last chunk))), s)"
    "last_applied s = last_applied s0"
    using commit_chunk_live [OF assms] by blast
  obtain t where "read_txn L (sm_env s0) = Inr t" using read_txn_ok by blast
  from run_ahead [OF commit(1) this] show ?thesis
    using commit(2) by (fastforce simp: last_applied_def store_index_def entry_id_def)
qed

end

theorem concurrent_scan_witness:
  "\<exists>c t r result j q. conc_reachable mem_api demo_sm [[demo_entry 1 (Insert [5] [0, 1] None)]] c \<and>
    scanner c = Loaded t r \<and> finish_scan mem_api t r Unbounded None (Some 9) None = Inr result \<and>
    j \<le> (1 :: nat) \<and> q \<le> (1 :: nat) \<and> j \<le> q + 1 \<and>
    scan_revision result = index_after 0 (take q [[demo_entry 1 (Insert [5] [0, 1] None)]])"
proof -
  let ?chunk = "[demo_entry 1 (Insert [5] [0, 1] None)]"
  have "chunk_admissible mem_api ?chunk" by (simp add: chunk_admissible_def demo_entry_def)
  then obtain rs s where commit: "commit_chunk mem_api ?chunk demo_sm = (Inr (rs, Some (entry_id (last ?chunk))), s)"
    using mem.commit_chunk_live [of ?chunk demo_sm] by blast
  obtain t where t: "read_txn mem_api (sm_env demo_sm) = Inr t" using mem.read_txn_ok by blast
  note reach = mem.run_ahead [OF commit t]
  have finish: "finish_scan mem_api t (log_index (entry_id (last ?chunk))) Unbounded None (Some 9) None =
    Inr \<lparr>scan_entries = scan_of (txn_view mem_view t DB_KV) Unbounded None (Some 9) None,
      scan_revision = log_index (entry_id (last ?chunk))\<rparr>"
    by (rule mem.finish_scan_live) (simp add: empty_start_def)
  have "last_applied_index demo_sm = 0" by (simp add: demo_sm_def)
  then show ?thesis
    using concurrent_scan [OF mem.lmdb_axioms reach _ finish] reach finish
    by (fastforce simp del: take_Cons')
qed

text \<open>C17. Both ends of that bound are reached, on every healthy store and for every chunk that writes
  anything: there is a run in which a scan returns the contents before the chunk with the revision
  after it, so a reader that resumes from the revision never sees the chunk, and one in which it
  returns the contents after the chunk with the revision before it.\<close>

theorem scan_revision_races:
  assumes "lmdb_live L V" and "chunk_admissible L chunk" and "chunk \<noteq> []" and "\<not> empty_start start"
  shows "(\<exists>c t r. conc_reachable L s0 [chunk] c \<and> scanner c = Loaded t r \<and>
      finish_scan L t r start hi limit filt =
        Inr \<lparr>scan_entries = scan_of (kv_of V s0) start hi limit filt,
             scan_revision = entry_index (last chunk)\<rparr>) \<and>
    (\<exists>c t r. conc_reachable L s0 [chunk] c \<and> scanner c = Loaded t r \<and>
      finish_scan L t r start hi limit filt =
        Inr \<lparr>scan_entries = scan_of (snd (spec_chunk chunk (kv_of V s0))) start hi limit filt,
             scan_revision = last_applied_index s0\<rparr>)"
proof -
  note lmdb = lmdb_live.axioms(1) [OF assms(1)]
  obtain rs s where commit: "commit_chunk L chunk s0 = (Inr (rs, Some (entry_id (last chunk))), s)"
    "kv_of V s = snd (spec_chunk chunk (kv_of V s0))" "last_applied s = last_applied s0"
    using lmdb_live.commit_chunk_live [OF assms(1-3)] by blast
  obtain t0 where t0: "read_txn L (sm_env s0) = Inr t0" using lmdb_live.read_txn_ok [OF assms(1)] by blast
  obtain t1 where t1: "read_txn L (sm_env s) = Inr t1" using lmdb_live.read_txn_ok [OF assms(1)] by blast
  have views: "txn_view V t0 DB_KV = kv_of V s0" "txn_view V t1 DB_KV = kv_of V s"
    using lmdb.read_txn [OF lmdb t0] lmdb.read_txn [OF lmdb t1] by (simp_all add: kv_of_def)
  note finish = lmdb_live.finish_scan_live [OF assms(1,4), of _ _ hi limit filt]
  from lmdb_live.run_ahead [OF assms(1) commit(1) t0] lmdb_live.run_behind [OF assms(1) commit(1) t1]
  show ?thesis
    using finish [of t0 "entry_index (last chunk)"] finish [of t1 "last_applied_index s0"] views commit(2,3)
    by (intro conjI) (fastforce simp: last_applied_def entry_id_def)+
qed

theorem scan_revision_races_witness:
  "(\<exists>c t r. conc_reachable mem_api demo_sm [[demo_entry 1 (Insert [5] [0, 1] None)]] c \<and> scanner c = Loaded t r \<and>
      finish_scan mem_api t r Unbounded None (Some 9) None =
        Inr \<lparr>scan_entries = [], scan_revision = 1\<rparr>) \<and>
    (\<exists>c t r. conc_reachable mem_api demo_sm [[demo_entry 1 (Insert [5] [0, 1] None)]] c \<and> scanner c = Loaded t r \<and>
      finish_scan mem_api t r Unbounded None (Some 9) None =
        Inr \<lparr>scan_entries = [([5], [0, 1])], scan_revision = 0\<rparr>)"
proof -
  have scans: "scan_of Map.empty Unbounded None (Some 9) None = []"
    "scan_of [[5] \<mapsto> [0, 1]] Unbounded None (Some 9) None = [([5], [0, 1])]"
    using items_map_of [of "[([5], [0, 1])]"]
    by (simp_all add: scan_of_def limit_cap_def range_items_def end_bound_def in_bounds_def)
  have "chunk_admissible mem_api [demo_entry 1 (Insert [5] [0, 1] None)]"
    by (simp add: chunk_admissible_def demo_entry_def)
  from scan_revision_races [OF mem.lmdb_live_axioms this, of Unbounded demo_sm None "Some 9" None]
  show ?thesis
    by (simp add: scans demo_kv demo_entry_def empty_start_def) (simp add: demo_sm_def)
qed

end
