(* ===== verification/Restart.thy ===== *)
theory Restart
  imports Replica
begin

text \<open>
  The two stores of a node together: what the log and the state machine give back after a crash,
  when the engine reads the log from \<open>last_applied + 1\<close> again and applies what it finds. The
  conversion of a log entry into an \<open>ApplyEntry\<close> belongs to the engine and is a parameter.
\<close>


section \<open>Replaying a part of what was applied\<close>

lemma sorted_split_upward:
  assumes "sorted (xs :: u64 list)" and "\<And>x y. x \<le> y \<Longrightarrow> P x \<Longrightarrow> P y"
  shows "xs = filter (\<lambda>x. \<not> P x) xs @ filter P xs"
  using assms(1)
proof (induction xs)
  case (Cons x xs)
  show ?case
  proof (cases "P x")
    case True
    then have "\<forall>y \<in> set xs. P y" using Cons.prems assms(2) by auto
    then have "filter (\<lambda>x. \<not> P x) xs = []" "filter P xs = xs" by (auto simp: filter_empty_conv filter_id_conv)
    then show ?thesis using True by simp
  qed (use Cons in auto)
qed simp

lemma cas_free_append: "cas_free (xs @ ys) \<longleftrightarrow> cas_free xs \<and> cas_free ys"
  by (auto simp: cas_free_def)

text \<open>Applying the last part of a chunk again, after the whole of it, changes nothing.\<close>

lemma replay_suffix:
  assumes "cas_free (xs @ ys)"
  shows "snd (spec_chunk ys (snd (spec_chunk (xs @ ys) m))) = snd (spec_chunk (xs @ ys) m)"
  using assms cas_free_idempotent [of ys "snd (spec_chunk xs m)"]
  by (simp add: spec_chunk_append cas_free_append)

context wal_store_live
begin

text \<open>What a purge leaves of a range of the log is the end of that range.\<close>

lemma purged_range_suffix:
  assumes "wal_wf V C w" and "purge L C cutoff w = (Inr (), w1)" and "wal_new L (Inr ()) (Some (wal_env w1)) = Inr w2"
    and "get_entries L C w start stop = Inr ens"
  shows "\<exists>old ens2. get_entries L C w2 start stop = Inr ens2 \<and> ens = old @ ens2"
proof -
  have store: "wal_store L V C" by unfold_locales
  have log: "log_wf C (raw_log V w)" using assms(1) by (simp add: wal_wf_def)
  note purged = wal_store.purge_refines [OF store assms(2) log]
  have log1: "case Some (wal_env w1) of None \<Rightarrow> True | Some e \<Rightarrow> log_wf C (env_view V e DB_LOG)"
    using purged(1) by (simp add: raw_log_def)
  note opened = wal_store.wal_new_refines [OF store assms(3) log1]
  have raw: "raw_log V w2 = raw_log V w1" using opened(1) by (simp add: raw_log_def)
  let ?c = "saturating_add_u64 (log_index cutoff) 1"
  let ?S = "{i \<in> dom (log_of V C w). start \<le> i \<and> i \<le> stop}"
  have log2: "log_of V C w2 = (\<lambda>i. if i < ?c then None else log_of V C w i)"
    using purged(2) raw by (simp add: log_of_def)
  have dom2: "{i \<in> dom (log_of V C w2). start \<le> i \<and> i \<le> stop} = {i \<in> ?S. \<not> i < ?c}"
    by (auto simp: log2 split: if_splits)
  have split: "sorted_list_of_set ?S =
      filter (\<lambda>i. \<not> \<not> i < ?c) (sorted_list_of_set ?S) @ filter (\<lambda>i. \<not> i < ?c) (sorted_list_of_set ?S)"
    by (rule sorted_split_upward) auto
  have "sorted_list_of_set {i \<in> ?S. \<not> i < ?c} = filter (\<lambda>i. \<not> i < ?c) (sorted_list_of_set ?S)"
    using sorted_list_of_set.idem_if_sorted_distinct [of "filter (\<lambda>i. \<not> i < ?c) (sorted_list_of_set ?S)"]
    by (simp add: sorted_wrt_filter)
  then have "get_entries L C w2 start stop =
      Inr (map (\<lambda>i. the (log_of V C w i)) (filter (\<lambda>i. \<not> i < ?c) (sorted_list_of_set ?S)))"
    using get_entries_live [of w2 start stop] purged(1) raw dom2 by (simp add: log2)
  moreover have "ens = map (\<lambda>i. the (log_of V C w i)) (sorted_list_of_set ?S)"
    using assms(4) get_entries_live [OF log] by simp
  then have "ens = map (\<lambda>i. the (log_of V C w i)) (filter (\<lambda>i. \<not> \<not> i < ?c) (sorted_list_of_set ?S)) @
      map (\<lambda>i. the (log_of V C w i)) (filter (\<lambda>i. \<not> i < ?c) (sorted_list_of_set ?S))"
    using arg_cong [OF split, of "map (\<lambda>i. the (log_of V C w i))"] by (simp only: map_append)
  ultimately show ?thesis by blast
qed

end


section \<open>Several chunks\<close>

text \<open>The engine hands the entries over in chunks of its choice, and stops at the first that fails.\<close>

fun apply_chunks ::
  "('e, 't) lmdb_api \<Rightarrow> apply_entry list list \<Rightarrow> 'e state_machine \<Rightarrow> (engine_error + unit) \<times> 'e state_machine"
where
  "apply_chunks L [] s = (Inr (), s)"
| "apply_chunks L (chunk # chunks) s =
    (case apply_chunk L chunk s of
       (Inl e, s') \<Rightarrow> (Inl e, s')
     | (Inr _, s') \<Rightarrow> apply_chunks L chunks s')"

lemma set_kv_twice [simp]: "set_kv m (set_kv m' f) = set_kv m f"
  by (simp add: set_kv_def)

lemma set_kv_kv [simp]: "set_kv m f DB_KV = m"
  by (simp add: set_kv_def)

context lmdb
begin

lemma apply_chunks_refines:
  "apply_chunks L chunks s = (Inr (), s') \<Longrightarrow>
   env_view V (sm_env s') = set_kv (snd (spec_chunk (concat chunks) (kv_of V s))) (env_view V (sm_env s)) \<and>
   last_applied s' = (if concat chunks = [] then last_applied s else entry_id (last (concat chunks)))"
proof (induction chunks arbitrary: s)
  case Nil
  then show ?case by (simp add: set_kv_def kv_of_def)
next
  case (Cons chunk chunks)
  then obtain rs s1 where run: "apply_chunk L chunk s = (Inr rs, s1)" "apply_chunks L chunks s1 = (Inr (), s')"
    by (auto split: sum.splits prod.splits)
  note first = apply_chunk_refines(2,4) [OF run(1)] and rest = Cons.IH [OF run(2)]
  have "kv_of V s1 = snd (spec_chunk chunk (kv_of V s))" using first(1) by (simp add: kv_of_def)
  then show ?case using first rest by (simp add: spec_chunk_append)
qed

end

context lmdb_live
begin

lemma apply_chunks_live: "chunk_admissible L (concat chunks) \<Longrightarrow> \<exists>s'. apply_chunks L chunks s = (Inr (), s')"
proof (induction chunks arbitrary: s)
  case (Cons chunk chunks)
  have "chunk_admissible L chunk" "chunk_admissible L (concat chunks)"
    using Cons.prems by (auto simp: chunk_admissible_def)
  then show ?case using apply_chunk_live [of chunk s] Cons.IH by auto
qed simp

end


section \<open>Properties\<close>

text \<open>C9. A crash loses nothing that was applied, with a log free of compare-and-swap. Take a node that, since
  it was started, applied the entries of its log from \<open>last_applied + 1\<close> on, in any number of chunks
  and none of them a compare-and-swap, then purged any part of the log, and crashed. Opened again, both stores come up;
  the log gives back the end of what was applied (all of it without a purge), and applying that, again
  in any chunks, succeeds and leaves the contents of before the crash, and its \<open>last_applied\<close> too unless
  everything was purged. (\<open>crash_replay_cas_diverges\<close> has the run with a compare-and-swap in which it does not.)\<close>

theorem restart_recovers:
  assumes "wal_store_live L V C" and "wal_wf V C w" and "sm_new L (Inr ()) f config = Inr s0"
    and "get_entries L C w (last_applied_index s0 + 1) stop = Inr ens"
    and "cas_free (map conv ens)" and "chunk_admissible L (map conv ens)"
    and "concat chunks = map conv ens" and "apply_chunks L chunks s0 = (Inr (), s1)"
    and "purge L C cutoff w = (Inr (), w1)"
  shows "\<exists>w2 s2 ens2. wal_new L (Inr ()) (Some (wal_env w1)) = Inr w2 \<and>
    sm_new L (Inr ()) (Some (sm_env s1)) config = Inr s2 \<and>
    get_entries L C w2 (last_applied_index s2 + 1) stop = Inr ens2 \<and>
    (\<forall>chunks2. concat chunks2 = map conv ens2 \<longrightarrow>
      (\<exists>s3. apply_chunks L chunks2 s2 = (Inr (), s3) \<and>
        kv_of V s3 = kv_of V s1 \<and> (ens2 \<noteq> [] \<longrightarrow> last_applied s3 = last_applied s1)))"
proof -
  have live: "lmdb_live L V" using assms(1) by (simp add: wal_store_live_def)
  have lmdb: "lmdb L V" using live by (rule lmdb_live.axioms)
  obtain w2 where w2: "wal_new L (Inr ()) (Some (wal_env w1)) = Inr w2"
    using wal_store_live.wal_new_live [OF assms(1)] by blast
  obtain s2 where s2: "sm_new L (Inr ()) (Some (sm_env s1)) config = Inr s2"
    using lmdb_live.sm_new_live [OF live] by blast
  note n0 = lmdb.sm_new_refines [OF lmdb assms(3)] and n2 = lmdb.sm_new_refines [OF lmdb s2]
    and a1 = lmdb.apply_chunks_refines [OF lmdb assms(8), unfolded assms(7)]
  have last: "last_applied s2 = last_applied s0"
    using n0(2) n2(1,2) a1 by (simp add: stored_last_applied_def stored_u64_def)
  have kv2: "kv_of V s2 = snd (spec_chunk (map conv ens) (kv_of V s0))"
    using n2(1) a1 by (simp add: kv_of_def)
  obtain old ens2 where ens2: "get_entries L C w2 (last_applied_index s0 + 1) stop = Inr ens2" "ens = old @ ens2"
    using wal_store_live.purged_range_suffix [OF assms(1,2,9) w2 assms(4)] by blast
  have "\<exists>s3. apply_chunks L chunks2 s2 = (Inr (), s3) \<and>
      kv_of V s3 = kv_of V s1 \<and> (ens2 \<noteq> [] \<longrightarrow> last_applied s3 = last_applied s1)"
    if chunks2: "concat chunks2 = map conv ens2" for chunks2
  proof -
    obtain s3 where s3: "apply_chunks L chunks2 s2 = (Inr (), s3)"
      using lmdb_live.apply_chunks_live [OF live, of chunks2 s2] assms(6) ens2(2) chunks2
      by (auto simp: chunk_admissible_def)
    note a3 = lmdb.apply_chunks_refines [OF lmdb s3, unfolded chunks2]
    have "kv_of V s3 = kv_of V s1"
      using replay_suffix [of "map conv old" "map conv ens2" "kv_of V s0"] assms(5) ens2(2) a1 a3 kv2
      by (simp add: kv_of_def)
    moreover have "ens2 \<noteq> [] \<longrightarrow> last_applied s3 = last_applied s1"
      using a1 a3 ens2(2) by (auto simp: last_map)
    ultimately show ?thesis using s3 by blast
  qed
  then show ?thesis
    using w2 s2 ens2(1) last by (auto simp: last_applied_def)
qed

text \<open>A log of three inserts at key 5, applied in two chunks; the crash comes after everything up to index 2 was purged.\<close>

definition demo_conv :: "u64 \<times> bytes \<Rightarrow> apply_entry" where
  "demo_conv en = demo_entry (fst en) (Insert [5] (snd en) None)"

theorem restart_recovers_witness:
  "\<exists>s0 s1 w1 w2 s2 ens2 s3. sm_new mem_api (Inr ()) None demo_config = Inr s0 \<and>
    apply_chunks mem_api [map demo_conv [(1, [10]), (2, [20])], map demo_conv [(300, [30])]] s0 = (Inr (), s1) \<and>
    purge mem_api demo_codec \<lparr>log_index = 2, log_term = 1\<rparr> demo_log_wal = (Inr (), w1) \<and>
    wal_new mem_api (Inr ()) (Some (wal_env w1)) = Inr w2 \<and>
    sm_new mem_api (Inr ()) (Some (sm_env s1)) demo_config = Inr s2 \<and>
    get_entries mem_api demo_codec w2 (last_applied_index s2 + 1) 300 = Inr ens2 \<and>
    apply_chunks mem_api [map demo_conv ens2] s2 = (Inr (), s3) \<and>
    kv_of mem_view s3 = kv_of mem_view s1"
proof -
  let ?ens = "[(1, [10]), (2, [20]), (300 :: u64, [30 :: u8])]"
  let ?chunks = "[map demo_conv [(1, [10]), (2, [20])], map demo_conv [(300, [30])]]"
  obtain s0 where s0: "sm_new mem_api (Inr ()) None demo_config = Inr s0" using demo_opened by blast
  have "last_applied s0 = \<lparr>log_index = 0, log_term = 0\<rparr>"
    using mem.sm_new_refines(1,2) [OF s0] by (simp add: stored_last_applied_def stored_u64_def)
  then have zero: "last_applied_index s0 = 0" by (simp add: last_applied_def)
  have "{i \<in> dom (log_of mem_view demo_codec demo_log_wal). 1 \<le> i \<and> i \<le> 300} = {1, 2, 300 :: u64}"
    by (auto simp: demo_log_of word_le_nat_alt)
  then have ens: "get_entries mem_api demo_codec demo_log_wal (last_applied_index s0 + 1) 300 = Inr ?ens"
    using demo_wal.get_entries_live [of demo_log_wal 1 300] demo_log_wf by (simp add: wal_wf_def demo_log_of zero)
  have chunk: "cas_free (map demo_conv ?ens)" "chunk_admissible mem_api (map demo_conv ?ens)"
    by (simp_all add: demo_conv_def cas_free_def chunk_admissible_def demo_entry_def)
  have split: "concat ?chunks = map demo_conv ?ens" by simp
  have "chunk_admissible mem_api (concat ?chunks)" using chunk(2) split by metis
  then obtain s1 where s1: "apply_chunks mem_api ?chunks s0 = (Inr (), s1)"
    using mem.apply_chunks_live by blast
  obtain w1 where w1: "purge mem_api demo_codec \<lparr>log_index = 2, log_term = 1\<rparr> demo_log_wal = (Inr (), w1)"
    using demo_wal.purge_live by blast
  from restart_recovers [OF demo_wal.wal_store_live_axioms demo_log_wf s0 ens chunk split s1 w1]
  obtain w2 s2 ens2 where again: "wal_new mem_api (Inr ()) (Some (wal_env w1)) = Inr w2"
    "sm_new mem_api (Inr ()) (Some (sm_env s1)) demo_config = Inr s2"
    "get_entries mem_api demo_codec w2 (last_applied_index s2 + 1) 300 = Inr ens2"
    "\<forall>chunks2. concat chunks2 = map demo_conv ens2 \<longrightarrow> (\<exists>s3. apply_chunks mem_api chunks2 s2 = (Inr (), s3) \<and>
      kv_of mem_view s3 = kv_of mem_view s1 \<and> (ens2 \<noteq> [] \<longrightarrow> last_applied s3 = last_applied s1))"
    by blast
  then obtain s3 where "apply_chunks mem_api [map demo_conv ens2] s2 = (Inr (), s3)"
    "kv_of mem_view s3 = kv_of mem_view s1"
    by (auto dest!: spec [of _ "[map demo_conv ens2]"])
  then show ?thesis using s0 s1 w1 again(1-3) by blast
qed

end
