(* ===== verification/Cluster.thy ===== *)
theory Cluster
  imports Interleave Restart
begin

text \<open>
  A whole cluster, seen from below: the engine commits one log, and every node applies it in chunks
  of its own, serves reads, removes expired values, crashes (also between the commit of a chunk and the update
  of \<open>last_applied\<close>), stops and starts, generates snapshots, installs those of others and resets.
  What the engine guarantees, one log with consecutive indices, of which a node gets what follows
  its \<open>last_applied\<close>, is built into the steps; everything else is the code of the state machine.
  A read is two transactions, one that fetches the stored bytes and one that decodes them and removes
  them when they have expired, with anything in between. The invariant says in which sense a node is
  up to date although a crash takes \<open>last_applied\<close> back and the contents do not go back with it,
  and which keys it has lost to reads that removed a newer value than the one they had fetched.
\<close>


section \<open>Steps\<close>

record 'e cluster =
  log_so_far :: "apply_entry list"
  replica :: "nat \<Rightarrow> 'e state_machine"
  taken :: "(snapshot_metadata \<times> 'e \<times> bytes set) list"
  horizon :: u64
  reading :: "(nat \<times> bytes \<times> bytes option) list"
  lost :: "nat \<Rightarrow> bytes set"

text \<open>\<open>taken\<close> are the snapshots generated so far, \<open>horizon\<close> is the latest clock of any finished read,
  \<open>reading\<close> the reads under way: the node, the key and the bytes fetched. \<open>lost\<close> is what the
  properties speak of and no code reads: the keys of which a read has removed a value that had not
  expired, and that no entry applied since has written; a snapshot carries it along.\<close>

abbreviation idle_cluster :: "apply_entry list \<Rightarrow> (nat \<Rightarrow> 'e state_machine) \<Rightarrow> 'e cluster" where
  "idle_cluster log nodes \<equiv> \<lparr>log_so_far = log, replica = nodes, taken = [], horizon = 0, reading = [], lost = \<lambda>_. {}\<rparr>"

definition next_chunk :: "'e cluster \<Rightarrow> nat \<Rightarrow> nat \<Rightarrow> apply_entry list" where
  "next_chunk c i n = take n (drop (unat (last_applied_index (replica c i))) (log_so_far c))"

definition become :: "nat \<Rightarrow> 'e state_machine \<Rightarrow> bytes set \<Rightarrow> 'e cluster \<Rightarrow> 'e cluster" where
  "become i s X c = c\<lparr>replica := (replica c)(i := s), lost := (lost c)(i := X)\<rparr>"

definition overwritten_keys :: "apply_entry list \<Rightarrow> bytes set" where
  "overwritten_keys chunk =
     (\<Union>e \<in> set chunk. if is_cas (entry_command e) then {} else set (command_keys (entry_command e)))"

definition lost_after :: "'x + 'r \<Rightarrow> apply_entry list \<Rightarrow> bytes set \<Rightarrow> bytes set" where
  "lost_after r chunk X = (case r of Inl e \<Rightarrow> X | Inr y \<Rightarrow> X - overwritten_keys chunk)"

text \<open>The bytes a read fetched have expired, and the node now holds others, which have not.\<close>

definition overtakes :: "('e, 't) lmdb_api \<Rightarrow> int \<Rightarrow> bytes \<Rightarrow> bytes option \<Rightarrow> 'e state_machine \<Rightarrow> bool" where
  "overtakes L clock k raw s =
     (case raw of
        None \<Rightarrow> False
      | Some b \<Rightarrow> decode_live_value b (word_of_int clock) = Inr Expired \<and>
          (case sm_get L s k of
             Inl e \<Rightarrow> True
           | Inr None \<Rightarrow> False
           | Inr (Some d) \<Rightarrow> decode_live_value d (word_of_int clock) \<noteq> Inr Expired))"

definition lost_by_read ::
  "('e, 't) lmdb_api \<Rightarrow> int \<Rightarrow> bytes \<Rightarrow> bytes option \<Rightarrow> 'e state_machine \<Rightarrow> 'x + 'r \<Rightarrow> bytes set \<Rightarrow> bytes set"
where
  "lost_by_read L clock k raw s r X =
     (case r of Inl e \<Rightarrow> X | Inr y \<Rightarrow> if overtakes L clock k raw s then insert k X else X)"

definition hang_up :: "nat \<Rightarrow> 'e cluster \<Rightarrow> 'e cluster" where
  "hang_up i c = c\<lparr>reading := filter (\<lambda>(j, _). j \<noteq> i) (reading c)\<rparr>"

inductive cluster_step :: "('e, 't) lmdb_api \<Rightarrow> dlmdb_config \<Rightarrow> 'e cluster \<Rightarrow> 'e cluster \<Rightarrow> bool"
  for L :: "('e, 't) lmdb_api" and config :: dlmdb_config where
  entry_committed: "Suc (length (log_so_far c)) < 2 ^ 64 \<Longrightarrow> entry_index e = word_of_nat (Suc (length (log_so_far c))) \<Longrightarrow>
    cluster_step L config c (c\<lparr>log_so_far := log_so_far c @ [e]\<rparr>)"
| chunk_applied: "apply_chunk L (next_chunk c i n) (replica c i) = (r, s) \<Longrightarrow>
    cluster_step L config c (become i s (lost_after r (next_chunk c i n) (lost c i)) c)"
| crashed: "sm_new L mkdir (Some (sm_env (replica c i))) config = Inr s \<Longrightarrow>
    cluster_step L config c (become i s (lost c i) (hang_up i c))"
| crashed_applying: "commit_chunk L (next_chunk c i n) (replica c i) = (r, s) \<Longrightarrow>
    sm_new L mkdir (Some (sm_env s)) config = Inr s' \<Longrightarrow>
    cluster_step L config c (become i s' (lost_after r (next_chunk c i n) (lost c i)) (hang_up i c))"
| restarted: "sm_new L mkdir (Some (sm_env (sm_drop L (replica c i)))) config = Inr s \<Longrightarrow>
    cluster_step L config c (become i s (lost c i) (hang_up i c))"
| key_fetched: "sm_get L (replica c i) k = Inr raw \<Longrightarrow>
    cluster_step L config c (c\<lparr>reading := (i, k, raw) # reading c\<rparr>)"
| key_decoded: "(i, k, raw) \<in> set (reading c) \<Longrightarrow> node_sm n = replica c i \<Longrightarrow> 0 \<le> clock \<Longrightarrow>
    decode_and_reap L clock k raw (n :: (unit, 'e) node) = Return (r, n') \<Longrightarrow>
    cluster_step L config c (become i (node_sm n') (lost_by_read L clock k raw (replica c i) r (lost c i))
      (c\<lparr>reading := remove1 (i, k, raw) (reading c), horizon := max (horizon c) (word_of_int clock)\<rparr>))"
| snapshot_taken: "generate_snapshot_data L mkdir old l (replica c i) = (Inr (digest, file), s) \<Longrightarrow>
    log_index l \<le> last_applied_index (replica c i) \<Longrightarrow>
    cluster_step L config c (become i s (lost c i)
      (c\<lparr>taken := (\<lparr>last_included = Some l, checksum = digest\<rparr>, file, lost c i) # taken c\<rparr>))"
| snapshot_installed: "(meta, file, X) \<in> set (taken c) \<Longrightarrow>
    apply_snapshot_from_file L meta (Some file) (replica c i) = (r, s) \<Longrightarrow>
    cluster_step L config c (become i s (case r of Inl e \<Rightarrow> lost c i | Inr _ \<Rightarrow> X) c)"
| was_reset: "sm_reset L (replica c i) = (r, s) \<Longrightarrow>
    cluster_step L config c (become i s (case r of Inl e \<Rightarrow> lost c i | Inr _ \<Rightarrow> {}) c)"

text \<open>The node of a read is a full node, of which only the state machine matters. The clock of the
  second half of a read is any clock.\<close>

inductive cluster_reachable :: "('e, 't) lmdb_api \<Rightarrow> dlmdb_config \<Rightarrow> 'e cluster \<Rightarrow> bool"
  for L :: "('e, 't) lmdb_api" and config :: dlmdb_config where
  start: "\<forall>i. \<exists>mkdir. sm_new L mkdir None config = Inr (fresh i) \<Longrightarrow> cluster_reachable L config (idle_cluster [] fresh)"
| step: "cluster_reachable L config c \<Longrightarrow> cluster_step L config c c' \<Longrightarrow> cluster_reachable L config c'"

lemma become_simps [simp]:
  "log_so_far (become i s X c) = log_so_far c" "taken (become i s X c) = taken c"
  "horizon (become i s X c) = horizon c" "reading (become i s X c) = reading c"
  "replica (become i s X c) = (replica c)(i := s)" "lost (become i s X c) = (lost c)(i := X)"
  by (simp_all add: become_def)

lemma hang_up_simps [simp]:
  "log_so_far (hang_up i c) = log_so_far c" "taken (hang_up i c) = taken c"
  "horizon (hang_up i c) = horizon c" "replica (hang_up i c) = replica c" "lost (hang_up i c) = lost c"
  "set (reading (hang_up i c)) \<subseteq> set (reading c)"
  by (auto simp: hang_up_def)

lemma next_chunk_in_log: "set (next_chunk c i n) \<subseteq> set (log_so_far c)"
  unfolding next_chunk_def using set_take_subset set_drop_subset by fastforce

text \<open>A read with nothing in between is the two steps.\<close>

lemma undisturbed_read:
  assumes "fetch_local L clock k (n :: (unit, 'e) node) = Return (r, n')" and "node_sm n = replica c i" and "0 \<le> clock"
    and "sm_get L (replica c i) k = Inr raw"
  shows "\<exists>c1. cluster_step L config c c1 \<and> cluster_step L config c1 (become i (node_sm n') (lost c i)
    (c\<lparr>horizon := max (horizon c) (word_of_int clock)\<rparr>))"
proof (intro exI conjI)
  let ?c1 = "c\<lparr>reading := (i, k, raw) # reading c\<rparr>"
  show "cluster_step L config c ?c1" by (rule key_fetched [OF assms(4)])
  have "lost_by_read L clock k raw (replica c i) r (lost c i) = lost c i"
    using assms(4) by (simp add: lost_by_read_def overtakes_def split: option.split sum.split)
  moreover have "decode_and_reap L clock k raw n = Return (r, n')"
    using assms(1,2,4) by (simp add: fetch_local_def)
  ultimately show "cluster_step L config ?c1 (become i (node_sm n') (lost c i)
      (c\<lparr>horizon := max (horizon c) (word_of_int clock)\<rparr>))"
    using key_decoded [of i k raw ?c1 n clock L r n' config] assms(2,3) by (simp add: become_def)
qed


section \<open>What a node owes to the log\<close>

text \<open>The contents the log describes.\<close>

definition log_contents :: "apply_entry list \<Rightarrow> kv" where
  "log_contents log = snd (spec_chunk log Map.empty)"

lemma log_contents_append: "log_contents (xs @ ys) = snd (spec_chunk ys (log_contents xs))"
  by (simp add: log_contents_def spec_chunk_append)

definition untouched_after :: "apply_entry list \<Rightarrow> nat \<Rightarrow> bytes \<Rightarrow> bool" where
  "untouched_after log a k \<longleftrightarrow> (\<forall>e \<in> set (drop a log). k \<notin> set (command_keys (entry_command e)))"

text \<open>
  Contents \<open>m\<close> settle the log up to position \<open>a\<close>, but for the keys in \<open>X\<close>: every other key that no
  entry after \<open>a\<close> writes reads as the whole log says, from the time \<open>t\<close> on. The keys in \<open>X\<close> are
  absent, of the rest nothing is said.
\<close>

definition settled :: "bytes set \<Rightarrow> u64 \<Rightarrow> apply_entry list \<Rightarrow> nat \<Rightarrow> kv \<Rightarrow> bool" where
  "settled X t log a m \<longleftrightarrow> (\<forall>k \<in> X. m k = None) \<and>
     (\<forall>k now. k \<notin> X \<longrightarrow> untouched_after log a k \<longrightarrow> t \<le> now \<longrightarrow>
        logical now m k = logical now (log_contents log) k)"

lemma last_op_append:
  "last_op (xs @ ys) k = (case last_op ys k of None \<Rightarrow> last_op xs k | Some w \<Rightarrow> Some w)"
  by (induction xs) (auto split: option.split)

lemma chunk_ops_append: "chunk_ops (xs @ ys) = chunk_ops xs @ chunk_ops ys"
  by (simp add: chunk_ops_def)

lemma last_op_None_iff: "last_op ops k = None \<longleftrightarrow> k \<notin> op_key ` set ops"
proof (induction ops)
  case (Cons op ops)
  then show ?case by (cases op) (auto split: option.splits)
qed simp

lemma set_command_ops: "\<not> is_cas cmd \<Longrightarrow> op_key ` set (command_ops cmd) = set (command_keys cmd)"
  by (cases cmd) auto

lemma untouched_after_iff:
  assumes "cas_free log"
  shows "untouched_after log a k \<longleftrightarrow> last_op (chunk_ops (drop a log)) k = None"
proof -
  have "cas_free (drop a log)" using assms in_set_dropD by (fastforce simp: cas_free_def)
  then have "op_key ` set (chunk_ops (drop a log)) =
      (\<Union>e \<in> set (drop a log). set (command_keys (entry_command e)))"
    using set_command_ops by (auto simp: chunk_ops_def cas_free_def image_UN)
  then show ?thesis by (auto simp: untouched_after_def last_op_None_iff)
qed

lemma log_contents_at:
  "cas_free log \<Longrightarrow> log_contents log k = (case last_op (chunk_ops log) k of None \<Rightarrow> None | Some w \<Rightarrow> w)"
  by (simp add: log_contents_def cas_free_spec fold_spec_op)

lemma expired_is_ttl: "decode_live_value b now = Inr Expired \<Longrightarrow> \<exists>p ts. b = encode_ttl p (Some ts)"
  by (cases "decode b") (auto simp: decode_live_value_def decode_eq_Ttl split: wire_value.splits if_splits)

lemma logical_at_cong: "m k = m' k \<Longrightarrow> logical now m k = logical now m' k"
  by (simp add: logical_def)

lemma settled_empty: "cas_free log \<Longrightarrow> settled X t log 0 Map.empty"
  by (simp add: settled_def untouched_after_iff log_contents_at logical_def)

lemma settled_earlier: "settled X t log a m \<Longrightarrow> p \<le> a \<Longrightarrow> settled X t log p m"
  using set_drop_subset_set_drop [of p a log] by (fastforce simp: settled_def untouched_after_def)

lemma settled_later: "settled X t log a m \<Longrightarrow> t \<le> t' \<Longrightarrow> settled X t' log a m"
  unfolding settled_def using order_trans by blast

lemma reap_absent: "m k = None \<Longrightarrow> reap now k' m k = None"
  by (simp add: reap_def)

lemma settled_reap: "settled X t log a m \<Longrightarrow> t \<le> t' \<Longrightarrow> now \<le> t' \<Longrightarrow> settled X t' log a (reap now k m)"
  unfolding settled_def using logical_reap [of _ _ k m] reap_absent [of m] order_trans by (metis (no_types))

lemma settled_lose: "settled X t log a m \<Longrightarrow> settled (insert k X) t log a (m(k := None))"
  by (auto simp: settled_def logical_def)

lemma settled_commit:
  assumes "settled X t log a m" and "cas_free (log @ [e])" and "a \<le> length log"
  shows "settled X t (log @ [e]) a m"
  unfolding settled_def
proof (intro conjI allI impI)
  show "\<forall>k \<in> X. m k = None" using assms(1) by (simp add: settled_def)
next
  fix k and now :: u64
  assume "k \<notin> X" and untouched: "untouched_after (log @ [e]) a k" and "t \<le> now"
  have free: "cas_free log" using assms(2) by (simp add: cas_free_append)
  have "last_op (chunk_ops [e]) k = None" and "last_op (chunk_ops (drop a log)) k = None"
    using untouched assms(3) unfolding untouched_after_iff [OF assms(2)]
    by (auto simp: chunk_ops_append last_op_append split: option.splits)
  then have "log_contents (log @ [e]) k = log_contents log k" "untouched_after log a k"
    using assms(2) free
    by (simp_all add: log_contents_at chunk_ops_append last_op_append untouched_after_iff)
  then show "logical now m k = logical now (log_contents (log @ [e])) k"
    using assms(1) \<open>k \<notin> X\<close> \<open>t \<le> now\<close> logical_at_cong [of "log_contents (log @ [e])" k "log_contents log"]
    by (simp add: settled_def)
qed

lemma overwritten_iff: "cas_free chunk \<Longrightarrow> k \<in> overwritten_keys chunk \<longleftrightarrow> last_op (chunk_ops chunk) k \<noteq> None"
  using untouched_after_iff [of chunk 0 k]
  by (auto simp: overwritten_keys_def untouched_after_def cas_free_def)

lemma settled_apply:
  assumes "settled X t log a m" and "cas_free log" and "chunk = take n (drop a log)"
  shows "settled (X - overwritten_keys chunk) t log (a + length chunk) (snd (spec_chunk chunk m))"
proof -
  have free: "cas_free chunk"
    using assms(2,3) in_set_takeD in_set_dropD by (fastforce simp: cas_free_def)
  have applied: "snd (spec_chunk chunk m) k = (case last_op (chunk_ops chunk) k of None \<Rightarrow> m k | Some w \<Rightarrow> w)" for k
    by (simp add: cas_free_spec [OF free] fold_spec_op)
  have "snd (spec_chunk chunk m) k = None" if "k \<in> X - overwritten_keys chunk" for k
    using that assms(1) applied [of k] overwritten_iff [OF free, of k] by (simp add: settled_def)
  moreover have "logical now (snd (spec_chunk chunk m)) k = logical now (log_contents log) k"
    if exempt: "k \<notin> X - overwritten_keys chunk" and untouched: "untouched_after log (a + length chunk) k"
      and "t \<le> now" for k and now :: u64
  proof -
    have split: "drop a log = chunk @ drop (a + length chunk) log"
      using append_take_drop_id [of n "drop a log"] assms(3)
      by (metis add.commute append_eq_conv_conj drop_drop)
    have tail: "last_op (chunk_ops (drop (a + length chunk) log)) k = None"
      using untouched untouched_after_iff [OF assms(2)] by blast
    then have drop: "last_op (chunk_ops (drop a log)) k = last_op (chunk_ops chunk) k"
      by (simp only: split chunk_ops_append last_op_append option.case)
    show ?thesis
    proof (cases "last_op (chunk_ops chunk) k")
      case None
      then have "untouched_after log a k" using drop untouched_after_iff [OF assms(2)] by simp
      moreover have "k \<notin> X" using exempt None overwritten_iff [OF free] by blast
      ultimately have "logical now m k = logical now (log_contents log) k"
        using assms(1) \<open>t \<le> now\<close> by (simp add: settled_def)
      then show ?thesis
        using logical_at_cong [of "snd (spec_chunk chunk m)" k m] applied [of k] None by simp
    next
      case (Some w)
      have "chunk_ops log = chunk_ops (take a log) @ chunk_ops (drop a log)"
        by (metis append_take_drop_id chunk_ops_append)
      then have "log_contents log k = w"
        using assms(2) drop Some by (simp add: log_contents_at last_op_append)
      then show ?thesis using applied [of k] Some by (intro logical_at_cong) simp
    qed
  qed
  ultimately show ?thesis unfolding settled_def by blast
qed


section \<open>The invariant\<close>

definition log_indexed :: "apply_entry list \<Rightarrow> bool" where
  "log_indexed log \<longleftrightarrow> length log < 2 ^ 64 \<and>
     (\<forall>i < length log. entry_index (log ! i) = word_of_nat (Suc i))"

definition replica_inv :: "('e, 't) lmdb_view \<Rightarrow> bytes set \<Rightarrow> u64 \<Rightarrow> apply_entry list \<Rightarrow> 'e state_machine \<Rightarrow> bool" where
  "replica_inv V X t log s \<longleftrightarrow>
     unat (last_applied_index s) \<le> length log \<and>
     log_index (stored_last_applied V (sm_env s)) \<le> last_applied_index s \<and>
     settled X t log (unat (last_applied_index s)) (kv_of V s)"

fun snapshot_inv ::
  "('e, 't) lmdb_view \<Rightarrow> u64 \<Rightarrow> apply_entry list \<Rightarrow> snapshot_metadata \<times> 'e \<times> bytes set \<Rightarrow> bool" where
  "snapshot_inv V t log (meta, data, X) \<longleftrightarrow>
     (\<exists>l. last_included meta = Some l \<and> unat (log_index l) \<le> length log \<and>
        settled X t log (unat (log_index l)) (env_view V data DB_KV))"

definition cluster_inv :: "('e, 't) lmdb_view \<Rightarrow> 'e cluster \<Rightarrow> bool" where
  "cluster_inv V c \<longleftrightarrow> log_indexed (log_so_far c) \<and>
     (\<forall>i. replica_inv V (lost c i) (horizon c) (log_so_far c) (replica c i)) \<and>
     (\<forall>snap \<in> set (taken c). snapshot_inv V (horizon c) (log_so_far c) snap)"

lemma replica_inv_kept:
  "replica_inv V X t log s \<Longrightarrow> kv_of V s' = kv_of V s \<Longrightarrow> last_applied_index s' = last_applied_index s \<Longrightarrow>
   stored_last_applied V (sm_env s') = stored_last_applied V (sm_env s) \<Longrightarrow> replica_inv V X t log s'"
  by (simp add: replica_inv_def)

lemma cluster_inv_become:
  assumes "cluster_inv V c" and "replica_inv V X (horizon c) (log_so_far c) s"
  shows "cluster_inv V (become i s X c)"
  using assms by (simp add: cluster_inv_def)

lemma cluster_inv_replica: "cluster_inv V c \<Longrightarrow> replica_inv V (lost c i) (horizon c) (log_so_far c) (replica c i)"
  by (simp add: cluster_inv_def)

lemma cluster_inv_reading: "cluster_inv V c \<Longrightarrow> cluster_inv V (c\<lparr>reading := rs\<rparr>)"
  by (simp add: cluster_inv_def)

lemma log_indexed_snoc:
  "log_indexed log \<Longrightarrow> Suc (length log) < 2 ^ 64 \<Longrightarrow> entry_index e = word_of_nat (Suc (length log)) \<Longrightarrow>
   log_indexed (log @ [e])"
  by (auto simp: log_indexed_def nth_append less_Suc_eq)

lemma replica_inv_commit:
  "replica_inv V X t log s \<Longrightarrow> cas_free (log @ [e]) \<Longrightarrow> replica_inv V X t (log @ [e]) s"
  by (simp add: replica_inv_def settled_commit)

lemma snapshot_inv_commit:
  "snapshot_inv V t log snap \<Longrightarrow> cas_free (log @ [e]) \<Longrightarrow> snapshot_inv V t (log @ [e]) snap"
  by (cases snap) (auto simp: settled_commit)

text \<open>The position a chunk leads to.\<close>

lemma unat_last_chunk:
  assumes "log_indexed log" and "chunk = take n (drop a log)" and "chunk \<noteq> []" and "a \<le> length log"
  shows "unat (entry_index (last chunk)) = a + length chunk"
proof -
  obtain j where j: "length chunk = Suc j" using assms(3) by (cases chunk) auto
  have len: "a + Suc j \<le> length log" using assms(2,4) j by auto
  have "last chunk = log ! (a + j)"
    using assms(2,3) j len by (simp add: last_conv_nth)
  then have "entry_index (last chunk) = word_of_nat (Suc (a + j))"
    using assms(1) len by (simp add: log_indexed_def)
  moreover have "unat (word_of_nat (Suc (a + j)) :: u64) = Suc (a + j)"
  proof -
    have "Suc (a + j) < 2 ^ 64" using len assms(1) by (simp add: log_indexed_def)
    then show ?thesis unfolding unat_of_nat by simp
  qed
  ultimately show ?thesis by (simp only: j add_Suc_right)
qed

context lmdb
begin

lemma applied_position:
  assumes "apply_chunk L chunk s = (Inr rs, s')" and "log_indexed log" and "unat (last_applied_index s) \<le> length log"
    and "chunk = take n (drop (unat (last_applied_index s)) log)"
  shows "unat (last_applied_index s') = unat (last_applied_index s) + length chunk"
proof (cases "chunk = []")
  case True
  then show ?thesis using apply_chunk_refines(4) [OF assms(1)] by (simp add: last_applied_def)
next
  case False
  then have "last_applied_index s' = entry_index (last chunk)"
    using apply_chunk_refines(4) [OF assms(1)] by (simp add: last_applied_def entry_id_def)
  then show ?thesis using unat_last_chunk [OF assms(2,4) False assms(3)] by simp
qed

lemma reopened_replica:
  assumes "sm_new L mkdir (Some e) config = Inr s" and "env_view V e DB_KV = kv_of V s0"
    and "log_index (stored_last_applied V e) \<le> last_applied_index s0" and "replica_inv V X t log s0"
  shows "replica_inv V X t log s"
proof -
  note opened = sm_new_refines [OF assms(1)]
  have view: "env_view V (sm_env s) = env_view V e" using opened(1) by simp
  have stored: "stored_last_applied V (sm_env s) = stored_last_applied V e"
    by (simp add: stored_last_applied_def stored_u64_def view)
  have index: "last_applied_index s = log_index (stored_last_applied V e)"
    using opened(2) stored by (metis last_applied_def log_id.select_convs(1))
  have le: "unat (last_applied_index s) \<le> unat (last_applied_index s0)"
    using assms(3) index by (simp add: word_le_nat_alt)
  have "kv_of V s = kv_of V s0" using view assms(2) by (simp add: kv_of_def)
  then show ?thesis
    using assms(4) le settled_earlier [OF _ le] stored index by (simp add: replica_inv_def)
qed

lemma commit_chunk_stored:
  assumes "commit_chunk L chunk s = (r, s')"
  shows "stored_last_applied V (sm_env s') = stored_last_applied V (sm_env s)"
proof (cases r)
  case (Inl e)
  then show ?thesis using assms by (auto simp: commit_chunk_def split: sum.splits prod.splits)
next
  case (Inr x)
  obtain rs highest where "r = Inr (rs, highest)" using Inr by (cases x) auto
  then obtain t t' ts env where steps: "write_txn L (sm_env s) = Inr t"
    "apply_loop L chunk t [] None (entry_terms s) = (Inr (t', rs, highest), ts)"
    "txn_commit L t' = Inr env" and s': "s' = s\<lparr>entry_terms := ts, sm_env := env\<rparr>"
    using assms by (auto simp: commit_chunk_def split: sum.splits prod.splits)
  note facts = write_txn [OF steps(1)] apply_loop_refines [OF steps(2)] commit [OF steps(3)]
  then have "env_view V (sm_env s') DB_META = env_view V (sm_env s) DB_META"
    using s' by simp
  then show ?thesis by (simp add: stored_last_applied_def stored_u64_def)
qed

text \<open>Each kind of step keeps the invariant of the node that takes it.\<close>

lemma apply_replica:
  assumes "apply_chunk L chunk s = (r, s')" and "replica_inv V X t log s" and "log_indexed log" and "cas_free log"
    and chunk: "chunk = take n (drop (unat (last_applied_index s)) log)"
  shows "replica_inv V (lost_after r chunk X) t log s'"
proof (cases r)
  case (Inl e)
  then obtain terms where "s' = s\<lparr>entry_terms := terms\<rparr>"
    using apply_chunk_error_frame assms(1) by blast
  then show ?thesis using assms(2) Inl by (simp add: replica_inv_def kv_of_def lost_after_def)
next
  case (Inr rs)
  note run = apply_chunk_refines [OF assms(1) [unfolded Inr]]
  let ?a = "unat (last_applied_index s)"
  have bound: "?a \<le> length log" using assms(2) by (simp add: replica_inv_def)
  note index = applied_position [OF assms(1) [unfolded Inr] assms(3) bound chunk]
  have kv: "kv_of V s' = snd (spec_chunk chunk (kv_of V s))" using run(2) by (simp add: kv_of_def)
  have stored: "stored_last_applied V (sm_env s') = stored_last_applied V (sm_env s)"
    using run(2) by (simp add: stored_last_applied_def stored_u64_def)
  have "settled (lost_after r chunk X) t log (unat (last_applied_index s')) (kv_of V s')"
    using settled_apply [OF _ assms(4) chunk] assms(2) index kv Inr by (simp add: replica_inv_def lost_after_def)
  moreover have "?a + length chunk \<le> length log" using bound chunk by simp
  ultimately show ?thesis
    using assms(2) index stored by (simp add: replica_inv_def word_le_nat_alt)
qed

lemma commit_replica:
  assumes "commit_chunk L chunk s = (r, s1)" and "sm_new L mkdir (Some (sm_env s1)) config = Inr s'"
    and "replica_inv V X t log s" and "log_indexed log" and "cas_free log"
    and chunk: "chunk = take n (drop (unat (last_applied_index s)) log)"
  shows "replica_inv V (lost_after r chunk X) t log s'"
proof -
  have stored: "stored_last_applied V (sm_env s1) = stored_last_applied V (sm_env s)"
    by (rule commit_chunk_stored [OF assms(1)])
  have "replica_inv V (lost_after r chunk X) t log s1"
  proof (cases r)
    case (Inl e)
    then show ?thesis
      using commit_chunk_error_frame assms(1,3) stored by (fastforce simp: replica_inv_def lost_after_def)
  next
    case (Inr x)
    then obtain rs highest where "r = Inr (rs, highest)" by (cases x) auto
    note run = commit_chunk_refines [OF assms(1) [unfolded this]]
    let ?a = "unat (last_applied_index s)"
    have "settled (X - overwritten_keys chunk) t log (?a + length chunk) (kv_of V s1)"
      using settled_apply [OF _ assms(5) chunk] assms(3) run(1) by (simp add: replica_inv_def)
    then have "settled (lost_after r chunk X) t log ?a (kv_of V s1)"
      using settled_earlier Inr by (fastforce simp: lost_after_def)
    then show ?thesis using assms(3) run(2) stored by (simp add: replica_inv_def)
  qed
  moreover from this have "log_index (stored_last_applied V (sm_env s1)) \<le> last_applied_index s1"
    by (simp add: replica_inv_def)
  ultimately show ?thesis
    using reopened_replica [OF assms(2), of s1] by (simp add: kv_of_def)
qed

lemma drop_replica:
  assumes "replica_inv V X t log s"
  shows "replica_inv V X t log (sm_drop L s)"
proof (cases "persist_last_applied L (last_applied s) s")
  case (Pair r s')
  show ?thesis
  proof (cases r)
    case (Inl e)
    then show ?thesis
      using Pair assms by (auto simp: sm_drop_def persist_last_applied_def split: sum.splits)
  next
    case (Inr u)
    then have run: "persist_last_applied L (last_applied s) s = (Inr (), s')" using Pair by simp
    note facts = persist_refines [OF run]
    have "last_applied_index s' = last_applied_index s"
      using facts(3) by (simp add: last_applied_def)
    then show ?thesis
      using Pair assms stored_with_last_applied [OF facts(1)] facts(1)
      by (simp add: sm_drop_def replica_inv_def kv_of_def last_applied_def)
  qed
qed

text \<open>What the second half of a read does: nothing, or it removes the key. The bytes it decides on are then
  a TTL value; when it does not overtake a newer value, what it removes has expired too.\<close>

lemma decode_effect:
  assumes "decode_and_reap L clock k raw n = Return (r, n')" and "0 \<le> clock"
  shows "last_applied_index (node_sm n') = last_applied_index (node_sm n)"
    and "stored_last_applied V (sm_env (node_sm n')) = stored_last_applied V (sm_env (node_sm n))"
    and "(kv_of V (node_sm n') = kv_of V (node_sm n) \<and> lost_by_read L clock k raw (node_sm n) r X = X) \<or>
      (kv_of V (node_sm n') = (kv_of V (node_sm n))(k := None) \<and>
        lost_by_read L clock k raw (node_sm n) r X = insert k X \<and> (\<exists>p ts. raw = Some (encode_ttl p (Some ts)))) \<or>
      (kv_of V (node_sm n') = reap (word_of_int clock) k (kv_of V (node_sm n)) \<and>
        lost_by_read L clock k raw (node_sm n) r X = X)"
proof -
  let ?expired = "\<exists>b. raw = Some b \<and> decode_live_value b (word_of_int clock) = Inr Expired"
  let ?s = "node_sm n" and ?s' = "node_sm n'" and ?now = "word_of_int clock :: u64"
  consider "?s' = ?s" "\<not> ?expired" | e where "?expired" "delete_local L k ?s = (Inl e, ?s')" "r = Inl (EngineErr e)"
    | "?expired" "delete_local L k ?s = (Inr (), ?s')" "r = Inr None"
    using assms(1) unix_now_ok [OF assms(2)]
    by (auto simp: decode_and_reap_def split: sum.splits option.splits prod.splits decoded_value.splits)
  then have "last_applied_index ?s' = last_applied_index ?s \<and>
    stored_last_applied V (sm_env ?s') = stored_last_applied V (sm_env ?s) \<and>
    ((kv_of V ?s' = kv_of V ?s \<and> lost_by_read L clock k raw ?s r X = X) \<or>
      (kv_of V ?s' = (kv_of V ?s)(k := None) \<and> lost_by_read L clock k raw ?s r X = insert k X \<and>
        (\<exists>p ts. raw = Some (encode_ttl p (Some ts)))) \<or>
      (kv_of V ?s' = reap ?now k (kv_of V ?s) \<and> lost_by_read L clock k raw ?s r X = X))"
  proof cases
    case 1
    then have "lost_by_read L clock k raw ?s r X = X"
      by (auto simp: lost_by_read_def overtakes_def split: option.splits sum.splits)
    then show ?thesis using 1 by simp
  next
    case 2
    then have "?s' = ?s" by (auto simp: delete_local_def split: sum.splits)
    then show ?thesis using 2(3) by (simp add: lost_by_read_def)
  next
    case 3
    obtain b where b: "raw = Some b" "decode_live_value b ?now = Inr Expired" using 3(1) by blast
    then obtain p ts where ttl: "raw = Some (encode_ttl p (Some ts))" using expired_is_ttl by blast
    note facts = delete_local_refines [OF 3(2)]
    have kv: "kv_of V ?s' = (kv_of V ?s)(k := None)" using facts(1) by (simp add: kv_of_def [of V ?s'])
    have "\<not> overtakes L clock k raw ?s \<Longrightarrow> (kv_of V ?s)(k := None) = reap ?now k (kv_of V ?s)"
      using b sm_get_sound [of ?s k]
      by (auto simp: overtakes_def reap_def expired_def fun_eq_iff split: sum.splits option.splits)
    moreover have "stored_last_applied V (sm_env ?s') = stored_last_applied V (sm_env ?s)"
      using facts(1) by (simp add: stored_last_applied_def stored_u64_def)
    moreover have "last_applied_index ?s' = last_applied_index ?s"
      using arg_cong [OF facts(3), of last_applied_index] by simp
    ultimately show ?thesis using kv ttl 3(3) by (simp add: lost_by_read_def)
  qed
  then show "last_applied_index ?s' = last_applied_index ?s"
    and "stored_last_applied V (sm_env ?s') = stored_last_applied V (sm_env ?s)"
    and "(kv_of V ?s' = kv_of V ?s \<and> lost_by_read L clock k raw ?s r X = X) \<or>
      (kv_of V ?s' = (kv_of V ?s)(k := None) \<and> lost_by_read L clock k raw ?s r X = insert k X \<and>
        (\<exists>p ts. raw = Some (encode_ttl p (Some ts)))) \<or>
      (kv_of V ?s' = reap ?now k (kv_of V ?s) \<and> lost_by_read L clock k raw ?s r X = X)"
    by blast+
qed

lemma decode_replica:
  assumes "decode_and_reap L clock k raw n = Return (r, n')" and "0 \<le> clock" and "replica_inv V X t log (node_sm n)"
    and "t \<le> t'" and "word_of_int clock \<le> t'"
  shows "replica_inv V (lost_by_read L clock k raw (node_sm n) r X) t' log (node_sm n')"
proof -
  let ?a = "unat (last_applied_index (node_sm n))" and ?m = "kv_of V (node_sm n)"
  note effect = decode_effect [OF assms(1,2)]
  have old: "settled X t log ?a ?m" using assms(3) by (simp add: replica_inv_def)
  note kept = settled_later [OF old assms(4)]
  have "settled (lost_by_read L clock k raw (node_sm n) r X) t' log ?a (kv_of V (node_sm n'))"
    using effect(3) [of X] settled_lose [OF kept] settled_reap [OF old assms(4,5)] kept by fastforce
  then show ?thesis using assms(3) effect(1,2) by (simp add: replica_inv_def)
qed

lemma reset_replica:
  assumes "sm_reset L s = (r, s')" and "replica_inv V X t log s" and "cas_free log"
  shows "replica_inv V (case r of Inl e \<Rightarrow> X | Inr _ \<Rightarrow> {}) t log s'"
proof (cases r)
  case (Inl e)
  then show ?thesis using assms by (auto simp: sm_reset_def split: sum.splits)
next
  case (Inr u)
  then have run: "sm_reset L s = (Inr (), s')" using assms(1) by simp
  note facts = reset_refines [OF run]
  have "kv_of V s' = Map.empty" "last_applied_index s' = 0"
    "log_index (stored_last_applied V (sm_env s')) = 0"
    using facts(1,2) by (simp_all add: kv_of_def last_applied_def stored_last_applied_def stored_u64_def)
  then show ?thesis using settled_empty [OF assms(3)] Inr by (simp add: replica_inv_def)
qed

lemma install_replica:
  assumes "apply_snapshot_from_file L meta (Some file) s = (r, s')" and "replica_inv V X t log s"
    and "snapshot_inv V t log (meta, file, Y)"
  shows "replica_inv V (case r of Inl e \<Rightarrow> X | Inr _ \<Rightarrow> Y) t log s'"
proof (cases r)
  case (Inl e)
  then show ?thesis
    using Inl assms(1,2) failed_restore_frame [of L meta "Some file" s e s'] by (simp add: replica_inv_def kv_of_def)
next
  case (Inr u)
  obtain l where l: "last_included meta = Some l" "unat (log_index l) \<le> length log"
    "settled Y t log (unat (log_index l)) (env_view V file DB_KV)"
    using assms(3) by auto
  obtain env where env: "restore_blocking L (sm_env s) (map_size s) meta (Some file) = Inr env"
    and s': "sm_env s' = env" "last_applied_index s' = log_index l"
    using assms(1) Inr l(1)
    by (auto simp: apply_snapshot_from_file_def Let_def update_last_applied_def update_last_snapshot_metadata_def
        split: sum.splits)
  obtain snap where snap: "open_env L (Some file) (map_size s) 3 = Inr snap"
    and view: "env_view V env = with_last_applied l (set_kv (env_view V snap DB_KV) (env_view V (sm_env s)))"
    using restore_refines [OF env] l(1) by auto
  have "kv_of V s' = env_view V file DB_KV"
    using view s'(1) open_env_old [OF snap] by (simp add: kv_of_def)
  moreover have "stored_last_applied V (sm_env s') = l"
    using stored_with_last_applied [OF view] s'(1) by simp
  ultimately show ?thesis using l(2,3) s'(2) Inr by (simp add: replica_inv_def)
qed

lemma generate_snapshot:
  assumes "generate_snapshot_data L mkdir old l s = (Inr (digest, file), s')" and "replica_inv V X t log s"
    and "log_index l \<le> last_applied_index s"
  shows "replica_inv V X t log s'" and "snapshot_inv V t log (\<lparr>last_included = Some l, checksum = digest\<rparr>, file, X)"
proof -
  have copy: "copy_env L (sm_env s) old = Inr file" and s': "\<exists>m. s' = s\<lparr>snapshot_meta := m\<rparr>"
    using assms(1)
    by (auto simp: generate_snapshot_data_def Let_def persist_last_snapshot_metadata_def
        update_last_snapshot_metadata_def and_then_eq_Inr map_err_eq_Inr split: sum.splits)
  show "replica_inv V X t log s'" using s' assms(2) by (auto simp: replica_inv_def kv_of_def)
  have "env_view V file DB_KV = kv_of V s" using copy_env [OF copy] by (simp add: kv_of_def)
  moreover have "unat (log_index l) \<le> unat (last_applied_index s)" using assms(3) by (simp add: word_le_nat_alt)
  ultimately show "snapshot_inv V t log (\<lparr>last_included = Some l, checksum = digest\<rparr>, file, X)"
    using assms(2) settled_earlier by (fastforce simp: replica_inv_def)
qed

lemma step_committed: "cluster_step L config c c' \<Longrightarrow> cas_free (log_so_far c') \<Longrightarrow> cas_free (log_so_far c)"
  by (induction rule: cluster_step.induct) (simp_all add: cas_free_append)

text \<open>Lengthening the log, and moving the horizon, keep the invariant of the cluster.\<close>

lemma cluster_inv_commit:
  assumes "cluster_inv V c" and "cas_free (log_so_far c @ [e])" and "log_indexed (log_so_far c @ [e])"
  shows "cluster_inv V (c\<lparr>log_so_far := log_so_far c @ [e]\<rparr>)"
proof -
  have "replica_inv V (lost c i) (horizon c) (log_so_far c @ [e]) (replica c i)" for i
    by (rule replica_inv_commit [OF cluster_inv_replica [OF assms(1)] assms(2)])
  moreover have "\<forall>snap \<in> set (taken c). snapshot_inv V (horizon c) (log_so_far c @ [e]) snap"
    using assms(1) snapshot_inv_commit [OF _ assms(2)] unfolding cluster_inv_def by blast
  ultimately show ?thesis using assms(3) by (simp add: cluster_inv_def)
qed

lemma cluster_inv_later:
  assumes "cluster_inv V c" and "horizon c \<le> t"
  shows "cluster_inv V (c\<lparr>reading := rs, horizon := t\<rparr>)"
proof -
  have "replica_inv V (lost c j) t (log_so_far c) (replica c j)" for j
    using cluster_inv_replica [OF assms(1), of j] settled_later [OF _ assms(2)] by (simp add: replica_inv_def)
  moreover have "snapshot_inv V t (log_so_far c) snap" if "snap \<in> set (taken c)" for snap
  proof -
    have "snapshot_inv V (horizon c) (log_so_far c) snap" using assms(1) that by (simp add: cluster_inv_def)
    then show ?thesis using settled_later [OF _ assms(2)] by (cases snap) auto
  qed
  ultimately show ?thesis using assms(1) by (simp add: cluster_inv_def)
qed

lemma cluster_step_inv:
  assumes "cluster_step L config c c'" and "cluster_inv V c" and "cas_free (log_so_far c')"
  shows "cluster_inv V c'"
proof -
  have free: "cas_free (log_so_far c)" by (rule step_committed [OF assms(1,3)])
  have log: "log_indexed (log_so_far c)" using assms(2) by (simp add: cluster_inv_def)
  note replica = cluster_inv_replica [OF assms(2)]
  have become: "replica_inv V X (horizon c) (log_so_far c) s \<Longrightarrow> cluster_inv V (become i s X c)"
    "replica_inv V X (horizon c) (log_so_far c) s \<Longrightarrow> cluster_inv V (become i s X (hang_up j c))" for i j X s
    using cluster_inv_become [OF assms(2)] cluster_inv_become [OF cluster_inv_reading [OF assms(2)]]
    by (simp_all add: hang_up_def)
  from assms(1) show ?thesis
  proof cases
    case (entry_committed e)
    then show ?thesis
      using cluster_inv_commit [OF assms(2) _ log_indexed_snoc [OF log entry_committed(2,3)]] assms(3) by simp
  next
    case (chunk_applied i n r s)
    then show ?thesis
      using become(1) apply_replica [OF chunk_applied(2) replica log free] by (simp add: next_chunk_def)
  next
    case (crashed mkdir i s)
    have "log_index (stored_last_applied V (sm_env (replica c i))) \<le> last_applied_index (replica c i)"
      using replica [of i] by (simp add: replica_inv_def)
    then show ?thesis
      using become(2) crashed reopened_replica [OF crashed(2) _ _ replica] by (simp add: kv_of_def)
  next
    case (crashed_applying i n r s mkdir s')
    then show ?thesis
      using become(2) commit_replica [OF crashed_applying(2,3) replica log free] by (simp add: next_chunk_def)
  next
    case (restarted mkdir i s)
    note dropped = drop_replica [OF replica [of i]]
    have "log_index (stored_last_applied V (sm_env (sm_drop L (replica c i)))) \<le>
        last_applied_index (sm_drop L (replica c i))"
      using dropped by (simp add: replica_inv_def)
    then show ?thesis
      using become(2) restarted reopened_replica [OF restarted(2) _ _ dropped] by (simp add: kv_of_def)
  next
    case (key_fetched i k raw)
    then show ?thesis using cluster_inv_reading [OF assms(2)] by simp
  next
    case (key_decoded i k raw n clock r n')
    let ?t = "max (horizon c) (word_of_int clock)"
    have "replica_inv V (lost_by_read L clock k raw (replica c i) r (lost c i)) ?t (log_so_far c) (node_sm n')"
      using decode_replica [OF key_decoded(5,4)] replica [of i] key_decoded(3) by simp
    then show ?thesis
      unfolding key_decoded(1) by (intro cluster_inv_become cluster_inv_later [OF assms(2)]) simp_all
  next
    case (snapshot_taken mkdir old l i digest data s)
    note facts = generate_snapshot [OF snapshot_taken(2) replica snapshot_taken(3)]
    show ?thesis
      using assms(2) facts snapshot_taken(1) by (simp add: cluster_inv_def)
  next
    case (snapshot_installed meta data X i r s)
    have "snapshot_inv V (horizon c) (log_so_far c) (meta, data, X)"
      using assms(2) snapshot_installed(2) by (auto simp: cluster_inv_def)
    then show ?thesis
      using become(1) snapshot_installed(1) install_replica [OF snapshot_installed(3) replica] by simp
  next
    case (was_reset i r s)
    then show ?thesis using become(1) reset_replica [OF was_reset(2) replica free] by simp
  qed
qed

lemma fresh_replica:
  assumes "sm_new L mkdir None config = Inr s"
  shows "kv_of V s = Map.empty" and "stored_last_applied V (sm_env s) = \<lparr>log_index = 0, log_term = 0\<rparr>"
    and "last_applied_index s = 0"
proof -
  note opened = sm_new_refines(1,2) [OF assms]
  show "kv_of V s = Map.empty" and stored: "stored_last_applied V (sm_env s) = \<lparr>log_index = 0, log_term = 0\<rparr>"
    using opened(1) by (simp_all add: kv_of_def stored_last_applied_def stored_u64_def)
  then show "last_applied_index s = 0"
    using opened(2) by (metis last_applied_def log_id.select_convs(1))
qed

lemma reachable_cluster_inv: "cluster_reachable L config c \<Longrightarrow> cas_free (log_so_far c) \<Longrightarrow> cluster_inv V c"
proof (induction rule: cluster_reachable.induct)
  case (start fresh)
  have "replica_inv V {} 0 [] (fresh i)" for i
  proof -
    obtain mkdir where "sm_new L mkdir None config = Inr (fresh i)" using start by blast
    then show ?thesis using fresh_replica by (simp add: replica_inv_def settled_empty cas_free_def)
  qed
  then show ?case by (simp add: cluster_inv_def log_indexed_def)
next
  case (step c c')
  then show ?case using cluster_step_inv step_committed by blast
qed

lemma reachable_settled:
  "cluster_reachable L config c \<Longrightarrow> cas_free (log_so_far c) \<Longrightarrow>
   settled (lost c i) (horizon c) (log_so_far c) (unat (last_applied_index (replica c i))) (kv_of V (replica c i))"
  using reachable_cluster_inv by (simp add: cluster_inv_def replica_inv_def)

end


section \<open>Where values come from\<close>

text \<open>Whatever a node, a snapshot or a read under way holds was written by an entry of the log, at its
  key, in logs of any kind. A key is lost only to a read that had fetched a TTL value, so to a key of
  which the log has one.\<close>

fun stored_pairs :: "command \<Rightarrow> (bytes \<times> bytes) list" where
  "stored_pairs (Insert k v ttl) = [(k, v)]"
| "stored_pairs (CompareAndSwap k e v) = [(k, v)]"
| "stored_pairs (Batch ops) = concat (map (\<lambda>op. case op of BatchInsert k v \<Rightarrow> [(k, v)] | BatchDelete k \<Rightarrow> []) ops)"
| "stored_pairs _ = []"

definition written :: "apply_entry list \<Rightarrow> bytes \<Rightarrow> bytes \<Rightarrow> bool" where
  "written log k b \<longleftrightarrow> (\<exists>e \<in> set log. (k, b) \<in> set (stored_pairs (entry_command e)))"

definition ttl_keys :: "apply_entry list \<Rightarrow> bytes set" where
  "ttl_keys log = {k. \<exists>p ts. written log k (encode_ttl p (Some ts))}"

definition from_log :: "apply_entry list \<Rightarrow> kv \<Rightarrow> bool" where
  "from_log log m \<longleftrightarrow> (\<forall>k b. m k = Some b \<longrightarrow> written log k b)"

definition traced :: "('e, 't) lmdb_view \<Rightarrow> 'e cluster \<Rightarrow> bool" where
  "traced V c \<longleftrightarrow>
     (\<forall>i. from_log (log_so_far c) (kv_of V (replica c i)) \<and> lost c i \<subseteq> ttl_keys (log_so_far c)) \<and>
     (\<forall>meta data X. (meta, data, X) \<in> set (taken c) \<longrightarrow> last_included meta \<noteq> None \<and>
        from_log (log_so_far c) (env_view V data DB_KV) \<and> X \<subseteq> ttl_keys (log_so_far c)) \<and>
     (\<forall>i k b. (i, k, Some b) \<in> set (reading c) \<longrightarrow> written (log_so_far c) k b)"

lemma from_log_removed: "from_log log m \<Longrightarrow> from_log log (m(k := None))"
  by (simp add: from_log_def)

lemma from_log_reap: "from_log log m \<Longrightarrow> from_log log (reap now k m)"
  by (simp add: reap_def from_log_removed)

lemma from_log_op:
  "from_log log m \<Longrightarrow> (\<And>k v. op = BatchInsert k v \<Longrightarrow> written log k v) \<Longrightarrow> from_log log (spec_op op m)"
  by (cases op) (auto simp: from_log_def)

lemma from_log_ops:
  "from_log log m \<Longrightarrow> (\<And>k v. BatchInsert k v \<in> set ops \<Longrightarrow> written log k v) \<Longrightarrow> from_log log (fold spec_op ops m)"
proof (induction ops arbitrary: m)
  case (Cons op ops)
  have "from_log log (spec_op op m)" by (rule from_log_op [OF Cons.prems(1)]) (use Cons.prems(2) in auto)
  then show ?case using Cons.IH Cons.prems(2) by simp
qed simp

lemma from_log_command:
  assumes "from_log log m" and "\<And>k b. (k, b) \<in> set (stored_pairs cmd) \<Longrightarrow> written log k b"
  shows "from_log log (snd (spec_command cmd m))"
proof (cases cmd)
  case (Batch ops)
  have "written log k v" if "BatchInsert k v \<in> set ops" for k v
    by (rule assms(2)) (use that Batch in \<open>auto intro!: bexI [of _ "BatchInsert k v"]\<close>)
  then show ?thesis using from_log_ops [OF assms(1)] Batch by simp
qed (use assms in \<open>auto simp: from_log_def\<close>)

lemma from_log_chunk:
  "from_log log m \<Longrightarrow> set chunk \<subseteq> set log \<Longrightarrow> from_log log (snd (spec_chunk chunk m))"
proof (induction chunk arbitrary: m)
  case (Cons e chunk)
  have "from_log log (snd (spec_command (entry_command e) m))"
    by (rule from_log_command [OF Cons.prems(1)]) (use Cons.prems(2) in \<open>auto simp: written_def\<close>)
  then show ?case using Cons.IH Cons.prems(2) by (simp add: split_def)
qed simp

lemma written_more: "written log k b \<Longrightarrow> set log \<subseteq> set log' \<Longrightarrow> written log' k b"
  by (auto simp: written_def)

lemma from_log_more: "from_log log m \<Longrightarrow> set log \<subseteq> set log' \<Longrightarrow> from_log log' m"
  using written_more by (fastforce simp: from_log_def)

lemma ttl_keys_more: "set log \<subseteq> set log' \<Longrightarrow> ttl_keys log \<subseteq> ttl_keys log'"
  unfolding ttl_keys_def by (blast dest: written_more)

lemma tracedD:
  assumes "traced V c"
  shows "from_log (log_so_far c) (kv_of V (replica c i))" and "lost c i \<subseteq> ttl_keys (log_so_far c)"
    and "(meta, data, X) \<in> set (taken c) \<Longrightarrow> from_log (log_so_far c) (env_view V data DB_KV)"
    and "(meta, data, X) \<in> set (taken c) \<Longrightarrow> X \<subseteq> ttl_keys (log_so_far c)"
    and "(meta, data, X) \<in> set (taken c) \<Longrightarrow> \<exists>l. last_included meta = Some l"
    and "(i, k, Some b) \<in> set (reading c) \<Longrightarrow> written (log_so_far c) k b"
  using assms unfolding traced_def by fast+

lemma traced_become:
  "traced V c \<Longrightarrow> from_log (log_so_far c) (kv_of V s) \<Longrightarrow> X \<subseteq> ttl_keys (log_so_far c) \<Longrightarrow> traced V (become i s X c)"
  by (simp add: traced_def)

lemma traced_fewer_reads:
  assumes "traced V c" and "set rs \<subseteq> set (reading c)"
  shows "traced V (c\<lparr>reading := rs, horizon := t\<rparr>)"
proof -
  have "written (log_so_far c) k b" if "(i, k, Some b) \<in> set rs" for i k b
    using tracedD(6) [OF assms(1)] assms(2) that by blast
  then show ?thesis using assms(1) by (simp add: traced_def)
qed

lemma traced_hang_up: "traced V c \<Longrightarrow> traced V (hang_up i c)"
  unfolding traced_def hang_up_def by simp blast

lemma lost_after_less: "lost_after r chunk X \<subseteq> X"
  by (auto simp: lost_after_def split: sum.splits)

context lmdb
begin

lemma apply_traced:
  assumes "apply_chunk L chunk s = (r, s')" and "from_log log (kv_of V s)" and "set chunk \<subseteq> set log"
  shows "from_log log (kv_of V s')"
proof (cases r)
  case (Inl e)
  then obtain terms where "s' = s\<lparr>entry_terms := terms\<rparr>" using apply_chunk_error_frame assms(1) by blast
  then show ?thesis using assms(2) by (simp add: kv_of_def)
next
  case (Inr rs)
  then show ?thesis
    using apply_chunk_refines(2) [OF assms(1) [unfolded Inr]] from_log_chunk assms(2,3) by (simp add: kv_of_def)
qed

lemma commit_traced:
  assumes "commit_chunk L chunk s = (r, s')" and "from_log log (kv_of V s)" and "set chunk \<subseteq> set log"
  shows "from_log log (kv_of V s')"
proof (cases r)
  case (Inl e)
  then show ?thesis using commit_chunk_error_frame assms(1,2) by fastforce
next
  case (Inr x)
  then obtain rs highest where "r = Inr (rs, highest)" by (cases x) auto
  then show ?thesis
    using commit_chunk_refines(1) assms(1) from_log_chunk [OF assms(2,3)] by simp
qed

lemma opened_kv: "sm_new L mkdir (Some e) config = Inr s \<Longrightarrow> kv_of V s = env_view V e DB_KV"
  using sm_new_refines(1) by (fastforce simp: kv_of_def)

lemma dropped_kv: "kv_of V (sm_drop L s) = kv_of V s"
proof (cases "persist_last_applied L (last_applied s) s")
  case (Pair r s')
  show ?thesis
  proof (cases r)
    case (Inl e)
    then show ?thesis using Pair by (auto simp: sm_drop_def persist_last_applied_def split: sum.splits)
  next
    case (Inr u)
    then have "persist_last_applied L (last_applied s) s = (Inr (), s')" using Pair by simp
    from persist_refines(1) [OF this] show ?thesis using Pair by (simp add: sm_drop_def kv_of_def)
  qed
qed

lemma generated_kv:
  assumes "generate_snapshot_data L mkdir old l s = (Inr (digest, data), s')"
  shows "last_applied_index s' = last_applied_index s" and "kv_of V s' = kv_of V s"
    and "env_view V data DB_KV = kv_of V s"
proof -
  have copy: "copy_env L (sm_env s) old = Inr data" and s': "\<exists>m. s' = s\<lparr>snapshot_meta := m\<rparr>"
    using assms(1)
    by (auto simp: generate_snapshot_data_def Let_def persist_last_snapshot_metadata_def
        update_last_snapshot_metadata_def and_then_eq_Inr map_err_eq_Inr split: sum.splits)
  show "last_applied_index s' = last_applied_index s" "kv_of V s' = kv_of V s"
    using s' by (auto simp: kv_of_def)
  show "env_view V data DB_KV = kv_of V s" using copy_env [OF copy] by (simp add: kv_of_def)
qed

lemma installed_kv:
  assumes "apply_snapshot_from_file L meta (Some data) s = (r, s')" and "last_included meta = Some l"
  shows "(\<exists>e. r = Inl e \<and> kv_of V s' = kv_of V s \<and> last_applied_index s' = last_applied_index s) \<or>
    (\<exists>u. r = Inr u \<and> kv_of V s' = env_view V data DB_KV \<and> last_applied_index s' = log_index l)"
proof (cases r)
  case (Inl e)
  then show ?thesis
    using assms(1) failed_restore_frame [of L meta "Some data" s e s'] by (simp add: kv_of_def)
next
  case (Inr u)
  obtain env where env: "restore_blocking L (sm_env s) (map_size s) meta (Some data) = Inr env"
    and s': "sm_env s' = env" "last_applied_index s' = log_index l"
    using assms Inr
    by (auto simp: apply_snapshot_from_file_def Let_def update_last_applied_def update_last_snapshot_metadata_def
        split: sum.splits)
  obtain snap where "open_env L (Some data) (map_size s) 3 = Inr snap"
    "env_view V env = with_last_applied l (set_kv (env_view V snap DB_KV) (env_view V (sm_env s)))"
    using restore_refines [OF env] assms(2) by auto
  then have "kv_of V s' = env_view V data DB_KV" using s'(1) open_env_old by (simp add: kv_of_def)
  then show ?thesis using Inr s'(2) by simp
qed

lemma reset_kv:
  assumes "sm_reset L s = (r, s')"
  shows "(\<exists>e. r = Inl e \<and> kv_of V s' = kv_of V s \<and> last_applied_index s' = last_applied_index s) \<or>
    (\<exists>u. r = Inr u \<and> kv_of V s' = Map.empty \<and> last_applied_index s' = 0)"
proof (cases r)
  case (Inl e)
  then show ?thesis using assms by (auto simp: sm_reset_def split: sum.splits)
next
  case (Inr u)
  then have "sm_reset L s = (Inr (), s')" using assms by simp
  from reset_refines(1,2) [OF this] show ?thesis using Inr by (simp add: kv_of_def last_applied_def)
qed

lemma decode_traced:
  assumes "decode_and_reap L clock k raw n = Return (r, n')" and "0 \<le> clock"
    and "from_log log (kv_of V (node_sm n))" and "X \<subseteq> ttl_keys log" and "\<And>b. raw = Some b \<Longrightarrow> written log k b"
  shows "from_log log (kv_of V (node_sm n'))" and "lost_by_read L clock k raw (node_sm n) r X \<subseteq> ttl_keys log"
proof -
  note effect = decode_effect(3) [OF assms(1,2), of X]
  then show "from_log log (kv_of V (node_sm n'))"
    using assms(3) from_log_removed [OF assms(3)] from_log_reap [OF assms(3)] by fastforce
  have "k \<in> ttl_keys log" if "raw = Some (encode_ttl p (Some ts))" for p ts
    using assms(5) [OF that] by (auto simp: ttl_keys_def)
  then show "lost_by_read L clock k raw (node_sm n) r X \<subseteq> ttl_keys log" using effect assms(4) by fastforce
qed


lemma step_traced:
  assumes "cluster_step L config c c'" and "traced V c"
  shows "traced V c'"
proof -
  note old = tracedD [OF assms(2)]
  note become = traced_become [OF assms(2)] traced_become [OF traced_hang_up [OF assms(2)]]
  from assms(1) show ?thesis
  proof cases
    case (entry_committed e)
    let ?log = "log_so_far c @ [e]"
    have "traced V (c\<lparr>log_so_far := ?log\<rparr>)"
      using assms(2) from_log_more [of "log_so_far c" _ ?log] ttl_keys_more [of "log_so_far c" ?log]
        written_more [of "log_so_far c" _ _ ?log]
      unfolding traced_def by (simp add: subset_eq)
    then show ?thesis using entry_committed(1) by simp
  next
    case (chunk_applied i n r s)
    show ?thesis
      unfolding chunk_applied(1)
      by (rule become(1) [OF apply_traced [OF chunk_applied(2) old(1) next_chunk_in_log]])
        (use lost_after_less old(2) in blast)
  next
    case (crashed mkdir i s)
    have "kv_of V s = kv_of V (replica c i)" using opened_kv [OF crashed(2)] by (simp add: kv_of_def)
    then show ?thesis using become(2) crashed(1) old(1,2) by simp
  next
    case (crashed_applying i n r s mkdir s')
    have "kv_of V s' = kv_of V s" using opened_kv [OF crashed_applying(3)] by (simp add: kv_of_def)
    moreover have "lost_after r (next_chunk c i n) (lost c i) \<subseteq> ttl_keys (log_so_far c)"
      using lost_after_less old(2) by blast
    ultimately show ?thesis
      using become(2) crashed_applying(1) commit_traced [OF crashed_applying(2) old(1) next_chunk_in_log] by simp
  next
    case (restarted mkdir i s)
    have "kv_of V s = kv_of V (replica c i)"
      using opened_kv [OF restarted(2)] dropped_kv [of "replica c i"] by (simp add: kv_of_def)
    then show ?thesis using become(2) restarted(1) old(1,2) by simp
  next
    case (key_fetched i k raw)
    have "raw = kv_of V (replica c i) k" by (rule sm_get_sound [OF key_fetched(2)])
    then have "\<forall>b. raw = Some b \<longrightarrow> written (log_so_far c) k b" using old(1) [of i] by (simp add: from_log_def)
    then show ?thesis using assms(2) unfolding key_fetched(1) traced_def by simp
  next
    case (key_decoded i k raw n clock r n')
    have origin: "written (log_so_far c) k b" if "raw = Some b" for b using old(6) key_decoded(2) that by blast
    have "from_log (log_so_far c) (kv_of V (node_sm n))" using old(1) key_decoded(3) by simp
    note kept = decode_traced [OF key_decoded(5,4) this old(2) [of i] origin]
    show ?thesis
      unfolding key_decoded(1)
      using kept by (intro traced_become traced_fewer_reads [OF assms(2)] set_remove1_subset) (simp_all add: key_decoded(3))
  next
    case (snapshot_taken mkdir old' l i digest data s)
    show ?thesis
      using assms(2) old(1,2) [of i] generated_kv(2,3) [OF snapshot_taken(2)]
      unfolding snapshot_taken(1) traced_def by simp
  next
    case (snapshot_installed meta data X i r s)
    obtain l where "last_included meta = Some l" using old(5) [OF snapshot_installed(2)] by blast
    from installed_kv [OF snapshot_installed(3) this] show ?thesis
      unfolding snapshot_installed(1)
      by (intro traced_become [OF assms(2)])
        (use old(1,2) [of i] old(3,4) [OF snapshot_installed(2)] in \<open>auto split: sum.splits\<close>)
  next
    case (was_reset i r s)
    from reset_kv [OF was_reset(2)] show ?thesis
      unfolding was_reset(1)
      by (intro traced_become [OF assms(2)]) (use old(1,2) [of i] in \<open>auto simp: from_log_def split: sum.splits\<close>)
  qed
qed

lemma reachable_traced: "cluster_reachable L config c \<Longrightarrow> traced V c"
proof (induction rule: cluster_reachable.induct)
  case (start fresh)
  have "kv_of V (fresh i) = Map.empty" for i using start fresh_replica(1) by metis
  then show ?case by (simp add: traced_def from_log_def)
next
  case (step c c')
  then show ?case using step_traced by blast
qed

end


section \<open>Runs on a healthy store\<close>

context lmdb_live
begin

lemma fresh_state:
  "\<exists>s. sm_new L (Inr ()) None config = Inr s \<and> kv_of V s = Map.empty \<and> last_applied_index s = 0 \<and>
    stored_last_applied V (sm_env s) = \<lparr>log_index = 0, log_term = 0\<rparr>"
  using sm_new_live fresh_replica by blast

lemma started_cluster:
  "\<exists>s. cluster_reachable L config (idle_cluster [] (\<lambda>_. s)) \<and>
    kv_of V s = Map.empty \<and> last_applied_index s = 0 \<and>
    stored_last_applied V (sm_env s) = \<lparr>log_index = 0, log_term = 0\<rparr>"
  using fresh_state cluster_reachable.start by metis

lemma apply_next:
  assumes "cluster_reachable L config c" and "chunk_admissible L (next_chunk c i n)"
  shows "\<exists>s. cluster_reachable L config (become i s (lost c i - overwritten_keys (next_chunk c i n)) c) \<and>
    kv_of V s = snd (spec_chunk (next_chunk c i n) (kv_of V (replica c i))) \<and>
    last_applied s = (if next_chunk c i n = [] then last_applied (replica c i) else entry_id (last (next_chunk c i n))) \<and>
    stored_last_applied V (sm_env s) = stored_last_applied V (sm_env (replica c i))"
proof -
  obtain rs s where run: "apply_chunk L (next_chunk c i n) (replica c i) = (Inr rs, s)"
    using apply_chunk_live [OF assms(2)] by blast
  note facts = apply_chunk_refines [OF run]
  have "cluster_reachable L config (become i s (lost c i - overwritten_keys (next_chunk c i n)) c)"
    using cluster_reachable.step [OF assms(1) cluster_step.chunk_applied [OF run]] by (simp add: lost_after_def)
  then show ?thesis
    using facts(2,4) by (auto simp: kv_of_def [of V s] stored_last_applied_def stored_u64_def)
qed

lemma crash_now:
  assumes "cluster_reachable L config c"
  shows "\<exists>s. cluster_reachable L config (become i s (lost c i) (hang_up i c)) \<and> kv_of V s = kv_of V (replica c i) \<and>
    last_applied s = stored_last_applied V (sm_env (replica c i))"
proof -
  obtain s where s: "sm_new L (Inr ()) (Some (sm_env (replica c i))) config = Inr s" using sm_new_live by blast
  have "cluster_reachable L config (become i s (lost c i) (hang_up i c))"
    using assms cluster_step.crashed [OF s] by (rule cluster_reachable.step)
  then show ?thesis
    using sm_new_refines(1,2) [OF s] by (auto simp: kv_of_def stored_last_applied_def stored_u64_def)
qed

lemma commit_next:
  "cluster_reachable L config c \<Longrightarrow> Suc (length (log_so_far c)) < 2 ^ 64 \<Longrightarrow>
   entry_index e = word_of_nat (Suc (length (log_so_far c))) \<Longrightarrow>
   cluster_reachable L config (c\<lparr>log_so_far := log_so_far c @ [e]\<rparr>)"
  using cluster_reachable.step cluster_step.entry_committed by blast

text \<open>A point read of a key whose logical value is known, or that is absent.\<close>

lemma node_get_absent:
  "admissible_key L k \<Longrightarrow> node_kv V n k = None \<Longrightarrow> node_get L clock k n = Return (Inr None, n)"
  using sm_get_live [of k "node_sm n"]
  by (simp add: node_get_def fetch_local_def decode_and_reap_def node_kv_def)

lemma node_get_visible:
  assumes "admissible_key L k" and "0 \<le> clock" and "logical (word_of_int clock) (node_kv V n) k = Some v"
  shows "node_get L clock k n = Return (Inr (Some v), n)"
proof -
  obtain b where b: "node_kv V n k = Some b" "live_value (word_of_int clock) b = Some v"
    using assms(3) by (auto simp: logical_def split: option.splits)
  then have "decode_live_value b (word_of_int clock) = Inr (Present v)"
    by (auto simp: live_value_def split: sum.splits decoded_value.splits)
  then show ?thesis
    using sm_get_live [OF assms(1), of "node_sm n"] b(1) unix_now_ok [OF assms(2)]
    by (simp add: node_get_def fetch_local_def decode_and_reap_def node_kv_def)
qed

end


section \<open>Properties\<close>

text \<open>C5. The cluster converges on its log. With a log free of compare-and-swap, in every state of every
  run, crashes, snapshots, reads with removals between and resets included, and for clocks not before
  the latest finished read: a node answers for each key that no entry after its \<open>last_applied\<close> writes what the
  committed log says, so one that has applied the whole log answers so for every key. The exception are the
  keys whose live value a read on this node, or on the one whose snapshot it installed, removed after it had
  fetched an expired one: such a key is absent until an applied entry writes it, and the log has a
  TTL value for it.\<close>

theorem cluster_converges:
  assumes "lmdb L V" and "cluster_reachable L config c" and "cas_free (log_so_far c)" and "horizon c \<le> now"
  shows "(k \<notin> lost c i \<longrightarrow> untouched_after (log_so_far c) (unat (last_applied_index (replica c i))) k \<longrightarrow>
      logical now (kv_of V (replica c i)) k = logical now (log_contents (log_so_far c)) k) \<and>
    (unat (last_applied_index (replica c i)) = length (log_so_far c) \<longrightarrow>
      logical now (kv_of V (replica c i)) = logical now (log_contents (log_so_far c)) |` (- lost c i)) \<and>
    (k \<in> lost c i \<longrightarrow> kv_of V (replica c i) k = None \<and> (\<exists>v ts. written (log_so_far c) k (encode_ttl v (Some ts))))"
proof -
  note settled = lmdb.reachable_settled [OF assms(1-3), of i, unfolded settled_def]
  have agree: "logical now (kv_of V (replica c i)) j = logical now (log_contents (log_so_far c)) j"
    if "j \<notin> lost c i" "untouched_after (log_so_far c) (unat (last_applied_index (replica c i))) j" for j
    using settled that assms(4) by blast
  have gone: "kv_of V (replica c i) j = None" if "j \<in> lost c i" for j using settled that by blast
  have "logical now (kv_of V (replica c i)) j = (logical now (log_contents (log_so_far c)) |` (- lost c i)) j"
    if "unat (last_applied_index (replica c i)) = length (log_so_far c)" for j
    using agree [of j] gone [of j] that by (cases "j \<in> lost c i") (simp_all add: untouched_after_def logical_def)
  moreover have "k \<in> lost c i \<Longrightarrow> \<exists>v ts. written (log_so_far c) k (encode_ttl v (Some ts))"
    using tracedD(2) [OF lmdb.reachable_traced [OF assms(1,2)], of i] by (auto simp: ttl_keys_def)
  ultimately show ?thesis using agree gone by blast
qed

definition one_put :: "apply_entry list" where
  "one_put = [demo_entry 1 (Insert [7] (encode_raw [1]) None)]"

lemma one_put_cluster:
  "\<exists>c. cluster_reachable mem_api demo_config c \<and> log_so_far c = one_put \<and> horizon c = 0 \<and>
    last_applied_index (replica c 0) = 1 \<and> lost c 0 = {}"
proof -
  obtain s where start: "cluster_reachable mem_api demo_config (idle_cluster [] (\<lambda>_. s))"
    and s: "last_applied_index s = 0"
    using mem.started_cluster by blast
  let ?c = "idle_cluster one_put (\<lambda>_. s)"
  have reach: "cluster_reachable mem_api demo_config ?c"
    using mem.commit_next [OF start, of "demo_entry 1 (Insert [7] (encode_raw [1]) None)"]
    by (simp add: one_put_def demo_entry_def)
  have next1: "next_chunk ?c 0 1 = one_put" by (simp add: next_chunk_def s one_put_def)
  have "chunk_admissible mem_api (next_chunk ?c 0 1)"
    unfolding next1 by (simp add: chunk_admissible_def one_put_def demo_entry_def)
  from mem.apply_next [OF reach this] obtain s1 where
    "cluster_reachable mem_api demo_config (become 0 s1 {} ?c)" "last_applied s1 = entry_id (last one_put)"
    unfolding next1 by (auto simp: one_put_def)
  then show ?thesis
    by (intro exI [of _ "become 0 s1 {} ?c"]) (simp add: last_applied_def entry_id_def one_put_def demo_entry_def)
qed

theorem cluster_converges_witness:
  "\<exists>c. cluster_reachable mem_api demo_config c \<and> log_so_far c = one_put \<and>
    logical 5 (kv_of mem_view (replica c 0)) = [[7] \<mapsto> [1]]"
proof -
  obtain c where c: "cluster_reachable mem_api demo_config c" "log_so_far c = one_put" "horizon c = 0"
    "last_applied_index (replica c 0) = 1" "lost c 0 = {}"
    using one_put_cluster by blast
  have "cas_free (log_so_far c)" by (simp add: c(2) one_put_def demo_entry_def cas_free_def)
  from cluster_converges [OF mem.lmdb_axioms c(1) this, where now = 5 and i = 0] show ?thesis
    using c by (auto simp: one_put_def log_contents_def demo_entry_def)
qed

text \<open>C7. What becomes of an acknowledged write. With a log free of compare-and-swap, a value that the log stores
  without a TTL and does not overwrite later is what a point read returns on every node that has applied past its entry, at any clock
  not before that of the latest finished read, however often that node or others crashed, exchanged snapshots, removed
  expired values or were reset on the way. The exception: when the log also has a TTL value for the key,
  a read that had fetched that value, expired, may have removed the newer one, and the key reads as absent.\<close>

theorem acknowledged_write_read:
  fixes n :: "('g, 'e) node"
  assumes "lmdb_live L V" and "cluster_reachable L config c" and "cas_free (log_so_far c)"
    and "p < length (log_so_far c)" and "entry_command (log_so_far c ! p) = Insert k (encode_raw v) ttl"
    and "untouched_after (log_so_far c) (Suc p) k" and "p < unat (last_applied_index (replica c i))"
    and "node_sm n = replica c i" and "admissible_key L k" and "0 \<le> clock" and "horizon c \<le> word_of_int clock"
  shows "node_get L clock k n = Return (Inr (if k \<in> lost c i then None else Some v), n) \<and>
    (k \<in> lost c i \<longrightarrow> (\<exists>w ts. written (log_so_far c) k (encode_ttl w (Some ts))))"
proof -
  let ?log = "log_so_far c"
  note lmdb = lmdb_live.axioms(1) [OF assms(1)]
  note settled = lmdb.reachable_settled [OF lmdb assms(2,3), of i, unfolded settled_def]
  have split: "?log = take p ?log @ ?log ! p # drop (Suc p) ?log" by (rule id_take_nth_drop [OF assms(4)])
  have "last_op (chunk_ops (drop (Suc p) ?log)) k = None"
    using assms(6) untouched_after_iff [OF assms(3)] by blast
  then have "last_op (chunk_ops (?log ! p # drop (Suc p) ?log)) k = Some (Some (encode_raw v))"
    using chunk_ops_append [of "[?log ! p]" "drop (Suc p) ?log"] assms(5)
    by (simp add: last_op_append) (simp add: chunk_ops_def)
  then have "last_op (chunk_ops ?log) k = Some (Some (encode_raw v))"
    using arg_cong [OF split, of chunk_ops] by (simp only: chunk_ops_append last_op_append option.case)
  then have "log_contents ?log k = Some (encode_raw v)" using log_contents_at [OF assms(3)] by simp
  moreover have "untouched_after ?log (unat (last_applied_index (replica c i))) k"
    using assms(6,7) set_drop_subset_set_drop [of "Suc p" "unat (last_applied_index (replica c i))" ?log]
    by (auto simp: untouched_after_def)
  ultimately have "logical (word_of_int clock) (node_kv V n) k = Some v" if "k \<notin> lost c i"
    using settled that assms(8,11) by (simp add: node_kv_def logical_def)
  moreover have "node_kv V n k = None" if "k \<in> lost c i" using settled that assms(8) by (simp add: node_kv_def)
  ultimately have "node_get L clock k n = Return (Inr (if k \<in> lost c i then None else Some v), n)"
    using lmdb_live.node_get_visible [OF assms(1,9,10), of n v] lmdb_live.node_get_absent [OF assms(1,9), of n clock]
    by (cases "k \<in> lost c i") simp_all
  moreover have "k \<in> lost c i \<Longrightarrow> \<exists>w ts. written ?log k (encode_ttl w (Some ts))"
    using tracedD(2) [OF lmdb.reachable_traced [OF lmdb assms(2)], of i] by (auto simp: ttl_keys_def)
  ultimately show ?thesis by blast
qed

theorem acknowledged_write_read_witness:
  "\<exists>c n. cluster_reachable mem_api demo_config c \<and> node_sm n = replica c 0 \<and>
    node_get mem_api 5 [7] (n :: (unit, mem) node) = Return (Inr (Some [1]), n)"
proof -
  obtain c where c: "cluster_reachable mem_api demo_config c" "log_so_far c = one_put" "horizon c = 0"
    "last_applied_index (replica c 0) = 1" "lost c 0 = {}"
    using one_put_cluster by blast
  have "cas_free (log_so_far c)" by (simp add: c(2) one_put_def demo_entry_def cas_free_def)
  let ?n = "\<lparr>inner = (), node_sm = replica c 0, data_dir_lock = [], node_max_key = 9, node_max_value = 9\<rparr>"
  have "node_get mem_api 5 [7] ?n = Return (Inr (Some [1]), ?n)"
    using acknowledged_write_read [OF mem.lmdb_live_axioms c(1) \<open>cas_free (log_so_far c)\<close>, of 0 "[7]" "[1]" None 0 ?n 5] c
    by (simp add: one_put_def untouched_after_def demo_entry_def)
  then show ?thesis using c(1) by (intro exI [of _ c] exI [of _ ?n] conjI) simp_all
qed

text \<open>C18. A batch is not always seen as a whole. After a crash the node applies the log again from the
  \<open>last_applied\<close> it stored last, on top of the newer contents it kept. While it does, reads are
  served: with a put to \<open>a\<close> followed by a batch that writes \<open>a\<close> and \<open>b\<close>, there is a run in which
  the node holds the first value of \<open>a\<close> beside the \<open>b\<close> of the batch, contents that no prefix of the
  log has.\<close>

theorem replay_tears_batch:
  assumes "lmdb_live L V" and "admissible_key L a" and "admissible_key L b" and "a \<noteq> b" and "x \<noteq> y"
  shows "\<exists>c. cluster_reachable L config c \<and>
    map entry_command (log_so_far c) = [Insert a x None, Batch [BatchInsert a y, BatchInsert b w]] \<and>
    last_applied_index (replica c i) = 1 \<and>
    sm_get L (replica c i) a = Inr (Some x) \<and> sm_get L (replica c i) b = Inr (Some w) \<and>
    (\<forall>n. kv_of V (replica c i) \<noteq> log_contents (take n (log_so_far c)))"
proof -
  note live = assms(1)
  define e1 e2 where "e1 = demo_entry 1 (Insert a x None)"
    and "e2 = demo_entry 2 (Batch [BatchInsert a y, BatchInsert b w])"
  note entries = e1_def e2_def demo_entry_def
  obtain s0 where start: "cluster_reachable L config (idle_cluster [] (\<lambda>_. s0))"
    and s0: "kv_of V s0 = Map.empty" "last_applied_index s0 = 0"
      "stored_last_applied V (sm_env s0) = \<lparr>log_index = 0, log_term = 0\<rparr>"
    using lmdb_live.started_cluster [OF live] by blast
  define c0 where "c0 = idle_cluster [e1, e2] (\<lambda>_. s0)"
  have reach0: "cluster_reachable L config c0"
    using lmdb_live.commit_next [OF live lmdb_live.commit_next [OF live start, of e1], of e2]
    by (simp add: c0_def entries)
  have admitted: "chunk_admissible L (take n [e1, e2])" for n
    using assms(2,3) in_set_takeD by (fastforce simp: chunk_admissible_def entries)
  have first: "next_chunk c0 i 2 = [e1, e2]" by (simp add: next_chunk_def c0_def s0)
  obtain s1 where reach1: "cluster_reachable L config (become i s1 {} c0)"
    and s1: "kv_of V s1 = [a \<mapsto> y, b \<mapsto> w]"
      "stored_last_applied V (sm_env s1) = \<lparr>log_index = 0, log_term = 0\<rparr>"
    using lmdb_live.apply_next [OF live reach0, of i 2] admitted [of 2] s0(1,3)
    unfolding first by (auto simp: entries c0_def)
  obtain s2 where reach2: "cluster_reachable L config (become i s2 {} (hang_up i (become i s1 {} c0)))"
    and s2: "kv_of V s2 = kv_of V s1" "last_applied_index s2 = 0"
    using lmdb_live.crash_now [OF live reach1, of i] s1(2) by (auto simp: c0_def last_applied_def)
  have again: "next_chunk (become i s2 {} (hang_up i (become i s1 {} c0))) i 1 = [e1]"
    by (simp add: next_chunk_def c0_def s2)
  obtain s3 where reach3: "cluster_reachable L config (become i s3 {} (become i s2 {} (hang_up i (become i s1 {} c0))))"
    and s3: "kv_of V s3 = [a \<mapsto> x, b \<mapsto> w]" "last_applied_index s3 = 1"
    using lmdb_live.apply_next [OF live reach2, of i 1] admitted [of 1] s1(1) s2(1) assms(4)
    unfolding again by (auto simp: entries c0_def last_applied_def entry_id_def fun_upd_twist)
  have "log_contents (take n [e1, e2]) \<noteq> [a \<mapsto> x, b \<mapsto> w]" for n
  proof -
    consider "n = 0" | "n = 1" | "2 \<le> n" by linarith
    then show ?thesis
      using assms(4,5) by cases (auto simp: log_contents_def entries fun_eq_iff)
  qed
  then have "\<forall>n. kv_of V s3 \<noteq> log_contents (take n [e1, e2])" using s3(1) by metis
  moreover have "sm_get L s3 a = Inr (Some x)" "sm_get L s3 b = Inr (Some w)"
    using s3(1) assms(4) lmdb_live.sm_get_live [OF live assms(2), of s3] lmdb_live.sm_get_live [OF live assms(3), of s3]
    by simp_all
  moreover have "map entry_command [e1, e2] = [Insert a x None, Batch [BatchInsert a y, BatchInsert b w]]"
    by (simp add: entries)
  ultimately show ?thesis
    using reach3 s3(2)
    by (intro exI [of _ "become i s3 {} (become i s2 {} (hang_up i (become i s1 {} c0)))"]) (simp add: c0_def)
qed

theorem replay_tears_batch_witness:
  "\<exists>c. cluster_reachable mem_api demo_config c \<and> sm_get mem_api (replica c 0) [1] = Inr (Some [0, 1]) \<and>
    sm_get mem_api (replica c 0) [2] = Inr (Some [0, 3])"
  using replay_tears_batch [OF mem.lmdb_live_axioms, of "[1]" "[2]" "[0, 1]" "[0, 2]" demo_config "[0, 3]" 0]
  by auto

end
