(* ===== verification/Orderly.thy ===== *)
theory Orderly
  imports Cluster
begin

text \<open>
  A cluster without crashes. Nodes stop and start in an orderly way, with their position stored, and
  snapshots are labelled with the position they were taken at. Then a node holds nothing
  but a prefix of the log, the one up to its \<open>last_applied\<close>, less the keys it has lost to reads that
  removed a newer value than the one they had fetched. So an eventual read answers as some
  earlier state of the whole cluster did, never as a mixture of states, or finds nothing. What is meant by agreeing with the prefix is a parameter,
  the locale \<open>agreement\<close>, since logs with compare-and-swap need equality of the stored bytes and
  logs with TTL values allow only agreement of what reads can see.
\<close>


section \<open>Steps\<close>

inductive orderly_step :: "('e, 't) lmdb_api \<Rightarrow> dlmdb_config \<Rightarrow> 'e cluster \<Rightarrow> 'e cluster \<Rightarrow> bool"
  for L :: "('e, 't) lmdb_api" and config :: dlmdb_config where
  committed_one: "Suc (length (log_so_far c)) < 2 ^ 64 \<Longrightarrow> entry_index e = word_of_nat (Suc (length (log_so_far c))) \<Longrightarrow>
    orderly_step L config c (c\<lparr>log_so_far := log_so_far c @ [e]\<rparr>)"
| applied: "apply_chunk L (next_chunk c i n) (replica c i) = (r, s) \<Longrightarrow>
    orderly_step L config c (become i s (lost_after r (next_chunk c i n) (lost c i)) c)"
| handed_over: "persist_last_applied L (last_applied (replica c i)) (replica c i) = (Inr (), s1) \<Longrightarrow>
    sm_new L mkdir (Some (sm_env s1)) config = Inr s \<Longrightarrow>
    orderly_step L config c (become i s (lost c i) (hang_up i c))"
| fetched: "sm_get L (replica c i) k = Inr raw \<Longrightarrow>
    orderly_step L config c (c\<lparr>reading := (i, k, raw) # reading c\<rparr>)"
| decoded: "(i, k, raw) \<in> set (reading c) \<Longrightarrow> node_sm n = replica c i \<Longrightarrow> 0 \<le> clock \<Longrightarrow>
    decode_and_reap L clock k raw (n :: (unit, 'e) node) = Return (r, n') \<Longrightarrow>
    orderly_step L config c (become i (node_sm n') (lost_by_read L clock k raw (replica c i) r (lost c i))
      (c\<lparr>reading := remove1 (i, k, raw) (reading c), horizon := max (horizon c) (word_of_int clock)\<rparr>))"
| generated: "generate_snapshot_data L mkdir old l (replica c i) = (Inr (digest, file), s) \<Longrightarrow>
    log_index l = last_applied_index (replica c i) \<Longrightarrow>
    orderly_step L config c (become i s (lost c i)
      (c\<lparr>taken := (\<lparr>last_included = Some l, checksum = digest\<rparr>, file, lost c i) # taken c\<rparr>))"
| installed: "(meta, file, X) \<in> set (taken c) \<Longrightarrow>
    apply_snapshot_from_file L meta (Some file) (replica c i) = (r, s) \<Longrightarrow>
    orderly_step L config c (become i s (case r of Inl e \<Rightarrow> lost c i | Inr _ \<Rightarrow> X) c)"
| cleared: "sm_reset L (replica c i) = (r, s) \<Longrightarrow>
    orderly_step L config c (become i s (case r of Inl e \<Rightarrow> lost c i | Inr _ \<Rightarrow> {}) c)"

inductive orderly_reachable :: "('e, 't) lmdb_api \<Rightarrow> dlmdb_config \<Rightarrow> 'e cluster \<Rightarrow> bool"
  for L :: "('e, 't) lmdb_api" and config :: dlmdb_config where
  begun: "\<forall>i. \<exists>mkdir. sm_new L mkdir None config = Inr (fresh i) \<Longrightarrow> orderly_reachable L config (idle_cluster [] fresh)"
| went_on: "orderly_reachable L config c \<Longrightarrow> orderly_step L config c c' \<Longrightarrow> orderly_reachable L config c'"

text \<open>These are runs of the cluster as before.\<close>

lemma orderly_step_cluster: "orderly_step L config c c' \<Longrightarrow> cluster_step L config c c'"
proof (induction rule: orderly_step.induct)
  case (handed_over c i s1 mkdir s)
  then have "sm_drop L (replica c i) = s1" by (simp add: sm_drop_def)
  then show ?case using cluster_step.restarted handed_over(2) by metis
next
  case (generated mkdir old l c i digest data s)
  then show ?case using cluster_step.snapshot_taken by (metis order_refl)
qed (auto intro: cluster_step.intros)

lemma orderly_is_cluster: "orderly_reachable L config c \<Longrightarrow> cluster_reachable L config c"
  by (induction rule: orderly_reachable.induct)
    (auto intro: cluster_reachable.start cluster_reachable.step orderly_step_cluster)


section \<open>Agreeing with a prefix\<close>

text \<open>\<open>same X t m p\<close>: contents \<open>m\<close> agree with contents \<open>p\<close> for reads from the time \<open>t\<close> on, but for the keys
  in \<open>X\<close>, which \<open>m\<close> lacks. They go on doing so when both apply entries of the kind \<open>allowed\<close>, when reads
  remove expired values from \<open>m\<close>, and, with one more key in \<open>X\<close>, when a read removes another value.\<close>

locale agreement =
  fixes same :: "bytes set \<Rightarrow> u64 \<Rightarrow> kv \<Rightarrow> kv \<Rightarrow> bool" and allowed :: "apply_entry \<Rightarrow> bool"
  assumes same_empty: "same {} t Map.empty Map.empty"
    and same_apply: "same X t m p \<Longrightarrow> \<forall>e \<in> set chunk. allowed e \<Longrightarrow>
      same (X - overwritten_keys chunk) t (snd (spec_chunk chunk m)) (snd (spec_chunk chunk p))"
    and same_later: "same X t m p \<Longrightarrow> t \<le> t' \<Longrightarrow> same X t' m p"
    and same_reap: "same X t m p \<Longrightarrow> t \<le> t' \<Longrightarrow> now \<le> t' \<Longrightarrow> same X t' (reap now k m) p"
    and same_lose: "same X t m p \<Longrightarrow> \<forall>e \<in> set log. allowed e \<Longrightarrow> k \<in> ttl_keys log \<Longrightarrow>
      same (insert k X) t (m(k := None)) p"
    and same_reads: "same X t m p \<Longrightarrow> t \<le> now \<Longrightarrow> logical now m = logical now p |` (- X)"

text \<open>Logs that store values without TTL only.\<close>

definition is_plain :: "bytes \<Rightarrow> bool" where
  "is_plain b \<longleftrightarrow> (\<exists>v. b = encode_raw v)"

definition stores_plain :: "apply_entry \<Rightarrow> bool" where
  "stores_plain e \<longleftrightarrow> (\<forall>(k, b) \<in> set (stored_pairs (entry_command e)). is_plain b)"

definition plain_values :: "kv \<Rightarrow> bool" where
  "plain_values m \<longleftrightarrow> (\<forall>k b. m k = Some b \<longrightarrow> is_plain b)"

lemma plain_not_expired: "is_plain b \<Longrightarrow> decode_live_value b now \<noteq> Inr Expired"
  by (auto simp: is_plain_def decode_live_value_def)

lemma plain_reap: "plain_values m \<Longrightarrow> reap now k m = m"
  using plain_not_expired by (auto simp: reap_def expired_def plain_values_def split: option.splits)

lemma plain_from_log: "\<forall>e \<in> set log. stores_plain e \<Longrightarrow> written log k b \<Longrightarrow> is_plain b"
  by (fastforce simp: written_def stores_plain_def)

lemma plain_no_ttl: "\<forall>e \<in> set log. stores_plain e \<Longrightarrow> ttl_keys log = {}"
  by (auto simp: ttl_keys_def dest!: plain_from_log) (simp add: is_plain_def, metis encode_raw_neq_ttl)

lemma plain_op: "plain_values m \<Longrightarrow> (\<And>k v. op = BatchInsert k v \<Longrightarrow> is_plain v) \<Longrightarrow> plain_values (spec_op op m)"
  by (cases op) (auto simp: plain_values_def)

lemma plain_ops:
  "plain_values m \<Longrightarrow> (\<And>k v. BatchInsert k v \<in> set ops \<Longrightarrow> is_plain v) \<Longrightarrow> plain_values (fold spec_op ops m)"
proof (induction ops arbitrary: m)
  case (Cons op ops)
  have "plain_values (spec_op op m)" by (rule plain_op [OF Cons.prems(1)]) (use Cons.prems(2) in auto)
  moreover have "BatchInsert k v \<in> set ops \<Longrightarrow> is_plain v" for k v using Cons.prems(2) [of k v] by simp
  ultimately show ?case using Cons.IH by simp
qed simp

lemma plain_command:
  assumes "plain_values m" and "\<And>k b. (k, b) \<in> set (stored_pairs cmd) \<Longrightarrow> is_plain b"
  shows "plain_values (snd (spec_command cmd m))"
proof (cases cmd)
  case (Batch ops)
  have "is_plain v" if "BatchInsert k v \<in> set ops" for k v
    by (rule assms(2) [of k]) (use that Batch in \<open>auto intro!: bexI [of _ "BatchInsert k v"]\<close>)
  then show ?thesis using plain_ops [OF assms(1)] Batch by simp
qed (use assms in \<open>auto simp: plain_values_def\<close>)

lemma plain_chunk: "plain_values m \<Longrightarrow> \<forall>e \<in> set chunk. stores_plain e \<Longrightarrow> plain_values (snd (spec_chunk chunk m))"
proof (induction chunk arbitrary: m)
  case (Cons e chunk)
  have "plain_values (snd (spec_command (entry_command e) m))"
    by (rule plain_command [OF Cons.prems(1)]) (use Cons.prems(2) in \<open>auto simp: stores_plain_def\<close>)
  then show ?case using Cons.IH Cons.prems(2) by (simp add: split_def)
qed simp

text \<open>Without TTL values the contents are equal, whatever the commands, and nothing is lost.\<close>

definition equal_plain :: "bytes set \<Rightarrow> u64 \<Rightarrow> kv \<Rightarrow> kv \<Rightarrow> bool" where
  "equal_plain X t m p \<longleftrightarrow> X = {} \<and> m = p \<and> plain_values p"

interpretation plain_log: agreement equal_plain stores_plain
proof
  show "equal_plain {} t Map.empty Map.empty" for t by (simp add: equal_plain_def plain_values_def)
qed (auto simp: equal_plain_def plain_chunk plain_reap plain_no_ttl)

text \<open>Without compare-and-swap the contents look alike from the time of the latest read on.\<close>

definition look_alike :: "bytes set \<Rightarrow> u64 \<Rightarrow> kv \<Rightarrow> kv \<Rightarrow> bool" where
  "look_alike X t m p \<longleftrightarrow> (\<forall>k \<in> X. m k = None) \<and>
     (\<forall>k now. k \<notin> X \<longrightarrow> t \<le> now \<longrightarrow> logical now m k = logical now p k)"

definition no_swap :: "apply_entry \<Rightarrow> bool" where
  "no_swap e \<longleftrightarrow> \<not> is_cas (entry_command e)"

lemma look_alike_apply:
  assumes "look_alike X t m p" and "cas_free chunk"
  shows "look_alike (X - overwritten_keys chunk) t (snd (spec_chunk chunk m)) (snd (spec_chunk chunk p))"
proof -
  have applied: "snd (spec_chunk chunk q) k = (case last_op (chunk_ops chunk) k of None \<Rightarrow> q k | Some w \<Rightarrow> w)" for q k
    by (simp add: cas_free_spec [OF assms(2)] fold_spec_op)
  have "logical now (snd (spec_chunk chunk m)) k = logical now (snd (spec_chunk chunk p)) k"
    if "k \<notin> X - overwritten_keys chunk" "t \<le> now" for k and now :: u64
  proof (cases "last_op (chunk_ops chunk) k")
    case None
    then have "k \<notin> X" using that(1) overwritten_iff [OF assms(2)] by blast
    then have "logical now m k = logical now p k" using assms(1) that(2) by (simp add: look_alike_def)
    then show ?thesis
      using None applied [of m k] applied [of p k]
        logical_at_cong [of "snd (spec_chunk chunk m)" k m] logical_at_cong [of "snd (spec_chunk chunk p)" k p] by simp
  next
    case (Some w)
    then show ?thesis using applied [of m k] applied [of p k] by (intro logical_at_cong) simp
  qed
  moreover have "snd (spec_chunk chunk m) k = None" if "k \<in> X - overwritten_keys chunk" for k
    using that assms(1) applied [of m k] overwritten_iff [OF assms(2), of k] by (simp add: look_alike_def)
  ultimately show ?thesis unfolding look_alike_def by blast
qed

lemma look_alike_reads: "look_alike X t m p \<Longrightarrow> t \<le> now \<Longrightarrow> logical now m k = (logical now p |` (- X)) k"
  by (cases "k \<in> X") (simp_all add: look_alike_def logical_def)

lemma look_alike_reap:
  "look_alike X t m p \<Longrightarrow> t \<le> t' \<Longrightarrow> now \<le> t' \<Longrightarrow> look_alike X t' (reap now k m) p"
  unfolding look_alike_def using logical_reap [of _ _ k m] reap_absent [of m] order_trans by (metis (no_types))

lemma look_alike_later: "look_alike X t m p \<Longrightarrow> t \<le> t' \<Longrightarrow> look_alike X t' m p"
  unfolding look_alike_def using order_trans by blast

interpretation swap_free_log: agreement look_alike no_swap
proof
  show "look_alike (X - overwritten_keys chunk) t (snd (spec_chunk chunk m)) (snd (spec_chunk chunk p))"
    if "look_alike X t m p" "\<forall>e \<in> set chunk. no_swap e" for X t m p chunk
    using look_alike_apply [OF that(1)] that(2) by (simp add: cas_free_def no_swap_def)
  show "look_alike (insert k X) t (m(k := None)) p" if "look_alike X t m p" for X t m p and k :: bytes
    using that by (auto simp: look_alike_def logical_def)
  show "logical now m = logical now p |` (- X)" if "look_alike X t m p" "t \<le> now" for X t m p now
    using look_alike_reads [OF that] by (rule ext)
  show "look_alike {} t Map.empty Map.empty" for t by (simp add: look_alike_def)
qed (blast intro: look_alike_later look_alike_reap)+


section \<open>The invariant\<close>

definition at_prefix ::
  "(bytes set \<Rightarrow> u64 \<Rightarrow> kv \<Rightarrow> kv \<Rightarrow> bool) \<Rightarrow> bytes set \<Rightarrow> u64 \<Rightarrow> apply_entry list \<Rightarrow> u64 \<Rightarrow> kv \<Rightarrow> bool" where
  "at_prefix same X t log i m \<longleftrightarrow> unat i \<le> length log \<and> same X t m (log_contents (take (unat i) log))"

definition orderly_inv :: "('e, 't) lmdb_view \<Rightarrow> (bytes set \<Rightarrow> u64 \<Rightarrow> kv \<Rightarrow> kv \<Rightarrow> bool) \<Rightarrow> 'e cluster \<Rightarrow> bool" where
  "orderly_inv V same c \<longleftrightarrow> log_indexed (log_so_far c) \<and>
     (\<forall>i. at_prefix same (lost c i) (horizon c) (log_so_far c) (last_applied_index (replica c i)) (kv_of V (replica c i))) \<and>
     (\<forall>meta data X. (meta, data, X) \<in> set (taken c) \<longrightarrow> (\<exists>l. last_included meta = Some l \<and>
        at_prefix same X (horizon c) (log_so_far c) (log_index l) (env_view V data DB_KV)))"

lemma orderly_invD:
  assumes "orderly_inv V same c"
  shows "log_indexed (log_so_far c)"
    and "at_prefix same (lost c i) (horizon c) (log_so_far c) (last_applied_index (replica c i)) (kv_of V (replica c i))"
    and "(meta, data, X) \<in> set (taken c) \<Longrightarrow> \<exists>l. last_included meta = Some l \<and>
      at_prefix same X (horizon c) (log_so_far c) (log_index l) (env_view V data DB_KV)"
  using assms unfolding orderly_inv_def by fast+

lemma orderly_inv_become:
  assumes "orderly_inv V same c"
    and "at_prefix same X (horizon c) (log_so_far c) (last_applied_index s) (kv_of V s)"
  shows "orderly_inv V same (become i s X c)"
  using assms by (simp add: orderly_inv_def)

lemma orderly_inv_reading: "orderly_inv V same c \<Longrightarrow> orderly_inv V same (c\<lparr>reading := rs\<rparr>)"
  by (simp add: orderly_inv_def)

lemma at_prefix_snoc: "at_prefix same X t log i m \<Longrightarrow> at_prefix same X t (log @ [e]) i m"
  by (simp add: at_prefix_def)

locale orderly_cluster = lmdb L V + agreement same allowed
  for L :: "('e, 't) lmdb_api" and V :: "('e, 't) lmdb_view" and same :: "bytes set \<Rightarrow> u64 \<Rightarrow> kv \<Rightarrow> kv \<Rightarrow> bool"
    and allowed :: "apply_entry \<Rightarrow> bool"
begin

lemma at_prefix_later: "at_prefix same X t log i m \<Longrightarrow> t \<le> t' \<Longrightarrow> at_prefix same X t' log i m"
  using same_later by (auto simp: at_prefix_def)

lemma at_prefix_start: "at_prefix same {} t log 0 Map.empty"
  using same_empty by (simp add: at_prefix_def log_contents_def)

lemma apply_at_prefix:
  assumes "apply_chunk L chunk s = (r, s')" and "at_prefix same X t log (last_applied_index s) (kv_of V s)"
    and "log_indexed log" and "\<forall>e \<in> set log. allowed e"
    and chunk: "chunk = take n (drop (unat (last_applied_index s)) log)"
  shows "at_prefix same (lost_after r chunk X) t log (last_applied_index s') (kv_of V s')"
proof (cases r)
  case (Inl e)
  then obtain terms where "s' = s\<lparr>entry_terms := terms\<rparr>" using apply_chunk_error_frame assms(1) by blast
  then show ?thesis using assms(2) Inl by (simp add: kv_of_def lost_after_def)
next
  case (Inr rs)
  note run = apply_chunk_refines [OF assms(1) [unfolded Inr]]
  let ?a = "unat (last_applied_index s)"
  have bound: "?a \<le> length log" using assms(2) by (simp add: at_prefix_def)
  note index = applied_position [OF assms(1) [unfolded Inr] assms(3) bound chunk]
  have kv: "kv_of V s' = snd (spec_chunk chunk (kv_of V s))" using run(2) by (simp add: kv_of_def)
  have "take (length chunk) (drop ?a log) = chunk" using chunk by (simp add: min_def)
  then have prefix: "take (?a + length chunk) log = take ?a log @ chunk" by (simp add: take_add)
  have "\<forall>e \<in> set chunk. allowed e" using assms(4) in_set_takeD in_set_dropD unfolding chunk by fast
  then have "same (X - overwritten_keys chunk) t (kv_of V s') (log_contents (take ?a log @ chunk))"
    using assms(2) same_apply unfolding kv log_contents_append by (simp add: at_prefix_def)
  moreover have "?a + length chunk \<le> length log" using bound chunk by simp
  ultimately show ?thesis using index prefix Inr by (simp add: at_prefix_def lost_after_def)
qed

lemma handed_over_at_prefix:
  assumes "persist_last_applied L (last_applied s) s = (Inr (), s1)" and "sm_new L mkdir (Some (sm_env s1)) config = Inr s'"
  shows "last_applied_index s' = last_applied_index s" and "kv_of V s' = kv_of V s"
proof -
  note facts = persist_refines [OF assms(1)] and opened = sm_new_refines(1,2) [OF assms(2)]
  have view: "env_view V (sm_env s') = env_view V (sm_env s1)" using opened(1) by simp
  then show "kv_of V s' = kv_of V s" using facts(1) by (simp add: kv_of_def)
  have "last_applied s' = stored_last_applied V (sm_env s1)"
    using opened(2) view by (simp add: stored_last_applied_def stored_u64_def)
  then show "last_applied_index s' = last_applied_index s"
    using stored_with_last_applied [OF facts(1)] by (simp add: last_applied_def)
qed

lemma decode_at_prefix:
  assumes "decode_and_reap L clock k raw n = Return (r, n')" and "0 \<le> clock"
    and "at_prefix same X t log (last_applied_index (node_sm n)) (kv_of V (node_sm n))"
    and "t \<le> t'" and "word_of_int clock \<le> t'" and "\<forall>e \<in> set log. allowed e" and "\<And>b. raw = Some b \<Longrightarrow> written log k b"
  shows "at_prefix same (lost_by_read L clock k raw (node_sm n) r X) t' log
    (last_applied_index (node_sm n')) (kv_of V (node_sm n'))"
proof -
  let ?p = "log_contents (take (unat (last_applied_index (node_sm n))) log)"
  note effect = decode_effect [OF assms(1,2)]
  have old: "same X t (kv_of V (node_sm n)) ?p" using assms(3) by (simp add: at_prefix_def)
  note later = same_later [OF old assms(4)]
  have "k \<in> ttl_keys log" if "raw = Some (encode_ttl v (Some ts))" for v ts
    using assms(7) [OF that] by (auto simp: ttl_keys_def)
  then have "same (lost_by_read L clock k raw (node_sm n) r X) t' (kv_of V (node_sm n')) ?p"
    using effect(3) [of X] later same_lose [OF later assms(6)] same_reap [OF old assms(4,5)] by fastforce
  then show ?thesis using assms(3) effect(1) by (simp add: at_prefix_def)
qed

lemma orderly_inv_later:
  assumes "orderly_inv V same c" and "horizon c \<le> t"
  shows "orderly_inv V same (c\<lparr>reading := rs, horizon := t\<rparr>)"
  unfolding orderly_inv_def
proof (intro conjI allI impI)
  show "log_indexed (log_so_far (c\<lparr>reading := rs, horizon := t\<rparr>))" using orderly_invD(1) [OF assms(1)] by simp
  show "at_prefix same (lost (c\<lparr>reading := rs, horizon := t\<rparr>) i) (horizon (c\<lparr>reading := rs, horizon := t\<rparr>))
      (log_so_far (c\<lparr>reading := rs, horizon := t\<rparr>))
      (last_applied_index (replica (c\<lparr>reading := rs, horizon := t\<rparr>) i)) (kv_of V (replica (c\<lparr>reading := rs, horizon := t\<rparr>) i))" for i
    using at_prefix_later [OF orderly_invD(2) [OF assms(1)] assms(2)] by simp
  fix meta data X
  assume "(meta, data, X) \<in> set (taken (c\<lparr>reading := rs, horizon := t\<rparr>))"
  then show "\<exists>l. last_included meta = Some l \<and> at_prefix same X (horizon (c\<lparr>reading := rs, horizon := t\<rparr>))
      (log_so_far (c\<lparr>reading := rs, horizon := t\<rparr>)) (log_index l) (env_view V data DB_KV)"
    using orderly_invD(3) [OF assms(1)] at_prefix_later [OF _ assms(2)] by fastforce
qed

lemma orderly_step_inv:
  assumes "orderly_step L config c c'" and inv: "orderly_inv V same c" and "\<forall>e \<in> set (log_so_far c). allowed e"
    and "traced V c"
  shows "orderly_inv V same c'"
  using assms(1)
proof cases
  case (committed_one e)
  then show ?thesis
    using inv at_prefix_snoc log_indexed_snoc by (fastforce simp: orderly_inv_def)
next
  case (applied i n r s)
  then show ?thesis
    using orderly_inv_become [OF inv] apply_at_prefix [OF applied(2) orderly_invD(2,1) [OF inv] assms(3)]
    by (simp add: next_chunk_def)
next
  case (handed_over i s1 mkdir s)
  then show ?thesis
    using orderly_inv_become [OF orderly_inv_reading [OF inv]] orderly_invD(2) [OF inv]
      handed_over_at_prefix [OF handed_over(2,3)] by (simp add: hang_up_def)
next
  case (fetched i k raw)
  then show ?thesis using orderly_inv_reading [OF inv] by simp
next
  case (decoded i k raw n clock r n')
  let ?t = "max (horizon c) (word_of_int clock)"
  have origin: "written (log_so_far c) k b" if "raw = Some b" for b
    using tracedD(6) [OF assms(4)] decoded(2) that by blast
  have "at_prefix same (lost c i) (horizon c) (log_so_far c) (last_applied_index (node_sm n)) (kv_of V (node_sm n))"
    using orderly_invD(2) [OF inv] decoded(3) by simp
  from decode_at_prefix [OF decoded(5,4) this _ _ assms(3) origin, of ?t]
  show ?thesis
    unfolding decoded(1) by (intro orderly_inv_become orderly_inv_later [OF inv]) (simp_all add: decoded(3))
next
  case (generated mkdir old l i digest data s)
  then show ?thesis
    using inv orderly_invD(2) [OF inv, of i] generated_kv [OF generated(2)] by (simp add: orderly_inv_def)
next
  case (installed meta data X i r s)
  obtain l where l: "last_included meta = Some l"
    "at_prefix same X (horizon c) (log_so_far c) (log_index l) (env_view V data DB_KV)"
    using orderly_invD(3) [OF inv installed(2)] by blast
  from installed_kv [OF installed(3) l(1)] l(2) orderly_invD(2) [OF inv, of i] show ?thesis
    unfolding installed(1) by (intro orderly_inv_become [OF inv]) auto
next
  case (cleared i r s)
  from reset_kv [OF cleared(2)] orderly_invD(2) [OF inv, of i] at_prefix_start show ?thesis
    unfolding cleared(1) by (intro orderly_inv_become [OF inv]) auto
qed

lemma orderly_log_grows: "orderly_step L config c c' \<Longrightarrow> set (log_so_far c) \<subseteq> set (log_so_far c')"
  by (induction rule: orderly_step.induct) auto

lemma orderly_reachable_inv:
  "orderly_reachable L config c \<Longrightarrow> \<forall>e \<in> set (log_so_far c). allowed e \<Longrightarrow> orderly_inv V same c"
proof (induction rule: orderly_reachable.induct)
  case (begun fresh)
  have "last_applied_index (fresh i) = 0 \<and> kv_of V (fresh i) = Map.empty" for i
    using begun(1) fresh_replica(1,3) by metis
  then show ?case using at_prefix_start by (simp add: orderly_inv_def log_indexed_def)
next
  case (went_on c c')
  then show ?case
    using orderly_step_inv orderly_log_grows reachable_traced [OF orderly_is_cluster [OF went_on(1)]] by blast
qed

lemma orderly_logical:
  assumes "orderly_reachable L config c" and "\<forall>e \<in> set (log_so_far c). allowed e" and "horizon c \<le> now"
  shows "logical now (kv_of V (replica c i)) =
    logical now (log_contents (take (unat (last_applied_index (replica c i))) (log_so_far c))) |` (- lost c i)"
  using orderly_invD(2) [OF orderly_reachable_inv [OF assms(1,2)], of i] same_reads [OF _ assms(3)]
  by (simp add: at_prefix_def)

end

interpretation plain_mem: orderly_cluster mem_api mem_view equal_plain stores_plain
  by (intro orderly_cluster.intro mem.lmdb_axioms plain_log.agreement_axioms)

interpretation swap_free_mem: orderly_cluster mem_api mem_view look_alike no_swap
  by (intro orderly_cluster.intro mem.lmdb_axioms swap_free_log.agreement_axioms)

text \<open>The two kinds of log together.\<close>

lemma orderly_prefix:
  assumes "lmdb L V" and "orderly_reachable L config c"
    and "cas_free (log_so_far c) \<or> (\<forall>e \<in> set (log_so_far c). stores_plain e)" and "horizon c \<le> now"
  shows "logical now (kv_of V (replica c i)) =
    logical now (log_contents (take (unat (last_applied_index (replica c i))) (log_so_far c))) |` (- lost c i)"
  using assms(3)
proof
  assume "cas_free (log_so_far c)"
  then have "\<forall>e \<in> set (log_so_far c). no_swap e" by (simp add: cas_free_def no_swap_def)
  with orderly_cluster.intro [OF assms(1) swap_free_log.agreement_axioms] show ?thesis
    using orderly_cluster.orderly_logical assms(2,4) by blast
next
  assume "\<forall>e \<in> set (log_so_far c). stores_plain e"
  with orderly_cluster.intro [OF assms(1) plain_log.agreement_axioms] show ?thesis
    using orderly_cluster.orderly_logical assms(2,4) by blast
qed

lemma scan_all_revision:
  "node_scan_all L now limit n = Inr r \<Longrightarrow> scan_revision r = last_applied_index (node_sm n)"
  by (auto simp: node_scan_all_def scan_all_def scan_range_core_def and_then_eq_Inr map_err_eq_Inr)


section \<open>A label behind the contents\<close>

text \<open>\<open>generate_snapshot_data\<close> copies whatever is applied when it gets to it and labels it with the position
  it was given. When that position is behind the contents, and the log has compare-and-swap, then a node
  that installs the snapshot and applies the rest of the log ends in other contents than the rest of the
  cluster, without any crash. This is why the steps above ask for the exact label.\<close>

context lmdb_live
begin

lemma snapshot_behind_diverges:
  assumes "admissible_key L k" and "a \<noteq> b" and "a \<noteq> z" and "b \<noteq> z"
  shows "\<exists>c. cluster_reachable L config c \<and>
    map entry_command (log_so_far c) = [Insert k z None, CompareAndSwap k (Some a) b, CompareAndSwap k (Some z) a] \<and>
    last_applied_index (replica c 0) = 3 \<and> last_applied_index (replica c 1) = 3 \<and>
    kv_of V (replica c 0) = [k \<mapsto> a] \<and> kv_of V (replica c 1) = [k \<mapsto> b]"
proof -
  define log where "log = [demo_entry 1 (Insert k z None), demo_entry 2 (CompareAndSwap k (Some a) b),
    demo_entry 3 (CompareAndSwap k (Some z) a)]"
  note entries = log_def demo_entry_def
  have admitted: "chunk_admissible L (take n (drop i log))" for n i
    using assms(1) in_set_takeD in_set_dropD by (fastforce simp: chunk_admissible_def entries)
  obtain s0 where s0: "sm_new L (Inr ()) None config = Inr s0" "kv_of V s0 = Map.empty" "last_applied_index s0 = 0"
    using fresh_state by blast
  define c0 where "c0 = idle_cluster log (\<lambda>_. s0)"
  have "cluster_reachable L config (idle_cluster [] (\<lambda>_. s0))"
    by (rule cluster_reachable.start) (use s0 in blast)
  from commit_next [OF commit_next [OF commit_next [OF this, of "log ! 0"], of "log ! 1"], of "log ! 2"]
  have reach0: "cluster_reachable L config c0" by (simp add: c0_def entries)
  have "next_chunk c0 0 3 = take 3 (drop 0 log)" by (simp add: next_chunk_def c0_def s0)
  then obtain rs s1 where run: "apply_chunk L (next_chunk c0 0 3) (replica c0 0) = (Inr rs, s1)"
    using apply_chunk_live admitted by metis
  have reach1: "cluster_reachable L config (become 0 s1 {} c0)"
    using cluster_reachable.step [OF reach0 cluster_step.chunk_applied [OF run]] by (simp add: lost_after_def c0_def)
  have "kv_of V s1 = snd (spec_chunk log (kv_of V s0))"
    using apply_chunk_refines(2) [OF run] by (simp add: kv_of_def c0_def next_chunk_def s0(3) log_def)
  then have s1: "kv_of V s1 = [k \<mapsto> a]" using assms(2,3) by (simp add: s0(2) entries)
  have i1: "last_applied_index s1 = 3"
    using apply_chunk_refines(4) [OF run]
    by (simp add: last_applied_def entry_id_def next_chunk_def c0_def s0(3) entries)
  have "env_wf L V (sm_env s1)"
    using sm_reachable.applied [OF sm_reachable.opened [OF s0(1)]] run reachable_env_wf by (auto simp: c0_def)
  then obtain digest data s1' s2 where
    taken: "generate_snapshot_data L (Inr ()) None \<lparr>log_index = 1, log_term = 1\<rparr> s1 = (Inr (digest, data), s1')"
    and put: "apply_snapshot_from_file L \<lparr>last_included = Some \<lparr>log_index = 1, log_term = 1\<rparr>, checksum = digest\<rparr>
      (Some data) s0 = (Inr (), s2)"
    and s2: "kv_of V s1' = [k \<mapsto> a]" "kv_of V s2 = [k \<mapsto> a]" "last_applied s2 = \<lparr>log_index = 1, log_term = 1\<rparr>"
    using snapshot_transferred [OF lmdb_live_axioms, of s1 None _ s0] s1 by metis
  have i1': "last_applied_index s1' = 3"
    using taken i1 by (auto simp: generate_snapshot_data_def Let_def persist_last_snapshot_metadata_def
        update_last_snapshot_metadata_def split: sum.splits)
  define c2 where "c2 = become 0 s1' {} ((become 0 s1 {} c0)
    \<lparr>taken := [(\<lparr>last_included = Some \<lparr>log_index = 1, log_term = 1\<rparr>, checksum = digest\<rparr>, data, {})]\<rparr>)"
  have "cluster_reachable L config c2"
    using cluster_reachable.step [OF reach1 cluster_step.snapshot_taken [of L "Inr ()" None _ _ 0]] taken i1
    by (simp add: c2_def c0_def)
  then have reach3: "cluster_reachable L config (become 1 s2 {} c2)"
    using cluster_reachable.step [OF _ cluster_step.snapshot_installed [where c = c2 and i = 1 and r = "Inr ()"]] put
    by (fastforce simp: c2_def c0_def)
  have rest: "next_chunk (become 1 s2 {} c2) 1 2 = take 2 (drop 1 log)"
    using s2(3) by (simp add: next_chunk_def c2_def c0_def last_applied_def)
  obtain s3 where reach4: "cluster_reachable L config (become 1 s3 {} (become 1 s2 {} c2))"
    and s3: "kv_of V s3 = [k \<mapsto> b]" "last_applied_index s3 = 3"
    using apply_next [OF reach3, of 1 2] admitted [of 2 1] s2(2) assms(2-4)
    unfolding rest by (auto simp: entries last_applied_def entry_id_def)
  then show ?thesis
    using s2(1) i1' by (intro exI [of _ "become 1 s3 {} (become 1 s2 {} c2)"]) (simp add: c2_def c0_def entries)
qed

end


section \<open>A read that loses a write\<close>

text \<open>The exception is real, with no crash and no snapshot: of a TTL value and a plain one, written one
  after the other, the read that fetched the first removes the second.\<close>

context lmdb_live
begin

lemma orderly_apply:
  assumes "orderly_reachable L config c" and "chunk_admissible L (next_chunk c i n)"
  shows "\<exists>s. orderly_reachable L config (become i s (lost c i - overwritten_keys (next_chunk c i n)) c) \<and>
    kv_of V s = snd (spec_chunk (next_chunk c i n) (kv_of V (replica c i))) \<and>
    (next_chunk c i n \<noteq> [] \<longrightarrow> last_applied s = entry_id (last (next_chunk c i n)))"
proof -
  obtain rs s where run: "apply_chunk L (next_chunk c i n) (replica c i) = (Inr rs, s)"
    using apply_chunk_live [OF assms(2)] by blast
  have "orderly_reachable L config (become i s (lost c i - overwritten_keys (next_chunk c i n)) c)"
    using went_on [OF assms(1) orderly_step.applied [OF run]] by (simp add: lost_after_def)
  then show ?thesis using apply_chunk_refines(2,4) [OF run] by (auto simp: kv_of_def [of V s])
qed

lemma read_loses_write:
  assumes "admissible_key L k" and "0 \<le> clock" and "ts \<le> word_of_int clock"
  shows "\<exists>c. orderly_reachable L config c \<and>
    map entry_command (log_so_far c) = [Insert k (encode_ttl w (Some ts)) None, Insert k (encode_raw v) None] \<and>
    last_applied_index (replica c i) = 2 \<and> lost c i = {k} \<and> kv_of V (replica c i) k = None"
proof -
  let ?b = "encode_ttl w (Some ts)"
  define e1 e2 where "e1 = demo_entry 1 (Insert k ?b None)" and "e2 = demo_entry 2 (Insert k (encode_raw v) None)"
  note entries = e1_def e2_def demo_entry_def
  obtain s0 where s0: "sm_new L (Inr ()) None config = Inr s0" "kv_of V s0 = Map.empty" "last_applied_index s0 = 0"
    using fresh_state by blast
  define c0 where "c0 = idle_cluster [e1, e2] (\<lambda>_. s0)"
  have "orderly_reachable L config (idle_cluster [] (\<lambda>_. s0))" by (rule begun) (use s0(1) in blast)
  from went_on [OF went_on [OF this committed_one [of _ e1]] committed_one [of _ e2]]
  have reach0: "orderly_reachable L config c0" by (simp add: c0_def entries)
  have admitted: "chunk_admissible L [e1]" "chunk_admissible L [e2]"
    using assms(1) by (simp_all add: chunk_admissible_def entries)
  have "next_chunk c0 i 1 = [e1]" by (simp add: next_chunk_def c0_def s0)
  then obtain s1 where reach1: "orderly_reachable L config (become i s1 {} c0)"
    and s1: "kv_of V s1 = [k \<mapsto> ?b]" "last_applied_index s1 = 1"
    using orderly_apply [OF reach0, of i 1] admitted(1)
    by (auto simp: c0_def s0(2) entries last_applied_def entry_id_def)
  define c1 where "c1 = (become i s1 {} c0)\<lparr>reading := [(i, k, Some ?b)]\<rparr>"
  have "sm_get L (replica (become i s1 {} c0) i) k = Inr (Some ?b)" using sm_get_live [OF assms(1), of s1] s1(1) by simp
  from went_on [OF reach1 fetched [OF this]] have reach2: "orderly_reachable L config c1" by (simp add: c1_def c0_def)
  have "next_chunk c1 i 1 = [e2]" by (simp add: next_chunk_def c1_def c0_def s1)
  then obtain s2 where reach3: "orderly_reachable L config (become i s2 {} c1)"
    and s2: "kv_of V s2 = [k \<mapsto> encode_raw v]" "last_applied_index s2 = 2"
    using orderly_apply [OF reach2, of i 1] admitted(2)
    by (auto simp: c1_def s1(1) entries last_applied_def entry_id_def)
  let ?n = "\<lparr>inner = (), node_sm = s2, data_dir_lock = [], node_max_key = 0, node_max_value = 0\<rparr>"
  obtain s3 where s3: "delete_local L k s2 = (Inr (), s3)" using delete_local_live [OF assms(1)] by blast
  have run: "decode_and_reap L clock k (Some ?b) ?n = Return (Inr None, ?n\<lparr>node_sm := s3\<rparr>)"
    using s3 assms(3) by (simp add: decode_and_reap_def unix_now_ok [OF assms(2)] decode_live_value_def)
  have "overtakes L clock k (Some ?b) s2"
    using sm_get_live [OF assms(1), of s2] s2(1) assms(3) by (simp add: overtakes_def decode_live_value_def)
  then have lost: "lost_by_read L clock k (Some ?b) s2 (Inr None :: error + bytes option) {} = {k}"
    by (simp add: lost_by_read_def)
  let ?c3 = "become i s2 {} c1"
  have "orderly_step L config ?c3 (become i s3 {k} (?c3\<lparr>reading := [], horizon := max (horizon ?c3) (word_of_int clock)\<rparr>))"
    using decoded [of i k "Some ?b" ?c3 ?n clock L "Inr None" "?n\<lparr>node_sm := s3\<rparr>" config] assms(2) run lost
    by (simp add: c1_def)
  from went_on [OF reach3 this]
  have "orderly_reachable L config (become i s3 {k} (?c3\<lparr>reading := [], horizon := max (horizon ?c3) (word_of_int clock)\<rparr>))" .
  moreover have "kv_of V s3 k = None" "last_applied_index s3 = 2"
    using delete_local_refines(1) [OF s3] arg_cong [OF delete_local_refines(3) [OF s3], of last_applied_index] s2(2)
    by (simp_all add: kv_of_def)
  ultimately show ?thesis
    by (intro exI [of _ "become i s3 {k} (?c3\<lparr>reading := [], horizon := max (horizon ?c3) (word_of_int clock)\<rparr>)"])
      (simp add: c1_def c0_def entries)
qed

end


section \<open>Property\<close>

text \<open>C6. Eventual reads see a prefix of the log. In every orderly run, with a log that has no compare-and-swap or
  no TTL values, and at any clock not before that of the latest finished read: a node that has applied up to some position answers every point read and every
  full scan as a single machine that applied exactly the entries up to there, never a later value beside an
  earlier one, except that it finds nothing at the keys whose live value a read has removed after it had fetched an expired one
  and that were not written since. Such keys have a TTL value in the log, so a log without TTL values has none.
  The scan reports the position as its revision.\<close>

theorem eventual_reads_prefix:
  fixes n :: "('g, 'e) node"
  assumes "lmdb_live L V" and "orderly_reachable L config c"
    and "cas_free (log_so_far c) \<or> (\<forall>e \<in> set (log_so_far c). stores_plain e)"
    and "node_sm n = replica c i" and "0 \<le> clock" and "horizon c \<le> word_of_int clock"
    and "p = logical (word_of_int clock)
      (log_contents (take (unat (last_applied_index (replica c i))) (log_so_far c))) |` (- lost c i)"
  shows "(\<forall>k v n'. node_get L clock k n = Return (Inr v, n') \<longrightarrow> v = p k) \<and>
    (card (dom (node_kv V n)) \<le> usize_max \<longrightarrow>
      (\<exists>r. node_scan_all L (word_of_int clock) None n = Inr r \<and>
        scan_revision r = last_applied_index (replica c i) \<and> sorted_keys (scan_entries r) \<and>
        (\<forall>k v. (k, v) \<in> set (scan_entries r) \<longleftrightarrow> p k = Some v))) \<and>
    (\<forall>k \<in> lost c i. \<exists>v ts. written (log_so_far c) k (encode_ttl v (Some ts)))"
proof -
  note lmdb = lmdb_live.axioms(1) [OF assms(1)]
  have prefix: "logical (word_of_int clock) (node_kv V n) = p"
    using orderly_prefix [OF lmdb assms(2,3,6), of i] assms(4) by (simp add: node_kv_def assms(7))
  have "v = p k" if "node_get L clock k n = Return (Inr v, n')" for k v n'
    using lmdb.fetch_local_sound(1) [OF lmdb _ assms(5)] that prefix by (auto simp: node_get_def)
  moreover have "\<exists>r. node_scan_all L (word_of_int clock) None n = Inr r \<and>
        scan_revision r = last_applied_index (replica c i) \<and> sorted_keys (scan_entries r) \<and>
        (\<forall>k v. (k, v) \<in> set (scan_entries r) \<longleftrightarrow> p k = Some v)" if "card (dom (node_kv V n)) \<le> usize_max"
    using scan_agrees_with_get [OF assms(1) that, of "word_of_int clock"] scan_all_revision assms(4)
    unfolding prefix by metis
  moreover have "lost c i \<subseteq> ttl_keys (log_so_far c)"
    using tracedD(2) [OF lmdb.reachable_traced [OF lmdb orderly_is_cluster [OF assms(2)]]] .
  ultimately show ?thesis unfolding ttl_keys_def by blast
qed

text \<open>A node that has applied the first of two entries, a compare-and-swap.\<close>

definition swap_then_put :: "apply_entry list" where
  "swap_then_put =
    [demo_entry 1 (CompareAndSwap [7] None (encode_raw [1])), demo_entry 2 (Insert [7] (encode_raw [2]) None)]"

lemma swap_then_put_run:
  "\<exists>c. orderly_reachable mem_api demo_config c \<and> log_so_far c = swap_then_put \<and> horizon c = 0 \<and>
    last_applied_index (replica c 0) = 1 \<and> lost c 0 = {}"
proof -
  obtain s where s: "sm_new mem_api (Inr ()) None demo_config = Inr s" "last_applied_index s = 0"
    using mem.fresh_state by blast
  let ?c = "\<lambda>log. idle_cluster log (\<lambda>_. s)"
  have "orderly_reachable mem_api demo_config (?c [])" by (rule orderly_reachable.begun) (use s in blast)
  from went_on [OF went_on [OF this committed_one [of _ "swap_then_put ! 0"]] committed_one [of _ "swap_then_put ! 1"]]
  have reach: "orderly_reachable mem_api demo_config (?c swap_then_put)"
    by (simp add: swap_then_put_def demo_entry_def)
  have chunk: "next_chunk (?c swap_then_put) 0 1 = [swap_then_put ! 0]" by (simp add: next_chunk_def s swap_then_put_def)
  have "chunk_admissible mem_api [swap_then_put ! 0]"
    by (simp add: chunk_admissible_def swap_then_put_def demo_entry_def)
  then obtain rs s1 where run: "apply_chunk mem_api (next_chunk (?c swap_then_put) 0 1) s = (Inr rs, s1)"
    unfolding chunk using mem.apply_chunk_live by blast
  from went_on [OF reach applied [of mem_api "?c swap_then_put" 0 1, unfolded cluster.simps, OF this]]
  have "orderly_reachable mem_api demo_config (become 0 s1 {} (?c swap_then_put))" by (simp add: lost_after_def)
  moreover have "last_applied_index s1 = 1"
    using mem.apply_chunk_refines(4) [OF run [unfolded chunk]]
    by (simp add: last_applied_def entry_id_def swap_then_put_def demo_entry_def)
  ultimately show ?thesis
    by (intro exI [of _ "become 0 s1 {} (?c swap_then_put)"]) simp
qed

theorem eventual_reads_prefix_witness:
  "\<exists>c r. orderly_reachable mem_api demo_config c \<and> log_so_far c = swap_then_put \<and>
    node_scan_all mem_api 5 None \<lparr>inner = (), node_sm = replica c 0, data_dir_lock = [], node_max_key = 9, node_max_value = 9\<rparr> = Inr r \<and>
    scan_revision r = 1 \<and> ([7], [1]) \<in> set (scan_entries r)"
proof -
  obtain c where c: "orderly_reachable mem_api demo_config c" "log_so_far c = swap_then_put" "horizon c = 0"
    "last_applied_index (replica c 0) = 1" "lost c 0 = {}"
    using swap_then_put_run by blast
  let ?n = "\<lparr>inner = (), node_sm = replica c 0, data_dir_lock = [], node_max_key = 9, node_max_value = 9\<rparr>"
  have plain: "\<forall>e \<in> set (log_so_far c). stores_plain e"
    by (auto simp: c(2) swap_then_put_def demo_entry_def stores_plain_def is_plain_def)
  let ?p = "logical 5 (log_contents (take 1 swap_then_put)) |` (- {})"
  have p: "?p [7] = Some [1]"
    by (simp add: swap_then_put_def log_contents_def demo_entry_def logical_def)
  have "kv_of mem_view (replica c 0) = log_contents (take 1 swap_then_put)"
    using plain_mem.orderly_reachable_inv [OF c(1) plain] c
    by (auto simp: orderly_inv_def at_prefix_def equal_plain_def dest: spec [of _ 0])
  then have "dom (node_kv mem_view ?n) = {[7]}"
    by (simp add: node_kv_def swap_then_put_def log_contents_def demo_entry_def)
  then have "card (dom (node_kv mem_view ?n)) \<le> usize_max" by (simp add: usize_max_def)
  then show ?thesis
    using eventual_reads_prefix [OF mem.lmdb_live_axioms c(1), where n = ?n and i = 0 and clock = 5 and p = ?p] c plain p
    by simp metis
qed

end
