(* ===== verification/Http.thy ===== *)
theory Http
  imports Node
begin

text \<open>
  The HTTP server \<open>d-lmdb-server\<close>: the mapping of errors to responses (\<open>http/error.rs\<close>), the
  \<open>/kv\<close> handlers (\<open>http/kv.rs\<close>), the health endpoints (\<open>http/health.rs\<close>), the layers around them
  (\<open>http/mod.rs\<close>) and the two commands of \<open>main.rs\<close>. axum, tower, toml and clap are third-party
  code: what they hand to the program (the decoded path segment, the query, the body) is an input.
  A key is the UTF-8 bytes of its path segment.
\<close>


section \<open>Responses\<close>

record leader_hint_dto =
  dto_leader_id :: u32
  dto_address :: string

record error_body =
  eb_error :: string
  eb_leader_hint :: "leader_hint_dto option"
  eb_trace_id :: "string option"

record http_error =
  he_status :: nat
  he_body :: error_body
  he_retry_after_secs :: "u64 option"

text \<open>\<open>'l\<close> is the engine's \<open>LeaderInfo\<close>, which the server only passes on.\<close>

record 'l status_response =
  st_leader :: "'l option"
  st_members :: "u32 list"
  st_learners :: "u32 list"
  st_committed_index :: u64

datatype 'l response_body =
    ErrorJson error_body
  | StatusJson "'l status_response"
  | BytesBody bytes
  | TextBody string
  | EmptyBody

text \<open>\<open>rsp_content_type\<close> is \<open>None\<close> when the header is absent or not text.\<close>

record 'l response =
  rsp_status :: nat
  rsp_content_type :: "string option"
  rsp_retry_after :: "u64 option"
  rsp_body :: "'l response_body"

definition BAD_REQUEST :: nat where "BAD_REQUEST = 400"
definition NOT_FOUND :: nat where "NOT_FOUND = 404"
definition INTERNAL_SERVER_ERROR :: nat where "INTERNAL_SERVER_ERROR = 500"
definition SERVICE_UNAVAILABLE :: nat where "SERVICE_UNAVAILABLE = 503"
definition STATUS_OK :: nat where "STATUS_OK = 200"
definition NO_CONTENT :: nat where "NO_CONTENT = 204"

lemmas status_defs = BAD_REQUEST_def NOT_FOUND_def INTERNAL_SERVER_ERROR_def
  SERVICE_UNAVAILABLE_def STATUS_OK_def NO_CONTENT_def


section \<open>Mapping errors\<close>

text \<open>\<open>rsplit_once(':')\<close>: the parts before and after the last colon.\<close>

fun rsplit_once :: "char \<Rightarrow> string \<Rightarrow> (string \<times> string) option" where
  "rsplit_once c [] = None"
| "rsplit_once c (x # xs) =
    (case rsplit_once c xs of
       Some (h, p) \<Rightarrow> Some (x # h, p)
     | None \<Rightarrow> if x = c then Some ([], xs) else None)"

definition replace_port :: "string \<Rightarrow> u16 \<Rightarrow> string" where
  "replace_port address port =
    (case rsplit_once (CHR '':'') address of None \<Rightarrow> address | Some (h, _) \<Rightarrow> h) @ '':'' @ show_nat (unat port)"

text \<open>\<open>LOCAL_HTTP_PORT\<close> is set at most once; \<open>OnceLock::set\<close> keeps the first value.\<close>

definition set_local_http_port :: "u16 \<Rightarrow> u16 option \<Rightarrow> u16 option" where
  "set_local_http_port port cell = (case cell of None \<Rightarrow> Some port | Some p \<Rightarrow> Some p)"

definition rewrite_to_http_address :: "u16 option \<Rightarrow> string \<Rightarrow> string" where
  "rewrite_to_http_address local_port raft_address =
    (case local_port of Some port \<Rightarrow> replace_port raft_address port | None \<Rightarrow> raft_address)"

definition plain :: "nat \<Rightarrow> string \<Rightarrow> http_error" where
  "plain status message =
    \<lparr>he_status = status,
     he_body = \<lparr>eb_error = message, eb_leader_hint = None, eb_trace_id = None\<rparr>,
     he_retry_after_secs = None\<rparr>"

definition not_found :: http_error where
  "not_found = plain NOT_FOUND ''key not found''"

fun internal_error_category :: "error \<Rightarrow> string" where
  "internal_error_category (Lmdb _) = ''storage error''"
| "internal_error_category (Storage _) = ''storage error''"
| "internal_error_category (Io _) = ''storage error''"
| "internal_error_category (EngineErr _) = ''cluster error''"
| "internal_error_category (Client (Business Uncategorized _ _)) = ''cluster error''"
| "internal_error_category (ConfigError _) = ''configuration error''"
| "internal_error_category (Path _) = ''configuration error''"
| "internal_error_category _ = ''internal error''"

definition div_ceil :: "u64 \<Rightarrow> u64 \<Rightarrow> u64" where
  "div_ceil a b = (let d = a div b; r = a mod b in if 0 < r then d + 1 else d)"

definition retry_after_ms_to_secs :: "u64 option \<Rightarrow> u64 option" where
  "retry_after_ms_to_secs ms =
    (case ms of None \<Rightarrow> None | Some m \<Rightarrow> if m = 0 then None else Some (div_ceil m 1000))"

text \<open>\<open>From<Error>\<close>: \<open>trace_id\<close> is the fresh UUID drawn for an unhandled error.\<close>

fun http_error_of :: "foreign_display \<Rightarrow> u16 option \<Rightarrow> string \<Rightarrow> error \<Rightarrow> http_error" where
  "http_error_of D port trace_id (KeyTooLarge n) =
     plain BAD_REQUEST (error_to_string D (KeyTooLarge n))"
| "http_error_of D port trace_id (ValueTooLarge n) =
     plain BAD_REQUEST (error_to_string D (ValueTooLarge n))"
| "http_error_of D port trace_id (Client (Business InvalidRequest message _)) =
     plain BAD_REQUEST message"
| "http_error_of D port trace_id (Client (Network NotLeader message retry_after_ms hint)) =
     \<lparr>he_status = SERVICE_UNAVAILABLE,
      he_body =
        \<lparr>eb_error = message,
         eb_leader_hint = map_option (\<lambda>h.
           \<lparr>dto_leader_id = hint_leader_id h,
            dto_address = rewrite_to_http_address port (hint_address h)\<rparr>) hint,
         eb_trace_id = None\<rparr>,
      he_retry_after_secs = retry_after_ms_to_secs retry_after_ms\<rparr>"
| "http_error_of D port trace_id (Client (Business ClusterUnavailable message _)) =
     plain SERVICE_UNAVAILABLE message"
| "http_error_of D port trace_id (Client (Business ProposeFailed message _)) =
     plain SERVICE_UNAVAILABLE message"
| "http_error_of D port trace_id (Client (Business RetryRequired message _)) =
     plain SERVICE_UNAVAILABLE message"
| "http_error_of D port trace_id (Client (Business TermOutdated message _)) =
     plain SERVICE_UNAVAILABLE message"
| "http_error_of D port trace_id err =
     \<lparr>he_status = INTERNAL_SERVER_ERROR,
      he_body =
        \<lparr>eb_error = internal_error_category err, eb_leader_hint = None, eb_trace_id = Some trace_id\<rparr>,
      he_retry_after_secs = None\<rparr>"

definition json_type :: string where
  "json_type = ''application/json''"

definition error_response :: "http_error \<Rightarrow> 'l response" where
  "error_response e =
    \<lparr>rsp_status = he_status e, rsp_content_type = Some json_type,
     rsp_retry_after = he_retry_after_secs e, rsp_body = ErrorJson (he_body e)\<rparr>"

text \<open>
  The outermost layer. \<open>read_text\<close> collects the body and decodes it lossily; it may fail.
\<close>

definition is_error_status :: "nat \<Rightarrow> bool" where
  "is_error_status s \<longleftrightarrow> 400 \<le> s \<and> s < 600"

definition normalize_error_body :: "('l response_body \<Rightarrow> string option) \<Rightarrow> 'l response \<Rightarrow> 'l response" where
  "normalize_error_body read_text r =
    (if \<not> is_error_status (rsp_status r) then r
     else if (case rsp_content_type r of None \<Rightarrow> False | Some c \<Rightarrow> prefix json_type c) then r
     else
       (let message = (case read_text (rsp_body r) of Some s \<Rightarrow> s | None \<Rightarrow> ''internal error'')
        in \<lparr>rsp_status = rsp_status r, rsp_content_type = Some json_type, rsp_retry_after = None,
            rsp_body = ErrorJson \<lparr>eb_error = message, eb_leader_hint = None, eb_trace_id = None\<rparr>\<rparr>))"


section \<open>The \<open>/kv\<close> handlers\<close>

text \<open>A rejection is a status and a message; as a response it is plain text.\<close>

definition rejection :: "nat \<Rightarrow> string \<Rightarrow> 'l response" where
  "rejection status message =
    \<lparr>rsp_status = status, rsp_content_type = Some ''text/plain; charset=utf-8'',
     rsp_retry_after = None, rsp_body = TextBody message\<rparr>"

definition status_only :: "nat \<Rightarrow> 'l response" where
  "status_only status =
    \<lparr>rsp_status = status, rsp_content_type = None, rsp_retry_after = None, rsp_body = EmptyBody\<rparr>"

definition bytes_response :: "bytes \<Rightarrow> 'l response" where
  "bytes_response b =
    \<lparr>rsp_status = STATUS_OK, rsp_content_type = Some ''application/octet-stream'',
     rsp_retry_after = None, rsp_body = BytesBody b\<rparr>"

text \<open>\<open>segment\<close> is what \<open>Path<String>\<close> made of the path: \<open>None\<close> when it is not UTF-8.\<close>

definition valid_key :: "bytes option \<Rightarrow> (nat \<times> string) + bytes" where
  "valid_key segment =
    (case segment of
       None \<Rightarrow> Inl (BAD_REQUEST, ''invalid key encoding'')
     | Some key \<Rightarrow>
         if key = [] then Inl (BAD_REQUEST, ''key must not be empty'')
         else if of_char (CHR ''/'') \<in> set key
         then Inl (BAD_REQUEST, ''key must not contain '' @ [CHR 0x27, CHR ''/'', CHR 0x27])
         else Inr key)"

datatype consistency_level = Eventual | Linearizable | Lease

text \<open>The \<open>level\<close> parameter of the query; \<open>None\<close> is a value the query parser rejects.\<close>

definition parse_level :: "string option \<Rightarrow> consistency_level option" where
  "parse_level level =
    (case level of
       None \<Rightarrow> Some Eventual
     | Some s \<Rightarrow>
         if s = ''eventual'' then Some Eventual
         else if s = ''linearizable'' then Some Linearizable
         else if s = ''lease'' then Some Lease
         else None)"

text \<open>What a request's surroundings provide: error printing, the port cell, a fresh trace id, the
  clock, the text of a query rejection, and axum's default limit on extracted bodies (2 MB) with
  the text of its rejection.\<close>

record context_data =
  cx_display :: foreign_display
  cx_port :: "u16 option"
  cx_trace_id :: string
  cx_clock :: int
  cx_query_rejection :: string
  cx_body_limit :: nat
  cx_body_rejection :: string

definition PAYLOAD_TOO_LARGE :: nat where "PAYLOAD_TOO_LARGE = 413"

definition failed :: "context_data \<Rightarrow> error \<Rightarrow> 'l response" where
  "failed X e = error_response (http_error_of (cx_display X) (cx_port X) (cx_trace_id X) e)"

definition read_at ::
  "('e, 't) lmdb_api \<Rightarrow> ('g, 'e) client_api \<Rightarrow> consistency_level \<Rightarrow> int \<Rightarrow> bytes \<Rightarrow> ('g, 'e) node \<Rightarrow>
   ((error + bytes option) \<times> ('g, 'e) node) exec" where
  "read_at L A level clock key n =
    (case level of
       Eventual \<Rightarrow> node_get L clock key n
     | Linearizable \<Rightarrow> node_get_linearizable L A clock key n
     | Lease \<Rightarrow> node_get_lease L A clock key n)"

definition get_handler ::
  "('e, 't) lmdb_api \<Rightarrow> ('g, 'e) client_api \<Rightarrow> context_data \<Rightarrow> bytes option \<Rightarrow> string option \<Rightarrow>
   ('g, 'e) node \<Rightarrow> ('l response \<times> ('g, 'e) node) exec" where
  "get_handler L A X segment level n =
    (case valid_key segment of
       Inl (status, message) \<Rightarrow> Return (rejection status message, n)
     | Inr key \<Rightarrow>
         (case parse_level level of
            None \<Rightarrow> Return (rejection BAD_REQUEST (cx_query_rejection X), n)
          | Some lvl \<Rightarrow>
              exec_bind (read_at L A lvl (cx_clock X) key n) (\<lambda>(r, n').
              Return
                ((case r of
                    Inl e \<Rightarrow> failed X e
                  | Inr (Some b) \<Rightarrow> bytes_response b
                  | Inr None \<Rightarrow> error_response not_found), n'))))"

text \<open>The extractors run in the order of the parameters: the key, then the body, which \<open>Bytes\<close> refuses
  above axum's limit.\<close>

definition put_handler ::
  "('g, 'e) client_api \<Rightarrow> context_data \<Rightarrow> bytes option \<Rightarrow> bytes \<Rightarrow> ('g, 'e) node \<Rightarrow>
   'l response \<times> ('g, 'e) node" where
  "put_handler A X segment body n =
    (case valid_key segment of
       Inl (status, message) \<Rightarrow> (rejection status message, n)
     | Inr key \<Rightarrow>
         if cx_body_limit X < length body then (rejection PAYLOAD_TOO_LARGE (cx_body_rejection X), n)
         else
           (case node_put A key body n of
              (Inl e, n') \<Rightarrow> (failed X e, n')
            | (Inr _, n') \<Rightarrow> (status_only NO_CONTENT, n')))"

definition delete_handler ::
  "('g, 'e) client_api \<Rightarrow> context_data \<Rightarrow> bytes option \<Rightarrow> ('g, 'e) node \<Rightarrow> 'l response \<times> ('g, 'e) node"
where
  "delete_handler A X segment n =
    (case valid_key segment of
       Inl (status, message) \<Rightarrow> (rejection status message, n)
     | Inr key \<Rightarrow>
         (case node_delete A key n of
            (Inl e, n') \<Rightarrow> (failed X e, n')
          | (Inr _, n') \<Rightarrow> (status_only NO_CONTENT, n')))"


section \<open>Health endpoints, layers and commands\<close>

definition primary_handler :: "('g, 'e, 'l) engine_api \<Rightarrow> ('g, 'e) node \<Rightarrow> 'l response" where
  "primary_handler E n = status_only (if node_is_leader E n then STATUS_OK else SERVICE_UNAVAILABLE)"

definition replica_handler :: "('g, 'e, 'l) engine_api \<Rightarrow> ('g, 'e) node \<Rightarrow> 'l response" where
  "replica_handler E n = status_only (if node_is_leader E n then SERVICE_UNAVAILABLE else STATUS_OK)"

definition status_handler :: "('g, 'e, 'l) engine_api \<Rightarrow> ('g, 'e) node \<Rightarrow> 'l response" where
  "status_handler E n =
    (let m = node_cluster_info E n
     in \<lparr>rsp_status = STATUS_OK, rsp_content_type = Some json_type, rsp_retry_after = None,
         rsp_body = StatusJson
           \<lparr>st_leader = node_leader E n, st_members = mb_members m, st_learners = mb_learners m,
            st_committed_index = mb_committed_index m\<rparr>\<rparr>)"

definition BODY_LIMIT_OVERHEAD_BYTES :: nat where
  "BODY_LIMIT_OVERHEAD_BYTES = 1024"

text \<open>The limit on bodies, a sum of two \<open>usize\<close>; where it wraps, a build with overflow checks panics
  in \<open>serve\<close> instead.\<close>

definition body_limit :: "('g, 'e) node \<Rightarrow> nat" where
  "body_limit n = (max_value_bytes_of n + BODY_LIMIT_OVERHEAD_BYTES) mod 2 ^ 64"

text \<open>
  Requests through the layers: a body above the limit is refused with status 413 by tower's
  \<open>RequestBodyLimitLayer\<close>, and every response passes \<open>normalize_error_body\<close>.
\<close>

definition serve_put ::
  "('g, 'e) client_api \<Rightarrow> context_data \<Rightarrow> ('l response_body \<Rightarrow> string option) \<Rightarrow> bytes option \<Rightarrow> bytes \<Rightarrow>
   ('g, 'e) node \<Rightarrow> 'l response \<times> ('g, 'e) node" where
  "serve_put A X read_text segment body n =
    (case (if body_limit n < length body then (rejection 413 ''length limit exceeded'', n)
           else put_handler A X segment body n)
     of (r, n') \<Rightarrow> (normalize_error_body read_text r, n'))"

definition serve_get ::
  "('e, 't) lmdb_api \<Rightarrow> ('g, 'e) client_api \<Rightarrow> context_data \<Rightarrow> ('l response_body \<Rightarrow> string option) \<Rightarrow>
   bytes option \<Rightarrow> string option \<Rightarrow> ('g, 'e) node \<Rightarrow> ('l response \<times> ('g, 'e) node) exec" where
  "serve_get L A X read_text segment level n =
    exec_bind (get_handler L A X segment level n) (\<lambda>(r, n').
    Return (normalize_error_body read_text r, n'))"

definition serve_delete ::
  "('g, 'e) client_api \<Rightarrow> context_data \<Rightarrow> ('l response_body \<Rightarrow> string option) \<Rightarrow> bytes option \<Rightarrow>
   ('g, 'e) node \<Rightarrow> 'l response \<times> ('g, 'e) node" where
  "serve_delete A X read_text segment n =
    (case delete_handler A X segment n of (r, n') \<Rightarrow> (normalize_error_body read_text r, n'))"

text \<open>\<open>main.rs\<close>: the outcomes of connecting, writing and reading are inputs.\<close>

definition probe_status_endpoint :: "bool \<Rightarrow> bool \<Rightarrow> string option \<Rightarrow> bool" where
  "probe_status_endpoint connected written answer \<longleftrightarrow>
     (if \<not> connected then False
      else if \<not> written then False
      else (case answer of None \<Rightarrow> False | Some s \<Rightarrow> prefix ''HTTP/1.1 200'' s))"

definition read_http_listen_address ::
  "(string \<Rightarrow> io_error + string) \<Rightarrow> (string \<Rightarrow> io_error + 'a) \<Rightarrow> string \<Rightarrow> io_error + 'a" where
  "read_http_listen_address read_file parse config_path = and_then (read_file config_path) parse"

text \<open>The exit code of the healthcheck command; an error returned from \<open>main\<close> exits with one.\<close>

definition healthcheck_exit ::
  "(string \<Rightarrow> io_error + string) \<Rightarrow> (string \<Rightarrow> io_error + 'a) \<Rightarrow> ('a \<Rightarrow> bool) \<Rightarrow> string \<Rightarrow> nat" where
  "healthcheck_exit read_file parse probe config_path =
    (case read_http_listen_address read_file parse config_path of
       Inl _ \<Rightarrow> 1
     | Inr addr \<Rightarrow> if probe addr then 0 else 1)"


lemma div_ceil_nat:
  fixes n :: nat
  shows "(n + 999) div 1000 = (if 0 < n mod 1000 then n div 1000 + 1 else n div 1000)"
proof -
  define q r where "q = n div 1000" and "r = n mod 1000"
  have n: "n = 1000 * q + r" and r: "r < 1000" by (simp_all add: q_def r_def)
  have "(n + 999) div 1000 = (if 0 < r then q + 1 else q)"
    using n r by (auto intro!: div_nat_eqI)
  then show ?thesis by (simp add: q_def r_def)
qed

lemma div_ceil_iff:
  fixes n k :: nat
  shows "k = (n + 999) div 1000 \<longleftrightarrow> n \<le> k * 1000 \<and> k * 1000 < n + 1000"
proof
  have "n + 999 = 1000 * ((n + 999) div 1000) + (n + 999) mod 1000" "(n + 999) mod 1000 < 1000" by simp_all
  then show "k = (n + 999) div 1000 \<Longrightarrow> n \<le> k * 1000 \<and> k * 1000 < n + 1000" by linarith
  assume "n \<le> k * 1000 \<and> k * 1000 < n + 1000"
  then have "(n + 999) div 1000 = k" by (intro div_nat_eqI) simp_all
  then show "k = (n + 999) div 1000" by simp
qed

lemma failed_is_error:
  "is_error_status (rsp_status (failed X e))"
proof (cases e)
  case (Client c)
  show ?thesis
  proof (cases c)
    case (Network code m ms h)
    then show ?thesis
      using Client by (cases code) (simp_all add: failed_def error_response_def is_error_status_def status_defs)
  next
    case (Business code m a)
    then show ?thesis
      using Client by (cases code) (simp_all add: failed_def error_response_def is_error_status_def plain_def status_defs)
  qed (use Client in \<open>simp_all add: failed_def error_response_def is_error_status_def status_defs\<close>)
qed (simp_all add: failed_def error_response_def is_error_status_def plain_def status_defs)

lemma normalize_status [simp]: "rsp_status (normalize_error_body rt r) = rsp_status r"
  by (simp add: normalize_error_body_def Let_def)

lemma valid_key_cases:
  "(valid_key (Some k) = Inr k) \<or> (\<exists>m. valid_key (Some k) = Inl (400, m))"
  by (simp add: valid_key_def status_defs)

lemma serve_put_204:
  fixes rt :: "'l response_body \<Rightarrow> string option"
  assumes "rsp_status (fst (serve_put A X rt (Some k) v n)) = 204"
  shows "valid_key (Some k) = Inr k" and "node_put A k v n = (Inr (), snd (serve_put A X rt (Some k) v n))"
proof -
  have small: "\<not> body_limit n < length v"
    using assms by (auto simp: serve_put_def rejection_def split: if_splits)
  show key: "valid_key (Some k) = Inr k"
    using assms small valid_key_cases [of k] by (auto simp: serve_put_def put_handler_def rejection_def)
  have fits: "\<not> cx_body_limit X < length v"
    using assms small key
    by (auto simp: serve_put_def put_handler_def rejection_def PAYLOAD_TOO_LARGE_def split: if_splits)
  obtain r n' where put: "node_put A k v n = (r, n')" by (cases "node_put A k v n")
  show "node_put A k v n = (Inr (), snd (serve_put A X rt (Some k) v n))"
  proof (cases r)
    case (Inl e)
    have "rsp_status (failed X e :: 'l response) \<noteq> 204"
      using failed_is_error [of X e, where ?'a = 'l] by (auto simp: is_error_status_def)
    then show ?thesis using assms small key fits put Inl by (simp add: serve_put_def put_handler_def)
  qed (use small key fits put in \<open>simp add: serve_put_def put_handler_def\<close>)
qed

lemma serve_put_oversized:
  fixes rt :: "'l response_body \<Rightarrow> string option"
  assumes "node_max_key n < length k \<or> node_max_value n < length v"
  shows "is_error_status (rsp_status (fst (serve_put A X rt (Some k) v n))) \<and>
    snd (serve_put A X rt (Some k) v n) = n"
proof (cases "body_limit n < length v")
  case True
  then show ?thesis by (simp add: serve_put_def rejection_def is_error_status_def)
next
  case False
  have "\<exists>e. check_sizes k v n = Inl e"
    using assms by (auto simp: check_sizes_def validate_key_def validate_value_def)
  then obtain e where "node_put A k v n = (Inl e, n)" by (auto simp: node_put_def)
  then show ?thesis
    using False valid_key_cases [of k] failed_is_error [of X e, where ?'a = 'l]
    by (auto simp: serve_put_def put_handler_def rejection_def is_error_status_def PAYLOAD_TOO_LARGE_def)
qed


definition demo_context :: context_data where
  "demo_context =
    \<lparr>cx_display = \<lparr>show_engine_error = (\<lambda>_. ''''), show_client_error = (\<lambda>_. '''')\<rparr>,
     cx_port = Some 8080, cx_trace_id = ''t'', cx_clock = 1000, cx_query_rejection = ''bad query'',
     cx_body_limit = 2097152, cx_body_rejection = ''length limit exceeded''\<rparr>"

section \<open>Properties\<close>

text \<open>C40. Every error of the crate maps to one of three statuses: 400 exactly for oversized keys and
  values and for requests the cluster calls invalid, 503 exactly for a node that is not the leader
  and for the four transient cluster conditions, 500 for everything else. A trace id is present
  exactly with 500, whose message is then one of four fixed ones, so no internal detail reaches
  the client; a leader hint or a \<open>Retry-After\<close> only ever accompanies 503.\<close>

theorem error_mapping_exact:
  "(he_status (http_error_of D port t err) = 400 \<longleftrightarrow>
      (\<exists>n. err = KeyTooLarge n \<or> err = ValueTooLarge n) \<or>
      (\<exists>m a. err = Client (Business InvalidRequest m a))) \<and>
   (he_status (http_error_of D port t err) = 503 \<longleftrightarrow>
      (\<exists>m ms h. err = Client (Network NotLeader m ms h)) \<or>
      (\<exists>c m a. c \<in> {ClusterUnavailable, ProposeFailed, RetryRequired, TermOutdated} \<and>
        err = Client (Business c m a))) \<and>
   he_status (http_error_of D port t err) \<in> {400, 503, 500} \<and>
   (eb_trace_id (he_body (http_error_of D port t err)) =
      (if he_status (http_error_of D port t err) = 500 then Some t else None)) \<and>
   (he_status (http_error_of D port t err) = 500 \<longrightarrow>
      eb_error (he_body (http_error_of D port t err)) \<in>
        {''storage error'', ''cluster error'', ''configuration error'', ''internal error''}) \<and>
   (eb_leader_hint (he_body (http_error_of D port t err)) \<noteq> None \<or>
      he_retry_after_secs (http_error_of D port t err) \<noteq> None \<longrightarrow>
      he_status (http_error_of D port t err) = 503)"
proof (cases err)
  case (Client c)
  show ?thesis
  proof (cases c)
    case (Network code m ms h)
    then show ?thesis using Client by (cases code) (simp_all add: status_defs)
  next
    case (Business code m a)
    then show ?thesis using Client by (cases code) (simp_all add: plain_def status_defs)
  qed (use Client in \<open>simp_all add: status_defs\<close>)
qed (simp_all add: plain_def status_defs)

theorem error_mapping_exact_witness:
  "eb_error (he_body (http_error_of (cx_display demo_context) None ''t'' (Io ''/data/lock: permission denied''))) \<in>
    {''storage error'', ''cluster error'', ''configuration error'', ''internal error''}"
  using error_mapping_exact [of "cx_display demo_context" None "''t''" "Io ''/data/lock: permission denied''"]
  by (simp add: status_defs)

text \<open>\<open>Retry-After\<close> is the number of milliseconds rounded up to whole seconds, never zero, and
  absent exactly when the engine gave no delay or a zero one.\<close>

theorem retry_after_exact:
  "retry_after_ms_to_secs x = Some s \<longleftrightarrow>
    (\<exists>ms. x = Some ms \<and> ms \<noteq> 0 \<and> unat ms \<le> unat s * 1000 \<and> unat s * 1000 < unat ms + 1000)"
proof -
  have div: "unat (div_ceil ms 1000) = (unat ms + 999) div 1000" for ms
  proof -
    have d: "unat (ms div 1000) = unat ms div 1000" "unat (ms mod 1000) = unat ms mod 1000"
      by (simp_all add: unat_div unat_mod)
    have "unat ms div 1000 + 1 < 2 ^ 64" using unat_u64_less [of ms] by simp
    then have s: "unat (ms div 1000 + 1) = unat ms div 1000 + 1"
      using d(1) by (simp add: unat_word_ariths)
    have "0 < ms mod 1000 \<longleftrightarrow> 0 < unat ms mod 1000"
      using d(2) by (simp add: word_less_nat_alt)
    then show ?thesis
      using d(1) s div_ceil_nat [of "unat ms"] by (simp add: div_ceil_def Let_def)
  qed
  have round: "s = div_ceil ms 1000 \<longleftrightarrow> unat ms \<le> unat s * 1000 \<and> unat s * 1000 < unat ms + 1000" for ms
  proof -
    have "s = div_ceil ms 1000 \<longleftrightarrow> unat s = (unat ms + 999) div 1000"
      using div [of ms] word_unat_eq_iff [of s "div_ceil ms 1000"] by simp
    then show ?thesis using div_ceil_iff [of "unat s" "unat ms"] by simp
  qed
  show ?thesis
    using round by (cases x) (auto simp: retry_after_ms_to_secs_def eq_commute [of s])
qed

text \<open>Rewriting a peer's Raft address keeps everything before the last colon and replaces the
  port after it. An address without a port but with a scheme is mangled: the colon of the scheme
  is taken for the one before the port.\<close>

lemma rsplit_once_none: "c \<notin> set p \<Longrightarrow> rsplit_once c p = None"
  by (induction p) auto

lemma rsplit_once_last: "c \<notin> set p \<Longrightarrow> rsplit_once c (h @ c # p) = Some (h, p)"
  by (induction h) (simp_all add: rsplit_once_none)

theorem replace_port_exact:
  "(CHR '':'' \<notin> set p \<longrightarrow>
      replace_port (h @ '':'' @ p) port = h @ '':'' @ show_nat (unat port)) \<and>
   replace_port ''http://node3'' port = ''http:'' @ show_nat (unat port)"
  by (simp add: replace_port_def rsplit_once_last)

theorem replace_port_exact_witness:
  "replace_port (''http://node3'' @ '':'' @ ''9081'') 8080 = ''http://node3:8080''"
proof -
  have "CHR '':'' \<notin> set ''9081''" by simp
  moreover have "show_nat (unat (8080 :: u16)) = ''8080''"
    by (simp add: show_nat.simps char_of_eq_iff)
  ultimately show ?thesis using replace_port_exact [of "''9081''" "''http://node3''" 8080] by simp
qed

text \<open>After the outermost layer every response with an error status has a JSON error body and
  its status is unchanged; responses without an error status pass as they are, and a second pass
  changes nothing.\<close>

theorem errors_are_json:
  "rsp_status (normalize_error_body rt r) = rsp_status r \<and>
   (if is_error_status (rsp_status r)
    then (\<exists>c. rsp_content_type (normalize_error_body rt r) = Some c \<and> prefix json_type c)
    else normalize_error_body rt r = r) \<and>
   normalize_error_body rt (normalize_error_body rt r) = normalize_error_body rt r"
  by (cases "rsp_content_type r") (auto simp: normalize_error_body_def Let_def)

text \<open>End to end: a value stored with \<open>PUT\<close>, answered with 204, is what \<open>GET\<close> at the default level
  returns, byte for byte, with status 200. A key or value over the configured limit is answered
  with an error status and stores nothing.\<close>

theorem http_put_then_get:
  assumes "lmdb_live L V" and "leader_client L V A" and "0 \<le> cx_clock X"
  shows "(rsp_status (fst (serve_put A X rt (Some k) v n)) = 204 \<longrightarrow>
      serve_get L A X rt (Some k) None (snd (serve_put A X rt (Some k) v n)) =
        Return (bytes_response v, snd (serve_put A X rt (Some k) v n))) \<and>
    (node_max_key n < length k \<or> node_max_value n < length v \<longrightarrow>
      is_error_status (rsp_status (fst (serve_put A X rt (Some k) v n))) \<and>
      snd (serve_put A X rt (Some k) v n) = n)"
proof
  show "rsp_status (fst (serve_put A X rt (Some k) v n)) = 204 \<longrightarrow>
      serve_get L A X rt (Some k) None (snd (serve_put A X rt (Some k) v n)) =
        Return (bytes_response v, snd (serve_put A X rt (Some k) v n))"
  proof
    assume "rsp_status (fst (serve_put A X rt (Some k) v n)) = 204"
    then have key: "valid_key (Some k) = Inr k" and put: "node_put A k v n = (Inr (), snd (serve_put A X rt (Some k) v n))"
      using serve_put_204 by blast+
    have "node_get L (cx_clock X) k (snd (serve_put A X rt (Some k) v n)) =
        Return (Inr (Some v), snd (serve_put A X rt (Some k) v n))"
      by (rule put_read_back [OF assms(1,2) put assms(3)])
    then show "serve_get L A X rt (Some k) None (snd (serve_put A X rt (Some k) v n)) =
        Return (bytes_response v, snd (serve_put A X rt (Some k) v n))"
      using key by (simp add: serve_get_def get_handler_def parse_level_def read_at_def
          normalize_error_body_def bytes_response_def is_error_status_def status_defs)
  qed
  show "node_max_key n < length k \<or> node_max_value n < length v \<longrightarrow>
      is_error_status (rsp_status (fst (serve_put A X rt (Some k) v n))) \<and>
      snd (serve_put A X rt (Some k) v n) = n"
    using serve_put_oversized by blast
qed

theorem http_put_then_get_witness:
  "\<exists>n'. serve_put (solo_api mem_api) demo_context (\<lambda>_ :: unit response_body. None) (Some [97]) [1, 2] (demo_node []) =
      (status_only 204, n') \<and>
    serve_get mem_api (solo_api mem_api) demo_context (\<lambda>_ :: unit response_body. None) (Some [97]) None n' =
      Return (bytes_response [1, 2], n')"
proof -
  let ?rt = "\<lambda>_ :: unit response_body. None :: string option"
  obtain n' where put: "node_put (solo_api mem_api) [97] [1, 2] (demo_node []) = (Inr (), n')"
    using mem.solo_put_live [of "[97]" "demo_node []" "[1, 2]"] by auto
  have run: "serve_put (solo_api mem_api) demo_context ?rt (Some [97]) [1, 2] (demo_node []) =
      (status_only 204, n')"
    by (simp add: serve_put_def body_limit_def max_value_bytes_of_def put_handler_def valid_key_def put
        demo_context_def BODY_LIMIT_OVERHEAD_BYTES_def normalize_error_body_def status_only_def is_error_status_def status_defs)
  moreover have "rsp_status (status_only 204 :: unit response) = 204" by (simp add: status_only_def)
  ultimately show ?thesis
    using http_put_then_get [OF mem.lmdb_live_axioms solo.leader_client_axioms,
        of demo_context ?rt "[97]" "[1, 2]" "demo_node []"]
    by (simp add: demo_context_def)
qed

text \<open>However large \<open>max_value_bytes\<close> is configured, a value above axum's limit is answered with 413 and
  never stored: the body limit of \<open>serve\<close> leaves the limit of the extractor in force.\<close>

theorem large_values_unreachable:
  "cx_body_limit X < length v \<Longrightarrow> valid_key segment = Inr k \<Longrightarrow>
   rsp_status (fst (serve_put A X rt segment v n)) = 413 \<and> snd (serve_put A X rt segment v n) = n"
  by (simp add: serve_put_def put_handler_def rejection_def PAYLOAD_TOO_LARGE_def)

text \<open>At any moment exactly one of the two load-balancer endpoints answers 200: \<open>/primary\<close> when
  the node is the leader and \<open>/replica\<close> whenever it is not, which includes a candidate and a node
  of a cluster that has no leader.\<close>

theorem health_endpoints_exclusive:
  "(rsp_status (primary_handler E n) = 200 \<longleftrightarrow> node_is_leader E n) \<and>
   (rsp_status (replica_handler E n) = 200 \<longleftrightarrow> \<not> node_is_leader E n) \<and>
   (rsp_status (primary_handler E n) = 503 \<longleftrightarrow> rsp_status (replica_handler E n) = 200)"
  by (simp add: primary_handler_def replica_handler_def status_only_def status_defs)

end
