(* ===== verification/Server.thy ===== *)
theory Server
  imports Http Available
begin

text \<open>
  The server as a whole: the router and its layers (\<open>http/mod.rs\<close>) as one function from requests to
  responses, the sessions it serves, and the two commands of \<open>main.rs\<close>. Requests are handled one
  after the other here, in parallel and on several nodes in \<open>Concurrent\<close>. The main result: over an available engine, every session answers and changes
  the store as a server of a plain map would.
\<close>


section \<open>The router\<close>

datatype http_method = GET | HEAD | PUT | DELETE | OtherMethod

text \<open>The route axum matched, with the decoded key segment (\<open>None\<close> when it is not UTF-8).\<close>

datatype route = KvRoute "bytes option" | PrimaryRoute | ReplicaRoute | StatusRoute | NoRoute

text \<open>The clock and the trace id are those of the moment the request is handled. \<open>rq_body\<close> has the
  length the request declares.\<close>

record request =
  rq_method :: http_method
  rq_route :: route
  rq_level :: "string option"
  rq_body :: bytes
  rq_clock :: int
  rq_trace_id :: string

text \<open>axum answers 404 for an unknown path and 405 for a method the route lacks, without a body. A \<open>get\<close>
  route also takes HEAD requests, whose responses lose their body.\<close>

definition METHOD_NOT_ALLOWED :: nat where "METHOD_NOT_ALLOWED = 405"

definition get_only :: "http_method \<Rightarrow> 'l response \<Rightarrow> 'l response" where
  "get_only verb r = (if verb = GET \<or> verb = HEAD then r else status_only METHOD_NOT_ALLOWED)"

definition kv_route ::
  "('e, 't) lmdb_api \<Rightarrow> ('g, 'e) client_api \<Rightarrow> context_data \<Rightarrow> http_method \<Rightarrow> bytes option \<Rightarrow> string option \<Rightarrow>
   bytes \<Rightarrow> ('g, 'e) node \<Rightarrow> ('l response \<times> ('g, 'e) node) exec" where
  "kv_route L A X verb segment level body n =
    (case verb of
       GET \<Rightarrow> get_handler L A X segment level n
     | HEAD \<Rightarrow> get_handler L A X segment level n
     | PUT \<Rightarrow> Return (put_handler A X segment body n)
     | DELETE \<Rightarrow> Return (delete_handler A X segment n)
     | OtherMethod \<Rightarrow> Return (status_only METHOD_NOT_ALLOWED, n))"

definition health_routes ::
  "('g, 'e, 'l) engine_api \<Rightarrow> http_method \<Rightarrow> route \<Rightarrow> ('g, 'e) node \<Rightarrow> 'l response" where
  "health_routes E verb r n =
    (case r of
       PrimaryRoute \<Rightarrow> get_only verb (primary_handler E n)
     | ReplicaRoute \<Rightarrow> get_only verb (replica_handler E n)
     | StatusRoute \<Rightarrow> get_only verb (status_handler E n)
     | _ \<Rightarrow> status_only NOT_FOUND)"

definition strip_head :: "http_method \<Rightarrow> 'l response \<Rightarrow> 'l response" where
  "strip_head verb r = (if verb = HEAD then r\<lparr>rsp_body := EmptyBody\<rparr> else r)"

definition app ::
  "('e, 't) lmdb_api \<Rightarrow> ('g, 'e) client_api \<Rightarrow> ('g, 'e, 'l) engine_api \<Rightarrow> context_data \<Rightarrow>
   ('l response_body \<Rightarrow> string option) \<Rightarrow> request \<Rightarrow> ('g, 'e) node \<Rightarrow> ('l response \<times> ('g, 'e) node) exec" where
  "app L A E X read_text rq n =
    exec_bind
      (if body_limit n < length (rq_body rq) then Return (rejection 413 ''length limit exceeded'', n)
       else
         (let X' = X\<lparr>cx_clock := rq_clock rq, cx_trace_id := rq_trace_id rq\<rparr>
          in case rq_route rq of
               KvRoute segment \<Rightarrow> kv_route L A X' (rq_method rq) segment (rq_level rq) (rq_body rq) n
             | r \<Rightarrow> Return (health_routes E (rq_method rq) r n, n)))
      (\<lambda>(r, n'). Return (strip_head (rq_method rq) (normalize_error_body read_text r), n'))"

fun session ::
  "('e, 't) lmdb_api \<Rightarrow> ('g, 'e) client_api \<Rightarrow> ('g, 'e, 'l) engine_api \<Rightarrow> context_data \<Rightarrow>
   ('l response_body \<Rightarrow> string option) \<Rightarrow> request list \<Rightarrow> ('g, 'e) node \<Rightarrow>
   ('l response list \<times> ('g, 'e) node) exec" where
  "session L A E X read_text [] n = Return ([], n)"
| "session L A E X read_text (rq # rqs) n =
    exec_bind (app L A E X read_text rq n) (\<lambda>(r, n').
    exec_bind (session L A E X read_text rqs n') (\<lambda>(rs, n''). Return (r # rs, n'')))"

text \<open>
  \<open>serve\<close>: compute the body limit (which \<open>app\<close> reads off the node), remember the port for leader hints, bind the listener, then answer requests until the
  process ends; \<open>rqs\<close> are those that arrive before that.
\<close>

definition serve ::
  "bool \<Rightarrow> ('e, 't) lmdb_api \<Rightarrow> ('g, 'e) client_api \<Rightarrow> ('g, 'e, 'l) engine_api \<Rightarrow> context_data \<Rightarrow>
   ('l response_body \<Rightarrow> string option) \<Rightarrow> u16 \<Rightarrow> io_error + unit \<Rightarrow> request list \<Rightarrow> ('g, 'e) node \<Rightarrow>
   (io_error + 'l response list \<times> ('g, 'e) node) exec" where
  "serve checks L A E X read_text port bind rqs n =
    (if checks \<and> 2 ^ 64 \<le> max_value_bytes_of n + BODY_LIMIT_OVERHEAD_BYTES then Panic
     else
       (let X' = X\<lparr>cx_port := set_local_http_port port (cx_port X)\<rparr>
        in case bind of
             Inl e \<Rightarrow> Return (Inl e)
           | Inr _ \<Rightarrow> exec_bind (session L A E X' read_text rqs n) (\<lambda>res. Return (Inr res))))"


text \<open>With \<open>max_value_bytes\<close> in the last KiB of \<open>usize\<close> the sum overflows: a build with overflow checks
  panics before it serves, one without refuses every body of 1 KiB or more.\<close>

lemma body_limit_overflow:
  assumes "2 ^ 64 - 1024 \<le> node_max_value n" and "node_max_value n < 2 ^ 64"
  shows "serve True L A E X rt port bind rqs n = Panic" and "body_limit n < 1024"
proof -
  show "serve True L A E X rt port bind rqs n = Panic"
    using assms(1) by (simp add: serve_def max_value_bytes_of_def BODY_LIMIT_OVERHEAD_BYTES_def)
  define k where "k = node_max_value n + 1024 - 2 ^ 64"
  have "node_max_value n + 1024 = k + 2 ^ 64" and "k < 1024" using assms by (simp_all add: k_def)
  then show "body_limit n < 1024"
    by (simp add: body_limit_def max_value_bytes_of_def BODY_LIMIT_OVERHEAD_BYTES_def)
qed


section \<open>The two commands\<close>

datatype cli_command = Serve string | Healthcheck string

text \<open>How the process ends: with an exit code and the locks it leaves, or while it serves.\<close>

datatype ('g, 'e, 'l) outcome =
    Exited nat "path set"
  | Serving "'l response list" "('g, 'e) node" "path set"

text \<open>\<open>addr_port\<close> is the port of a socket address. An error returned from \<open>main\<close> exits with code 1
  after the node, if it was opened, is dropped.\<close>

definition server_main ::
  "bool \<Rightarrow> (string \<Rightarrow> config_error + lmdb_table) \<Rightarrow> ('e, 't) lmdb_api \<Rightarrow> ('g, 'e, 'c) host \<Rightarrow> ('g, 'e) client_api \<Rightarrow>
   ('g, 'e, 'l) engine_api \<Rightarrow> context_data \<Rightarrow> ('l response_body \<Rightarrow> string option) \<Rightarrow>
   (string \<Rightarrow> io_error + string) \<Rightarrow> (string \<Rightarrow> io_error + 'a) \<Rightarrow> ('a \<Rightarrow> u16) \<Rightarrow> ('a \<Rightarrow> io_error + unit) \<Rightarrow>
   ('a \<Rightarrow> bool) \<Rightarrow> request list \<Rightarrow> cli_command \<Rightarrow> path set \<Rightarrow> ('g, 'e, 'l) outcome exec" where
  "server_main checks load L H A E X read_text read_file parse addr_port bind probe rqs cmd held =
    (case cmd of
       Serve config \<Rightarrow>
         exec_bind (node_open_from_file checks load L H (Some config) held) (\<lambda>(opened, held').
         (case opened of
            Inl e \<Rightarrow> Return (Exited 1 held')
          | Inr n \<Rightarrow>
              (case read_http_listen_address read_file parse config of
                 Inl e \<Rightarrow> Return (Exited 1 (release (data_dir_lock n) held'))
               | Inr addr \<Rightarrow>
                   exec_bind (serve checks L A E X read_text (addr_port addr) (bind addr) rqs n) (\<lambda>served.
                   (case served of
                      Inl e \<Rightarrow> Return (Exited 1 (release (data_dir_lock n) held'))
                    | Inr (rs, n') \<Rightarrow> Return (Serving rs n' held'))))))
     | Healthcheck config \<Rightarrow> Return (Exited (healthcheck_exit read_file parse probe config) held))"

text \<open>The \<open>/kv\<close> routes are the functions of the same name in \<open>Http\<close>.\<close>

lemma app_put:
  "rq_route rq = KvRoute segment \<Longrightarrow> rq_method rq = PUT \<Longrightarrow>
   app L A E X rt rq n = Return (serve_put A (X\<lparr>cx_clock := rq_clock rq, cx_trace_id := rq_trace_id rq\<rparr>) rt
     segment (rq_body rq) n)"
  by (simp add: app_def kv_route_def serve_put_def strip_head_def Let_def split: prod.split)


section \<open>A server of a plain map\<close>

definition json_error :: "nat \<Rightarrow> string \<Rightarrow> 'l response" where
  "json_error status message = error_response (plain status message)"

definition spec_kv ::
  "context_data \<Rightarrow> nat \<Rightarrow> nat \<Rightarrow> http_method \<Rightarrow> bytes option \<Rightarrow> string option \<Rightarrow> bytes \<Rightarrow> kv \<Rightarrow> 'l response \<times> kv"
where
  "spec_kv X max_key max_value verb segment level body m =
    (if verb = OtherMethod then (json_error 405 [], m)
     else
       (case valid_key segment of
          Inl (status, message) \<Rightarrow> (json_error status message, m)
        | Inr k \<Rightarrow>
            (if verb = GET \<or> verb = HEAD then
               (case parse_level level of
                  None \<Rightarrow> json_error 400 (cx_query_rejection X)
                | Some _ \<Rightarrow>
                    (case m k of Some v \<Rightarrow> bytes_response v | None \<Rightarrow> json_error 404 ''key not found''), m)
             else if verb = DELETE then (status_only 204, m(k := None))
             else if cx_body_limit X < length body then (json_error 413 (cx_body_rejection X), m)
             else if max_key < length k then
               (json_error 400 (error_to_string (cx_display X) (KeyTooLarge (length k))), m)
             else if max_value < length body then
               (json_error 400 (error_to_string (cx_display X) (ValueTooLarge (length body))), m)
             else (status_only 204, m(k \<mapsto> body)))))"

definition spec_health ::
  "bool \<Rightarrow> 'l option \<Rightarrow> membership \<Rightarrow> http_method \<Rightarrow> route \<Rightarrow> 'l response" where
  "spec_health leads leader mb verb r =
    (if r = NoRoute then json_error 404 []
     else if verb \<noteq> GET \<and> verb \<noteq> HEAD then json_error 405 []
     else if r = StatusRoute then
       \<lparr>rsp_status = 200, rsp_content_type = Some json_type, rsp_retry_after = None,
        rsp_body = StatusJson
          \<lparr>st_leader = leader, st_members = mb_members mb, st_learners = mb_learners mb,
           st_committed_index = mb_committed_index mb\<rparr>\<rparr>
     else if leads = (r = PrimaryRoute) then status_only 200 else json_error 503 [])"

definition spec_app ::
  "context_data \<Rightarrow> nat \<Rightarrow> nat \<Rightarrow> nat \<Rightarrow> bool \<Rightarrow> 'l option \<Rightarrow> membership \<Rightarrow> request \<Rightarrow> kv \<Rightarrow> 'l response \<times> kv" where
  "spec_app X limit max_key max_value leads leader mb rq m =
    map_prod (strip_head (rq_method rq)) id
      (if limit < length (rq_body rq) then (json_error 413 ''length limit exceeded'', m)
       else
         (case rq_route rq of
            KvRoute segment \<Rightarrow> spec_kv X max_key max_value (rq_method rq) segment (rq_level rq) (rq_body rq) m
          | r \<Rightarrow> (spec_health leads leader mb (rq_method rq) r, m)))"

fun spec_session ::
  "context_data \<Rightarrow> nat \<Rightarrow> nat \<Rightarrow> nat \<Rightarrow> bool \<Rightarrow> 'l option \<Rightarrow> membership \<Rightarrow> request list \<Rightarrow> kv \<Rightarrow> 'l response list \<times> kv"
where
  "spec_session X limit max_key max_value leads leader mb [] m = ([], m)"
| "spec_session X limit max_key max_value leads leader mb (rq # rqs) m =
    (let (r, m') = spec_app X limit max_key max_value leads leader mb rq m;
         (rs, m'') = spec_session X limit max_key max_value leads leader mb rqs m'
     in (r # rs, m''))"

text \<open>The stored form of a map: every value in its plain envelope.\<close>

definition plain_store :: "kv \<Rightarrow> kv" where
  "plain_store m = (\<lambda>k. map_option encode_raw (m k))"

text \<open>A request whose key, when it gets as far as the store, is one LMDB admits.\<close>

definition servable :: "('e, 't) lmdb_api \<Rightarrow> nat \<Rightarrow> request \<Rightarrow> bool" where
  "servable L max_key rq \<longleftrightarrow> 0 \<le> rq_clock rq \<and>
     (\<forall>segment k. rq_route rq = KvRoute segment \<longrightarrow> valid_key segment = Inr k \<longrightarrow>
        rq_method rq = PUT \<and> max_key < length k \<or> admissible_key L k)"

text \<open>\<open>read_text\<close> on the bodies that axum and tower produce for their own errors.\<close>

definition reads_text :: "('l response_body \<Rightarrow> string option) \<Rightarrow> bool" where
  "reads_text rt \<longleftrightarrow> (\<forall>s. rt (TextBody s) = Some s) \<and> rt EmptyBody = Some []"

text \<open>An engine whose leadership and membership do not change.\<close>

definition steady :: "('g, 'e, 'l) engine_api \<Rightarrow> bool \<Rightarrow> 'l option \<Rightarrow> membership \<Rightarrow> bool" where
  "steady E leads leader mb \<longleftrightarrow>
     (\<forall>g. e_is_leader E g = leads \<and> e_leader_info E g = leader \<and> e_membership E g = mb)"

lemma normalize_simps:
  "reads_text rt \<Longrightarrow> 400 \<le> s \<Longrightarrow> s < 600 \<Longrightarrow> normalize_error_body rt (rejection s message) = json_error s message"
  "reads_text rt \<Longrightarrow> 400 \<le> s \<Longrightarrow> s < 600 \<Longrightarrow> normalize_error_body rt (status_only s) = json_error s []"
  "s < 400 \<Longrightarrow> normalize_error_body rt (status_only s) = status_only s"
  "normalize_error_body rt (error_response e) = error_response e"
  "normalize_error_body rt (bytes_response b) = bytes_response b"
  "normalize_error_body rt \<lparr>rsp_status = 200, rsp_content_type = c, rsp_retry_after = a, rsp_body = b'\<rparr> =
    \<lparr>rsp_status = 200, rsp_content_type = c, rsp_retry_after = a, rsp_body = b'\<rparr>"
  by (simp_all add: normalize_error_body_def rejection_def status_only_def error_response_def plain_def
      bytes_response_def json_error_def reads_text_def is_error_status_def json_type_def status_defs)

lemma valid_key_status: "valid_key segment = Inl (status, message) \<Longrightarrow> status = 400"
  by (auto simp: valid_key_def status_defs split: option.splits if_splits)

lemma plain_store_simps [simp]:
  "values_wf (plain_store m)" "logical now (plain_store m) = m" "reap now k (plain_store m) = plain_store m"
  "(plain_store m)(k \<mapsto> encode_raw v) = plain_store (m(k \<mapsto> v))"
  "(plain_store m)(k := None) = plain_store (m(k := None))"
  by (auto simp: plain_store_def values_wf_def logical_def reap_def expired_def decode_live_value_def fun_eq_iff
      split: option.split)


section \<open>Refinement\<close>

lemma health_refines:
  assumes "steady E leads leader mb" and "reads_text rt" and "\<And>segment. r \<noteq> KvRoute segment"
  shows "normalize_error_body rt (health_routes E verb r n) = spec_health leads leader mb verb r"
  using assms
  by (cases r; cases verb)
    (simp_all add: health_routes_def spec_health_def get_only_def primary_handler_def replica_handler_def
      status_handler_def node_is_leader_def node_leader_def node_cluster_info_def steady_def normalize_simps
      status_defs METHOD_NOT_ALLOWED_def Let_def)

lemma body_limit_limits: "limits n = (max_key, max_value, d) \<Longrightarrow> body_limit n = (max_value + 1024) mod 2 ^ 64"
  by (simp add: body_limit_def max_value_bytes_of_def BODY_LIMIT_OVERHEAD_BYTES_def limits_def)

context available_client
begin

lemma read_at_plain:
  assumes "admissible_key L k" and "node_kv V n = plain_store m" and "0 \<le> clock"
  shows "\<exists>n'. read_at L A level clock k n = Return (Inr (m k), n') \<and> limits n' = limits n \<and>
    node_kv V n' = plain_store m"
  using get_run [OF assms(1), of n clock] get_linearizable_run [OF assms(1), of n clock]
    get_lease_run [OF assms(1), of n clock] assms(2,3)
  by (cases level) (simp_all add: read_at_def)

lemma get_refines:
  assumes "node_kv V n = plain_store m" and "0 \<le> cx_clock X" and "valid_key segment = Inr k" and "admissible_key L k"
    and "reads_text rt" and "verb = GET \<or> verb = HEAD"
  shows "\<exists>r n'. kv_route L A X verb segment level body n = Return (r, n') \<and>
    normalize_error_body rt r = fst (spec_kv X max_key max_value verb segment level body m) \<and>
    node_kv V n' = plain_store (snd (spec_kv X max_key max_value verb segment level body m)) \<and>
    limits n' = limits n"
proof -
  have route: "kv_route L A X verb segment level body n = get_handler L A X segment level n"
    using assms(6) by (auto simp: kv_route_def)
  show ?thesis
  proof (cases "parse_level level")
    case (Some lvl)
    obtain n' where "read_at L A lvl (cx_clock X) k n = Return (Inr (m k), n')" "limits n' = limits n"
      "node_kv V n' = plain_store m"
      using read_at_plain [OF assms(4,1,2)] by blast
    then show ?thesis
      using assms(3,6) Some unfolding route
      by (cases "m k") (auto simp: get_handler_def spec_kv_def normalize_simps json_error_def not_found_def status_defs)
  qed (use assms in \<open>auto simp: route get_handler_def spec_kv_def normalize_simps status_defs\<close>)
qed

lemma put_refines:
  assumes "node_kv V n = plain_store m" and "valid_key segment = Inr k" and "reads_text rt"
    and "node_max_key n < length k \<or> admissible_key L k"
  shows "\<exists>r n'. kv_route L A X PUT segment level body n = Return (r, n') \<and>
    normalize_error_body rt r = fst (spec_kv X (node_max_key n) (node_max_value n) PUT segment level body m) \<and>
    node_kv V n' = plain_store (snd (spec_kv X (node_max_key n) (node_max_value n) PUT segment level body m)) \<and>
    limits n' = limits n"
proof -
  consider "cx_body_limit X < length body" | "\<not> cx_body_limit X < length body" "node_max_key n < length k"
    | "\<not> cx_body_limit X < length body" "\<not> node_max_key n < length k" "node_max_value n < length body"
    | "\<not> cx_body_limit X < length body" "\<not> node_max_key n < length k" "\<not> node_max_value n < length body" by blast
  then show ?thesis
  proof cases
    case 4
    then obtain n' where "node_put A k body n = (Inr (), n')" "limits n' = limits n"
      "node_kv V n' = plain_store (m(k \<mapsto> body))"
      using put_run [of k n body] assms(1,4) by auto
    then show ?thesis
      using assms(2) 4 by (simp add: kv_route_def put_handler_def spec_kv_def normalize_simps status_defs)
  qed (use assms in \<open>simp_all add: kv_route_def PAYLOAD_TOO_LARGE_def put_handler_def node_put_def check_sizes_def
      validate_key_def validate_value_def failed_def spec_kv_def normalize_simps json_error_def status_defs\<close>)
qed

lemma kv_route_refines:
  assumes "node_kv V n = plain_store m" and "limits n = (max_key, max_value, d)" and "0 \<le> cx_clock X"
    and "\<And>k. valid_key segment = Inr k \<Longrightarrow> verb = PUT \<and> max_key < length k \<or> admissible_key L k"
    and "reads_text rt"
  shows "\<exists>r n'. kv_route L A X verb segment level body n = Return (r, n') \<and>
    normalize_error_body rt r = fst (spec_kv X max_key max_value verb segment level body m) \<and>
    node_kv V n' = plain_store (snd (spec_kv X max_key max_value verb segment level body m)) \<and>
    limits n' = limits n"
proof (cases "valid_key segment")
  case (Inl reason)
  then show ?thesis
    using assms(1,5) valid_key_status [of segment]
    by (cases reason; cases verb)
      (auto simp: kv_route_def get_handler_def put_handler_def delete_handler_def spec_kv_def normalize_simps
        METHOD_NOT_ALLOWED_def)
next
  case (Inr k)
  have max: "node_max_key n = max_key" "node_max_value n = max_value" using assms(2) by (simp_all add: limits_def)
  consider (reads) "verb = GET \<or> verb = HEAD" | (PUT) "verb = PUT" | (DELETE) "verb = DELETE"
    | (OtherMethod) "verb = OtherMethod" by (cases verb) auto
  then show ?thesis
  proof cases
    case reads
    then show ?thesis using get_refines [OF assms(1,3) Inr _ assms(5)] assms(4) [OF Inr] by blast
  next
    case PUT
    then show ?thesis
      using put_refines [OF assms(1) Inr assms(5)] assms(4) [OF Inr] unfolding max by blast
  next
    case DELETE
    then obtain n' where "node_delete A k n = (Inr (), n')" "limits n' = limits n"
      "node_kv V n' = plain_store (m(k := None))"
      using delete_run [of k n] assms(1) assms(4) [OF Inr] by auto
    then show ?thesis
      using Inr DELETE by (simp add: kv_route_def delete_handler_def spec_kv_def normalize_simps status_defs)
  next
    case OtherMethod
    then show ?thesis
      using assms(1,5) by (simp add: kv_route_def spec_kv_def normalize_simps METHOD_NOT_ALLOWED_def)
  qed
qed

lemma app_refines:
  fixes E :: "('g, 'e, 'l) engine_api"
  assumes "node_kv V n = plain_store m" and "limits n = (max_key, max_value, d)" and "servable L max_key rq"
    and "reads_text rt" and "steady E leads leader mb" and limit: "limit = (max_value + 1024) mod 2 ^ 64"
  shows "\<exists>n'. app L A E X rt rq n = Return (fst (spec_app X limit max_key max_value leads leader mb rq m), n') \<and>
    node_kv V n' = plain_store (snd (spec_app X limit max_key max_value leads leader mb rq m)) \<and> limits n' = limits n"
proof (cases "limit < length (rq_body rq)")
  case True
  then show ?thesis
    using assms(1,4) body_limit_limits [OF assms(2)] limit
    by (simp add: app_def spec_app_def normalize_simps)
next
  case False
  then have fits: "\<not> body_limit n < length (rq_body rq)"
    using body_limit_limits [OF assms(2)] limit by simp
  let ?X = "X\<lparr>cx_clock := rq_clock rq, cx_trace_id := rq_trace_id rq\<rparr>"
  show ?thesis
  proof (cases "rq_route rq")
    case (KvRoute segment)
    have "spec_kv ?X max_key max_value verb segment level body m =
        spec_kv X max_key max_value verb segment level body m" for verb level body
    proof -
      have "cx_display ?X = cx_display X" "cx_query_rejection ?X = cx_query_rejection X"
        "cx_body_limit ?X = cx_body_limit X" "cx_body_rejection ?X = cx_body_rejection X" by simp_all
      then show ?thesis unfolding spec_kv_def by (simp only:)
    qed
    moreover have "0 \<le> cx_clock ?X" using assms(3) by (simp add: servable_def)
    moreover have "rq_method rq = PUT \<and> max_key < length k \<or> admissible_key L k"
      if "valid_key segment = Inr k" for k
      using assms(3) KvRoute that by (simp add: servable_def)
    ultimately obtain r n' where
      "kv_route L A ?X (rq_method rq) segment (rq_level rq) (rq_body rq) n = Return (r, n')"
      "normalize_error_body rt r = fst (spec_kv X max_key max_value (rq_method rq) segment (rq_level rq) (rq_body rq) m)"
      "node_kv V n' = plain_store (snd
        (spec_kv X max_key max_value (rq_method rq) segment (rq_level rq) (rq_body rq) m :: 'l response \<times> kv))"
      "limits n' = limits n"
      using kv_route_refines [OF assms(1,2) _ _ assms(4), of ?X segment "rq_method rq" "rq_level rq" "rq_body rq"]
      by metis
    then show ?thesis
      using KvRoute False fits by (simp add: app_def spec_app_def Let_def)
  qed (use assms(1,4,5) False fits in \<open>simp_all add: app_def spec_app_def Let_def health_refines [OF assms(5,4)]\<close>)
qed

lemma session_refines:
  fixes E :: "('g, 'e, 'l) engine_api"
  assumes "reads_text rt" and "steady E leads leader mb" and "limit = (max_value + 1024) mod 2 ^ 64"
  shows "node_kv V n = plain_store m \<Longrightarrow> limits n = (max_key, max_value, d) \<Longrightarrow>
    \<forall>rq \<in> set rqs. servable L max_key rq \<Longrightarrow>
    \<exists>n'. session L A E X rt rqs n = Return (fst (spec_session X limit max_key max_value leads leader mb rqs m), n') \<and>
      node_kv V n' = plain_store (snd (spec_session X limit max_key max_value leads leader mb rqs m)) \<and>
      limits n' = limits n"
proof (induction rqs arbitrary: n m)
  case (Cons rq rqs)
  obtain r m' where spec: "spec_app X limit max_key max_value leads leader mb rq m = (r, m')" by fastforce
  obtain n1 where "app L A E X rt rq n = Return (r, n1)" "node_kv V n1 = plain_store m'" "limits n1 = limits n"
    using app_refines [OF Cons.prems(1,2) _ assms, of rq X] Cons.prems(3) spec by auto
  then show ?case
    using Cons.IH [of n1 m'] Cons.prems spec
    by (cases "spec_session X limit max_key max_value leads leader mb rqs m'") auto
qed simp

end


section \<open>Properties\<close>

text \<open>C3. The server implements a map. Over an available engine with steady leadership, starting from
  values without TTL, a session of any requests whose keys LMDB admits (puts with keys above the
  limit included) gets the responses, in order, that a server of a plain map gives, at every
  consistency level, with every error as JSON and no body for HEAD; and it leaves the store of that map.\<close>

theorem server_refines_map:
  fixes E :: "('g, 'e, 'l) engine_api" and rs :: "'l response list"
  assumes "available_client L V A" and "steady E leads leader mb" and "reads_text rt"
    and "node_kv V n = plain_store m" and "\<forall>rq \<in> set rqs. servable L (node_max_key n) rq"
    and "spec_session X (body_limit n) (node_max_key n) (node_max_value n) leads leader mb rqs m = (rs, m')"
  shows "\<exists>n'. session L A E X rt rqs n = Return (rs, n') \<and> node_kv V n' = plain_store m'"
  using available_client.session_refines [OF assms(1,3,2) _ assms(4), of "body_limit n" "node_max_value n"
      "node_max_key n" "data_dir_lock n" rqs X] assms(5,6)
  by (auto simp: limits_def body_limit_def max_value_bytes_of_def BODY_LIMIT_OVERHEAD_BYTES_def)

definition demo_request :: "http_method \<Rightarrow> route \<Rightarrow> bytes \<Rightarrow> request" where
  "demo_request verb r body =
    \<lparr>rq_method = verb, rq_route = r, rq_level = Some ''linearizable'', rq_body = body, rq_clock = 5,
     rq_trace_id = ''t''\<rparr>"

theorem server_refines_map_witness:
  "\<exists>n'. session mem_api (solo_api mem_api) solo_engine demo_context
      (\<lambda>b. case b of TextBody s \<Rightarrow> Some s | EmptyBody \<Rightarrow> Some [] | _ \<Rightarrow> None)
      [demo_request PUT (KvRoute (Some [97])) [1, 2], demo_request GET (KvRoute (Some [97])) [],
       demo_request DELETE (KvRoute (Some [97])) [], demo_request GET (KvRoute (Some [97])) [],
       demo_request HEAD (KvRoute (Some [])) [], demo_request PUT PrimaryRoute [],
       demo_request GET ReplicaRoute []] (demo_node []) =
    Return ([status_only 204, bytes_response [1, 2], status_only 204, json_error 404 ''key not found'',
      (json_error 400 [])\<lparr>rsp_body := EmptyBody\<rparr>, json_error 405 [], json_error 503 []], n')"
proof -
  let ?rqs = "[demo_request PUT (KvRoute (Some [97])) [1, 2], demo_request GET (KvRoute (Some [97])) [],
       demo_request DELETE (KvRoute (Some [97])) [], demo_request GET (KvRoute (Some [97])) [],
       demo_request HEAD (KvRoute (Some [])) [], demo_request PUT PrimaryRoute [],
       demo_request GET ReplicaRoute []]"
  have "\<forall>rq \<in> set ?rqs. servable mem_api 512 rq"
    by (auto simp: servable_def demo_request_def valid_key_def status_defs)
  moreover have "spec_session demo_context 1049600 512 1048576 True (Some ()) mb ?rqs Map.empty =
      ([status_only 204, bytes_response [1, 2], status_only 204, json_error 404 ''key not found'',
      (json_error 400 [])\<lparr>rsp_body := EmptyBody\<rparr>, json_error 405 [], json_error 503 []], Map.empty)" for mb
    by (simp add: spec_app_def spec_kv_def spec_health_def demo_request_def valid_key_def parse_level_def
        demo_context_def strip_head_def json_error_def error_response_def plain_def status_defs)
  moreover have "reads_text (\<lambda>b. case b of TextBody s \<Rightarrow> Some s | EmptyBody \<Rightarrow> Some [] | _ \<Rightarrow> None)"
    by (simp add: reads_text_def)
  moreover have "steady solo_engine True (Some ()) \<lparr>mb_members = [1], mb_learners = [], mb_committed_index = 0\<rparr>"
    by (simp add: steady_def solo_engine_def)
  moreover have "node_kv mem_view (demo_node []) = plain_store Map.empty"
    by (simp add: plain_store_def fun_eq_iff)
  moreover have "body_limit (demo_node []) = 1049600"
    by (simp add: body_limit_def max_value_bytes_of_def BODY_LIMIT_OVERHEAD_BYTES_def demo_node_def)
  ultimately show ?thesis
    using server_refines_map [OF solo_mem.available_client_axioms, of solo_engine True "Some ()"
        "\<lparr>mb_members = [1], mb_learners = [], mb_committed_index = 0\<rparr>" _ "demo_node []" Map.empty ?rqs demo_context]
    by fastforce
qed

lemma node_open_from_file_locks:
  assumes "node_open_from_file checks load L H p held = Return (r, held')"
  shows "case r of Inl e \<Rightarrow> held' = held
    | Inr n \<Rightarrow> data_dir_lock n \<notin> held \<and> held' = insert (data_dir_lock n) held \<and>
        (\<exists>config. config_from_file checks load p = Return (Inr config) \<and>
          data_dir_lock n = data_dir config @ [''.d-lmdb.lock''])"
proof -
  obtain loaded where loaded: "config_from_file checks load p = Return loaded"
    using assms by (auto simp: node_open_from_file_def exec_bind_eq_Return)
  show ?thesis
  proof (cases loaded)
    case (Inr config)
    let ?got = "acquire (h_mkdir H (data_dir config)) (h_open_lock H (data_dir config)) (h_lock_fault H)
      (data_dir config) held"
    obtain q h where got: "?got = (q, h)" by fastforce
    show ?thesis
    proof (cases q)
      case (Inl e)
      then show ?thesis
        using assms loaded Inr got acquire_Inl [of _ _ _ "data_dir config" held e h]
        by (auto simp: node_open_from_file_def Let_def)
    next
      case (Inr lock)
      then obtain started where "finish_open lock h config started = (r, held')"
        using assms loaded \<open>loaded = Inr config\<close> got by (auto simp: node_open_from_file_def Let_def)
      then show ?thesis
        using acquire_Inr [OF got [unfolded Inr]] loaded \<open>loaded = Inr config\<close>
        by (auto simp: finish_open_def release_def lock_path_def split: sum.splits prod.splits)
    qed
  qed (use assms loaded in \<open>auto simp: node_open_from_file_def\<close>)
qed

text \<open>C39. The \<open>serve\<close> command holds the lock file \<open>.d-lmdb.lock\<close> in the configured data directory exactly
  while it serves, and does not serve when that file was locked before: when the
  configuration, the lock, the stores, the engine, the listen address or the listener fails, the process
  exits with code 1 and all locks are as they were.\<close>

theorem server_startup:
  assumes "server_main checks load L H A E X rt read_file parse addr_port bind probe rqs (Serve config) held = Return out"
  shows "case out of
      Exited code held' \<Rightarrow> code = 1 \<and> held' = held
    | Serving rs n held' \<Rightarrow> (\<exists>c. config_from_file checks load (Some config) = Return (Inr c) \<and>
        data_dir c @ [''.d-lmdb.lock''] \<notin> held \<and> held' = insert (data_dir c @ [''.d-lmdb.lock'']) held)"
proof -
  obtain opened h where opened: "node_open_from_file checks load L H (Some config) held = Return (opened, h)"
    using assms by (auto simp: server_main_def exec_bind_eq_Return)
  show ?thesis
  proof (cases opened)
    case (Inl e)
    then show ?thesis
      using assms opened node_open_from_file_locks [OF opened] by (auto simp: server_main_def)
  next
    case (Inr n)
    then have locks: "data_dir_lock n \<notin> held" "h = insert (data_dir_lock n) held" "release (data_dir_lock n) h = held"
      "\<exists>c. config_from_file checks load (Some config) = Return (Inr c) \<and> data_dir_lock n = data_dir c @ [''.d-lmdb.lock'']"
      using node_open_from_file_locks [OF opened] by (auto simp: release_def)
    show ?thesis
    proof (cases "read_http_listen_address read_file parse config")
      case (Inr addr)
      then obtain served where "serve checks L A E X rt (addr_port addr) (bind addr) rqs n = Return served"
        using assms opened \<open>opened = Inr n\<close> by (auto simp: server_main_def exec_bind_eq_Return)
      then have out: "out = (case served of Inl e \<Rightarrow> Exited 1 (release (data_dir_lock n) h)
          | Inr (rs, n') \<Rightarrow> Serving rs n' h)"
        using assms opened \<open>opened = Inr n\<close> Inr
        by (cases served) (simp_all add: server_main_def split: prod.split_asm)
      show ?thesis
        using locks unfolding out by (auto split: sum.split)
    next
      case (Inl e)
      then have "out = Exited 1 (release (data_dir_lock n) h)"
        using assms opened \<open>opened = Inr n\<close> by (simp add: server_main_def)
      then show ?thesis using locks by simp
    qed
  qed
qed

text \<open>A server that comes up on the directory \<open>data\<close>, and one that does not, since the file is locked.\<close>

definition demo_settings :: "string \<Rightarrow> config_error + lmdb_table" where
  "demo_settings p = Inr \<lparr>tab_data_dir = [''data''], tab_map_size_gb = Some 1, tab_max_key_bytes = None,
    tab_max_value_bytes = None\<rparr>"

definition demo_serve :: "path set \<Rightarrow> (u64, mem, unit) outcome exec" where
  "demo_serve held = server_main True demo_settings mem_api demo_host (solo_api mem_api) solo_engine demo_context
    (\<lambda>_. None) (\<lambda>_. Inr ''x'') (\<lambda>_. Inr ()) (\<lambda>_. 1) (\<lambda>_. Inr ()) (\<lambda>_. True) [] (Serve ''n1.toml'') held"

lemma demo_settings_config:
  "config_from_file True demo_settings (Some p) = Return (Inr \<lparr>data_dir = [''data''], map_size_gb = 1073741824,
    max_key_bytes = 512, max_value_bytes = 1048576\<rparr>)"
  by (simp add: config_from_file_def demo_settings_def deserialize_section_def or_default_def mul_u64_def
      default_max_key_bytes_def default_max_value_bytes_def)

lemma demo_serve_runs:
  "\<exists>n h. demo_serve {[''other'']} = Return (Serving [] n h)"
  "\<exists>c h. demo_serve {[''data'', ''.d-lmdb.lock'']} = Return (Exited c h)"
proof -
  let ?config = "\<lparr>data_dir = [''data''], map_size_gb = 1073741824, max_key_bytes = 512, max_value_bytes = 1048576\<rparr>"
  obtain w where w: "wal_new mem_api (Inr ()) None = Inr w" using demo_wal.wal_new_live by blast
  obtain s where s: "sm_new mem_api (Inr ()) None ?config = Inr s" using mem.sm_new_live by blast
  show "\<exists>n h. demo_serve {[''other'']} = Return (Serving [] n h)"
    by (simp add: demo_serve_def server_main_def node_open_from_file_def demo_settings_config acquire_def try_lock_def
        lock_path_def demo_host_def open_stores_def w s finish_open_def Let_def read_http_listen_address_def serve_def
        max_value_bytes_of_def BODY_LIMIT_OVERHEAD_BYTES_def and_then_def)
  show "\<exists>c h. demo_serve {[''data'', ''.d-lmdb.lock'']} = Return (Exited c h)"
    by (simp add: demo_serve_def server_main_def node_open_from_file_def demo_settings_config acquire_def try_lock_def
        lock_path_def demo_host_def Let_def)
qed

theorem server_startup_witness:
  "(\<exists>n. demo_serve {[''other'']} = Return (Serving [] n {[''other''], [''data'', ''.d-lmdb.lock'']})) \<and>
   demo_serve {[''data'', ''.d-lmdb.lock'']} = Return (Exited 1 {[''data'', ''.d-lmdb.lock'']})"
proof -
  obtain n h c h' where runs: "demo_serve {[''other'']} = Return (Serving [] n h)"
    "demo_serve {[''data'', ''.d-lmdb.lock'']} = Return (Exited c h')"
    using demo_serve_runs by blast
  show ?thesis
    using server_startup [OF runs(1) [unfolded demo_serve_def]] server_startup [OF runs(2) [unfolded demo_serve_def]] runs
    by (auto simp: demo_settings_config)
qed

end
