(* ===== verification/Concurrent.thy ===== *)
theory Concurrent
  imports Server Cluster
begin

text \<open>
  Requests in parallel, on several nodes of a cluster. Each server runs every request as a task of its own; a node has no lock, so
  the tasks interleave, with each other, with those of other nodes and with the applier of each node. A write is one call of the engine. A read is two steps, one that gets the
  stored value, from the node's own store for an eventual read and from the engine for the other levels, and one that decodes it and removes it when it is expired.
  The main result: without TTL
  values every history of invocations and responses is linearizable with respect to the server of
  a plain map, but for the eventual reads, which answer from some earlier contents.
\<close>


section \<open>The steps of a request\<close>

text \<open>What the servers are built on: for every node its handle of the engine. \<open>sv_feed\<close> gives the
  entries the engine has the applier of a node apply next, at most as many as asked for.\<close>

record ('g, 'e, 't, 'l) surroundings =
  sv_lmdb :: "('e, 't) lmdb_api"
  sv_client :: "nat \<Rightarrow> ('g, 'e) client_api"
  sv_engine :: "nat \<Rightarrow> ('g, 'e, 'l) engine_api"
  sv_feed :: "'g \<Rightarrow> 'e state_machine \<Rightarrow> nat \<Rightarrow> apply_entry list"
  sv_context :: "nat \<Rightarrow> context_data"
  sv_read_text :: "'l response_body \<Rightarrow> string option"

text \<open>The key and the level of a request that gets as far as reading the store.\<close>

definition read_target :: "('g, 'e) node \<Rightarrow> request \<Rightarrow> (bytes \<times> consistency_level) option" where
  "read_target n rq =
    (if body_limit n < length (rq_body rq) \<or> (rq_method rq \<noteq> GET \<and> rq_method rq \<noteq> HEAD) then None
     else
       (case rq_route rq of
          KvRoute segment \<Rightarrow>
            (case valid_key segment of
               Inl _ \<Rightarrow> None
             | Inr key \<Rightarrow> map_option (Pair key) (parse_level (rq_level rq)))
        | _ \<Rightarrow> None))"

definition fetch_at ::
  "('e, 't) lmdb_api \<Rightarrow> ('g, 'e) client_api \<Rightarrow> consistency_level \<Rightarrow> bytes \<Rightarrow> ('g, 'e) node \<Rightarrow>
   (error + bytes option) \<times> ('g, 'e) node" where
  "fetch_at L A level key n =
    (case level of
       Eventual \<Rightarrow> (map_err EngineErr (sm_get L (node_sm n) key), n)
     | Linearizable \<Rightarrow> via_client (c_get_linearizable A key) n
     | Lease \<Rightarrow> via_client (c_get_lease A key) n)"

definition read_response :: "context_data \<Rightarrow> error + bytes option \<Rightarrow> 'l response" where
  "read_response X r =
    (case r of
       Inl e \<Rightarrow> failed X e
     | Inr (Some b) \<Rightarrow> bytes_response b
     | Inr None \<Rightarrow> error_response not_found)"

text \<open>The context of a request, and the layers its response passes.\<close>

definition context_of :: "context_data \<Rightarrow> request \<Rightarrow> context_data" where
  "context_of X rq = X\<lparr>cx_clock := rq_clock rq, cx_trace_id := rq_trace_id rq\<rparr>"

definition outgoing :: "('l response_body \<Rightarrow> string option) \<Rightarrow> request \<Rightarrow> 'l response \<Rightarrow> 'l response" where
  "outgoing read_text rq r = strip_head (rq_method rq) (normalize_error_body read_text r)"

lemma read_at_steps:
  "read_at L A level clock key n =
    (case fetch_at L A level key n of
       (Inl e, n1) \<Rightarrow> Return (Inl e, n1)
     | (Inr raw, n1) \<Rightarrow> decode_and_reap L clock key raw n1)"
  by (cases level)
    (auto simp: read_at_def fetch_at_def node_get_def fetch_local_def node_get_linearizable_def node_get_lease_def
      split: sum.split)

lemma exec_bind_assoc: "exec_bind (exec_bind x f) g = exec_bind x (\<lambda>y. exec_bind (f y) g)"
  by (cases x) simp_all

text \<open>Without interference the steps make up the handler.\<close>

lemma app_read_steps:
  assumes "read_target n rq = Some (key, level)"
  shows "app L A E X rt rq n =
    (case fetch_at L A level key n of
       (Inl e, n1) \<Rightarrow> Return (outgoing rt rq (read_response (context_of X rq) (Inl e)), n1)
     | (Inr raw, n1) \<Rightarrow> exec_bind (decode_and_reap L (rq_clock rq) key raw n1) (\<lambda>(r, n2).
         Return (outgoing rt rq (read_response (context_of X rq) r), n2)))"
proof -
  obtain segment where target: "\<not> body_limit n < length (rq_body rq)" "rq_method rq = GET \<or> rq_method rq = HEAD"
    "rq_route rq = KvRoute segment" "valid_key segment = Inr key" "parse_level (rq_level rq) = Some level"
    using assms by (auto simp: read_target_def split: if_splits route.splits sum.splits)
  have handler: "get_handler L A (context_of X rq) segment (rq_level rq) n =
      exec_bind (read_at L A level (rq_clock rq) key n) (\<lambda>(r, n'). Return (read_response (context_of X rq) r, n'))"
    using target(4,5) by (simp add: get_handler_def read_response_def context_of_def)
  have "app L A E X rt rq n =
      exec_bind (get_handler L A (context_of X rq) segment (rq_level rq) n) (\<lambda>(r, n'). Return (outgoing rt rq r, n'))"
    using target(1-3) by (auto simp: app_def kv_route_def Let_def outgoing_def context_of_def)
  then show ?thesis
    unfolding handler read_at_steps
    by (cases "fetch_at L A level key n"; cases "fst (fetch_at L A level key n)")
      (auto simp: exec_bind_assoc split_def)
qed


section \<open>Tasks and histories\<close>

text \<open>A request is made to one of the nodes.\<close>

type_synonym query = "nat \<times> request"

datatype 'l task = Invoked nat request | Fetched nat request bytes "bytes option" | Finished "'l response"

datatype 'l event = Invoke nat query | Respond nat "'l response"

text \<open>The engine's state is that of the whole cluster; each node has a store of its own.\<close>

record ('g, 'e, 'l) live_servers =
  lv_shared :: 'g
  lv_node :: "nat \<Rightarrow> ('g, 'e) node"
  lv_tasks :: "nat \<rightharpoonup> 'l task"
  lv_history :: "'l event list"

definition node_at :: "nat \<Rightarrow> ('g, 'e, 'l) live_servers \<Rightarrow> ('g, 'e) node" where
  "node_at j c = (lv_node c j)\<lparr>inner := lv_shared c\<rparr>"

definition put_node :: "nat \<Rightarrow> ('g, 'e) node \<Rightarrow> ('g, 'e, 'l) live_servers \<Rightarrow> ('g, 'e, 'l) live_servers" where
  "put_node j n c = c\<lparr>lv_shared := inner n, lv_node := (lv_node c)(j := n)\<rparr>"

definition put_task :: "nat \<Rightarrow> 'l task option \<Rightarrow> ('g, 'e, 'l) live_servers \<Rightarrow> ('g, 'e, 'l) live_servers" where
  "put_task i task c = c\<lparr>lv_tasks := (lv_tasks c)(i := task)\<rparr>"

definition note_event :: "'l event \<Rightarrow> ('g, 'e, 'l) live_servers \<Rightarrow> ('g, 'e, 'l) live_servers" where
  "note_event x c = c\<lparr>lv_history := lv_history c @ [x]\<rparr>"

definition read_answer ::
  "('g, 'e, 't, 'l) surroundings \<Rightarrow> query \<Rightarrow> error + bytes option \<Rightarrow> 'l response" where
  "read_answer S q r =
    (case q of (j, rq) \<Rightarrow> outgoing (sv_read_text S) rq (read_response (context_of (sv_context S j) rq) r))"

inductive serve_step ::
  "('g, 'e, 't, 'l) surroundings \<Rightarrow> ('g, 'e, 'l) live_servers \<Rightarrow> ('g, 'e, 'l) live_servers \<Rightarrow> bool"
  for S :: "('g, 'e, 't, 'l) surroundings" where
  invoked: "\<forall>q. Invoke i q \<notin> set (lv_history c) \<Longrightarrow>
    serve_step S c (put_task i (Some (Invoked j rq)) (note_event (Invoke i (j, rq)) c))"
| handled: "lv_tasks c i = Some (Invoked j rq) \<Longrightarrow> read_target (node_at j c) rq = None \<Longrightarrow>
    app (sv_lmdb S) (sv_client S j) (sv_engine S j) (sv_context S j) (sv_read_text S) rq (node_at j c) = Return (r, n) \<Longrightarrow>
    serve_step S c (put_task i (Some (Finished r)) (put_node j n c))"
| fetched: "lv_tasks c i = Some (Invoked j rq) \<Longrightarrow> read_target (node_at j c) rq = Some (key, level) \<Longrightarrow>
    fetch_at (sv_lmdb S) (sv_client S j) level key (node_at j c) = (Inr raw, n) \<Longrightarrow>
    serve_step S c (put_task i (Some (Fetched j rq key raw)) (put_node j n c))"
| fetch_failed: "lv_tasks c i = Some (Invoked j rq) \<Longrightarrow> read_target (node_at j c) rq = Some (key, level) \<Longrightarrow>
    fetch_at (sv_lmdb S) (sv_client S j) level key (node_at j c) = (Inl e, n) \<Longrightarrow>
    serve_step S c (put_task i (Some (Finished (read_answer S (j, rq) (Inl e)))) (put_node j n c))"
| decoded: "lv_tasks c i = Some (Fetched j rq key raw) \<Longrightarrow>
    decode_and_reap (sv_lmdb S) (rq_clock rq) key raw (node_at j c) = Return (r, n) \<Longrightarrow>
    serve_step S c (put_task i (Some (Finished (read_answer S (j, rq) r))) (put_node j n c))"
| answered: "lv_tasks c i = Some (Finished r) \<Longrightarrow>
    serve_step S c (put_task i None (note_event (Respond i r) c))"
| replicated: "apply_chunk (sv_lmdb S) (sv_feed S (lv_shared c) (node_sm (lv_node c j)) m) (node_sm (lv_node c j)) = (r, s) \<Longrightarrow>
    serve_step S c (put_node j ((node_at j c)\<lparr>node_sm := s\<rparr>) c)"

inductive serve_reachable ::
  "('g, 'e, 't, 'l) surroundings \<Rightarrow> 'g \<Rightarrow> (nat \<Rightarrow> ('g, 'e) node) \<Rightarrow> ('g, 'e, 'l) live_servers \<Rightarrow> bool"
  for S :: "('g, 'e, 't, 'l) surroundings" and g0 :: 'g and n0 :: "nat \<Rightarrow> ('g, 'e) node" where
  idle: "serve_reachable S g0 n0 \<lparr>lv_shared = g0, lv_node = n0, lv_tasks = Map.empty, lv_history = []\<rparr>"
| step: "serve_reachable S g0 n0 c \<Longrightarrow> serve_step S c c' \<Longrightarrow> serve_reachable S g0 n0 c'"

lemma live_simps [simp]:
  "lv_shared (put_node j n c) = inner n" "lv_node (put_node j n c) = (lv_node c)(j := n)"
  "lv_tasks (put_node j n c) = lv_tasks c" "lv_history (put_node j n c) = lv_history c"
  "lv_shared (put_task i t c) = lv_shared c" "lv_node (put_task i t c) = lv_node c"
  "lv_tasks (put_task i t c) = (lv_tasks c)(i := t)" "lv_history (put_task i t c) = lv_history c"
  "lv_shared (note_event x c) = lv_shared c" "lv_node (note_event x c) = lv_node c"
  "lv_tasks (note_event x c) = lv_tasks c" "lv_history (note_event x c) = lv_history c @ [x]"
  "inner (node_at j c) = lv_shared c" "node_sm (node_at j c) = node_sm (lv_node c j)"
  "limits (node_at j c) = limits (lv_node c j)"
  by (simp_all add: put_node_def put_task_def note_event_def node_at_def limits_def)

text \<open>Request \<open>i\<close> was answered before request \<open>j\<close> was made.\<close>

definition precedes :: "'l event list \<Rightarrow> nat \<Rightarrow> nat \<Rightarrow> bool" where
  "precedes h i j \<longleftrightarrow> (\<exists>xs r ys rq zs. h = xs @ Respond i r # ys @ Invoke j rq # zs)"

definition comes_before :: "nat list \<Rightarrow> nat \<Rightarrow> nat \<Rightarrow> bool" where
  "comes_before ids i j \<longleftrightarrow> (\<exists>xs ys zs. ids = xs @ i # ys @ j # zs)"

text \<open>
  \<open>lin\<close> is a linearization of the history \<open>h\<close>: a sequence of requests with responses that has
  only requests that were made, and none of
  them twice; that a server which handles one request after the other produces; and that keeps
  the order of any two requests of which one was answered before the other was made.
\<close>

fun serve_all :: "(query \<Rightarrow> kv \<Rightarrow> 'r \<times> kv) \<Rightarrow> query list \<Rightarrow> kv \<Rightarrow> 'r list \<times> kv" where
  "serve_all ans [] m = ([], m)"
| "serve_all ans (q # qs) m =
    (let (r, m1) = ans q m; (rs, m2) = serve_all ans qs m1 in (r # rs, m2))"

type_synonym 'l linearization = "(nat \<times> query \<times> 'l response) list"

definition linearizes :: "(query list \<Rightarrow> 'l response list) \<Rightarrow> 'l event list \<Rightarrow> 'l linearization \<Rightarrow> bool" where
  "linearizes sequential h lin \<longleftrightarrow>
     distinct (map fst lin) \<and>
     (\<forall>(i, q, r) \<in> set lin. Invoke i q \<in> set h) \<and>
     sequential (map (fst \<circ> snd) lin) = map (snd \<circ> snd) lin \<and>
     (\<forall>i j. precedes h i j \<longrightarrow> i \<in> fst ` set lin \<longrightarrow> j \<in> fst ` set lin \<longrightarrow> comes_before (map fst lin) i j)"

text \<open>The answer of a server of a plain map in the place of a node, and the map after a sequence of requests.\<close>

definition map_answer ::
  "('g, 'e, 't, 'l) surroundings \<Rightarrow> (nat \<Rightarrow> ('g, 'e) node) \<Rightarrow> (nat \<Rightarrow> bool) \<Rightarrow> (nat \<Rightarrow> 'l option) \<Rightarrow>
   (nat \<Rightarrow> membership) \<Rightarrow> query \<Rightarrow> kv \<Rightarrow> 'l response \<times> kv" where
  "map_answer S n0 leads leader mb q m =
    (case q of (j, rq) \<Rightarrow>
       spec_app (sv_context S j) (body_limit (n0 j)) (node_max_key (n0 j)) (node_max_value (n0 j))
         (leads j) (leader j) (mb j) rq m)"

definition map_after :: "(query \<Rightarrow> kv \<Rightarrow> 'l response \<times> kv) \<Rightarrow> kv \<Rightarrow> 'l linearization \<Rightarrow> kv" where
  "map_after ans m0 lin = snd (serve_all ans (map (fst \<circ> snd) lin) m0)"

text \<open>An eventual read answers from the contents after a beginning of the linearization, without
  any request that was made after the answer.\<close>

definition reads_earlier ::
  "(query \<Rightarrow> kv \<Rightarrow> 'l response \<times> kv) \<Rightarrow> kv \<Rightarrow> 'l event list \<Rightarrow> 'l linearization \<Rightarrow> nat \<Rightarrow> query \<Rightarrow> 'l response \<Rightarrow> bool"
where
  "reads_earlier ans m0 h lin i q r \<longleftrightarrow>
     (\<exists>p rest. lin = p @ rest \<and> r = fst (ans q (map_after ans m0 p)) \<and> (\<forall>x \<in> set p. \<not> precedes h i (fst x)))"

text \<open>The requests that are eventual reads, and the responses that report an error of the engine or
  its client.\<close>

definition eventual_get :: "(nat \<Rightarrow> ('g, 'e) node) \<Rightarrow> query \<Rightarrow> bool" where
  "eventual_get n0 q = (case q of (j, rq) \<Rightarrow> \<exists>key. read_target (n0 j) rq = Some (key, Eventual))"

definition refused :: "('g, 'e, 't, 'l) surroundings \<Rightarrow> query \<Rightarrow> 'l response \<Rightarrow> bool" where
  "refused S q r \<longleftrightarrow> (\<exists>e. ((\<exists>x. e = Client x) \<or> (\<exists>x. e = EngineErr x)) \<and> r = read_answer S q (Inl e))"

text \<open>What makes a response right: an error of the engine says nothing, an eventual read answers from
  earlier contents, every other request answers as the linearization says.\<close>

definition justified ::
  "('g, 'e, 't, 'l) surroundings \<Rightarrow> (nat \<Rightarrow> ('g, 'e) node) \<Rightarrow> (query \<Rightarrow> kv \<Rightarrow> 'l response \<times> kv) \<Rightarrow> kv \<Rightarrow>
   'l event list \<Rightarrow> 'l linearization \<Rightarrow> nat \<Rightarrow> query \<Rightarrow> 'l response \<Rightarrow> bool" where
  "justified S n0 ans m0 h lin i q r \<longleftrightarrow> refused S q r \<or>
     (if eventual_get n0 q then reads_earlier ans m0 h lin i q r else (i, q, r) \<in> set lin)"

lemma precedes_snoc:
  "precedes (h @ [x]) i j \<longleftrightarrow> precedes h i j \<or> (\<exists>rq r. x = Invoke j rq \<and> Respond i r \<in> set h)"
proof
  assume "precedes (h @ [x]) i j"
  then obtain xs r ys rq zs where h: "h @ [x] = xs @ Respond i r # ys @ Invoke j rq # zs"
    by (auto simp: precedes_def)
  show "precedes h i j \<or> (\<exists>rq r. x = Invoke j rq \<and> Respond i r \<in> set h)"
  proof (cases zs rule: rev_cases)
    case Nil
    then have "h = xs @ Respond i r # ys" "x = Invoke j rq" using h by auto
    then show ?thesis by auto
  next
    case (snoc zs' z)
    then have "h = xs @ Respond i r # ys @ Invoke j rq # zs'" using h by auto
    then show ?thesis unfolding precedes_def by blast
  qed
next
  show "precedes h i j \<or> (\<exists>rq r. x = Invoke j rq \<and> Respond i r \<in> set h) \<Longrightarrow> precedes (h @ [x]) i j"
  proof (elim disjE exE conjE)
    assume "precedes h i j"
    then show "precedes (h @ [x]) i j" unfolding precedes_def by (metis append.assoc append_Cons)
  next
    fix rq r
    assume "x = Invoke j rq" "Respond i r \<in> set h"
    then show "precedes (h @ [x]) i j"
      unfolding precedes_def by (metis append.assoc append_Cons split_list)
  qed
qed

lemma precedes_answered: "precedes h i j \<Longrightarrow> \<exists>r. Respond i r \<in> set h"
  by (auto simp: precedes_def)

lemma comes_before_snoc:
  "comes_before (ids @ [x]) i j \<longleftrightarrow> comes_before ids i j \<or> (j = x \<and> i \<in> set ids)"
proof
  assume "comes_before (ids @ [x]) i j"
  then obtain xs ys zs where h: "ids @ [x] = xs @ i # ys @ j # zs" by (auto simp: comes_before_def)
  show "comes_before ids i j \<or> (j = x \<and> i \<in> set ids)"
  proof (cases zs rule: rev_cases)
    case Nil
    then have "ids = xs @ i # ys" "x = j" using h by auto
    then show ?thesis by auto
  next
    case (snoc zs' z)
    then have "ids = xs @ i # ys @ j # zs'" using h by auto
    then show ?thesis unfolding comes_before_def by blast
  qed
next
  show "comes_before ids i j \<or> (j = x \<and> i \<in> set ids) \<Longrightarrow> comes_before (ids @ [x]) i j"
    unfolding comes_before_def by (metis append.assoc append_Cons split_list)
qed


text \<open>How the kinds of progress keep a linearization.\<close>

lemma serve_all_snoc:
  "serve_all ans (qs @ [q]) m = (fst (serve_all ans qs m) @ [fst (ans q (snd (serve_all ans qs m)))],
    snd (ans q (snd (serve_all ans qs m))))"
  by (induction qs arbitrary: m) (simp_all add: Let_def split_def)

lemma map_after_snoc [simp]:
  "map_after ans m0 (lin @ [(i, q, r)]) = snd (ans q (map_after ans m0 lin))"
  by (simp add: map_after_def serve_all_snoc)

lemma linearizesD:
  assumes "linearizes f h lin"
  shows "distinct (map fst lin)" and "(i, q, r) \<in> set lin \<Longrightarrow> Invoke i q \<in> set h"
    and "f (map (fst \<circ> snd) lin) = map (snd \<circ> snd) lin"
    and "precedes h i j \<Longrightarrow> i \<in> fst ` set lin \<Longrightarrow> j \<in> fst ` set lin \<Longrightarrow> comes_before (map fst lin) i j"
  using assms unfolding linearizes_def by fast+

lemma linearizesI:
  assumes "distinct (map fst lin)" and "\<And>i q r. (i, q, r) \<in> set lin \<Longrightarrow> Invoke i q \<in> set h"
    and "f (map (fst \<circ> snd) lin) = map (snd \<circ> snd) lin"
    and "\<And>i j. precedes h i j \<Longrightarrow> i \<in> fst ` set lin \<Longrightarrow> j \<in> fst ` set lin \<Longrightarrow> comes_before (map fst lin) i j"
  shows "linearizes f h lin"
  using assms unfolding linearizes_def by fast

lemma linearizes_invoke:
  assumes lin: "linearizes f h lin" and new: "i \<notin> fst ` set lin"
  shows "linearizes f (h @ [Invoke i q]) lin"
proof (rule linearizesI)
  fix j k
  assume "precedes (h @ [Invoke i q]) j k" and jk: "j \<in> fst ` set lin" "k \<in> fst ` set lin"
  then have "precedes h j k" using new by (auto simp: precedes_snoc)
  then show "comes_before (map fst lin) j k" using linearizesD(4) [OF lin _ jk] by blast
qed (use linearizesD(1-3) [OF lin] in auto)

lemma linearizes_respond:
  assumes lin: "linearizes f h lin"
  shows "linearizes f (h @ [Respond i r]) lin"
proof (rule linearizesI)
  fix j k
  assume "precedes (h @ [Respond i r]) j k" and jk: "j \<in> fst ` set lin" "k \<in> fst ` set lin"
  then have "precedes h j k" by (simp add: precedes_snoc)
  then show "comes_before (map fst lin) j k" using linearizesD(4) [OF lin _ jk] by blast
qed (use linearizesD(1-3) [OF lin] in auto)

lemma linearizes_extend:
  assumes lin: "linearizes f h lin" and made: "Invoke i q \<in> set h" and fresh: "i \<notin> fst ` set lin"
    and open_task: "\<And>a. Respond i a \<notin> set h"
    and run: "f (map (fst \<circ> snd) lin @ [q]) = map (snd \<circ> snd) lin @ [r]"
  shows "linearizes f h (lin @ [(i, q, r)])"
proof (rule linearizesI)
  fix j k
  assume before: "precedes h j k" and j: "j \<in> fst ` set (lin @ [(i, q, r)])" and k: "k \<in> fst ` set (lin @ [(i, q, r)])"
  have "j \<noteq> i" using precedes_answered [OF before] open_task by blast
  then have j': "j \<in> fst ` set lin" using j by auto
  show "comes_before (map fst (lin @ [(i, q, r)])) j k"
  proof (cases "k \<in> fst ` set lin")
    case True
    then show ?thesis using linearizesD(4) [OF lin before j'] by (simp add: comes_before_snoc)
  next
    case False
    then show ?thesis using j' k by (simp add: comes_before_snoc)
  qed
qed (use linearizesD(1,2) [OF lin] made fresh run in auto)

lemma reads_earlier_longer: "reads_earlier ans m0 h lin i q r \<Longrightarrow> reads_earlier ans m0 h (lin @ xs) i q r"
  by (fastforce simp: reads_earlier_def)

lemma justified_longer: "justified S n0 ans m0 h lin i q r \<Longrightarrow> justified S n0 ans m0 h (lin @ xs) i q r"
  by (auto simp: justified_def reads_earlier_longer)

lemma justified_invoke:
  assumes "justified S n0 ans m0 h lin i q r" and "k \<notin> fst ` set lin"
  shows "justified S n0 ans m0 (h @ [Invoke k q']) lin i q r"
proof -
  have "reads_earlier ans m0 (h @ [Invoke k q']) lin i q r" if "reads_earlier ans m0 h lin i q r"
    using that assms(2) by (fastforce simp: reads_earlier_def precedes_snoc)
  then show ?thesis using assms(1) by (auto simp: justified_def)
qed

lemma justified_respond:
  "justified S n0 ans m0 h lin i q r \<Longrightarrow> justified S n0 ans m0 (h @ [Respond k a]) lin i q r"
  by (auto simp: justified_def reads_earlier_def precedes_snoc)


section \<open>The client of a replicated log\<close>

text \<open>
  What the engine promises the nodes of a cluster. \<open>commits g\<close> are the contents after each write the
  cluster committed, the last one being the current ones. A write is committed by the time it is reported as done; one
  reported as failed may have been. A linearizable or a lease read returns a current value, the latter under the
  engine's assumption on clocks. The store of a node, \<open>follows\<close>, is at one of these
  contents, not always at the last, and stays so when other nodes write and when the engine feeds it entries.
\<close>

definition call_outcome :: "'x + 'r \<Rightarrow> kv list \<Rightarrow> kv list \<Rightarrow> (kv \<Rightarrow> kv) \<Rightarrow> bool" where
  "call_outcome r old new f \<longleftrightarrow> new = old @ [f (last old)] \<or> (\<exists>e. r = Inl e) \<and> new = old"

locale replicated_client = lmdb L V
  for L :: "('e, 't) lmdb_api" and V :: "('e, 't) lmdb_view" +
  fixes A :: "nat \<Rightarrow> ('g, 'e) client_api" and commits :: "'g \<Rightarrow> kv list"
    and follows :: "'g \<Rightarrow> 'e state_machine \<Rightarrow> bool" and feed :: "'g \<Rightarrow> 'e state_machine \<Rightarrow> nat \<Rightarrow> apply_entry list"
  assumes seen: "follows g s \<Longrightarrow> kv_of V s \<in> set (commits g)"
    and put_call: "c_put (A j) k b (g, s) = (r, g', s') \<Longrightarrow> follows g s \<Longrightarrow>
      follows g' s' \<and> (\<forall>t. follows g t \<longrightarrow> follows g' t) \<and> call_outcome r (commits g) (commits g') (\<lambda>m. m(k \<mapsto> b))"
    and delete_call: "c_delete (A j) k (g, s) = (r, g', s') \<Longrightarrow> follows g s \<Longrightarrow>
      follows g' s' \<and> (\<forall>t. follows g t \<longrightarrow> follows g' t) \<and> call_outcome r (commits g) (commits g') (\<lambda>m. m(k := None))"
    and linearizable_call: "c_get_linearizable (A j) k (g, s) = (v, g', s') \<Longrightarrow> follows g s \<Longrightarrow>
      follows g' s' \<and> (\<forall>t. follows g t \<longrightarrow> follows g' t) \<and> commits g' = commits g \<and>
      (\<forall>w. v = Inr w \<longrightarrow> w = last (commits g) k)"
    and lease_call: "c_get_lease (A j) k (g, s) = (v, g', s') \<Longrightarrow> follows g s \<Longrightarrow>
      follows g' s' \<and> (\<forall>t. follows g t \<longrightarrow> follows g' t) \<and> commits g' = commits g \<and>
      (\<forall>w. v = Inr w \<longrightarrow> w = last (commits g) k)"
    and fed: "apply_chunk L (feed g s m) s = (x, s') \<Longrightarrow> follows g s \<Longrightarrow> follows g s'"

text \<open>A write of the API, a put or a delete, as a call of the client.\<close>

definition write_call :: "('g, 'e) client_api \<Rightarrow> bytes \<Rightarrow> bytes option \<Rightarrow> ('g, 'e, unit) client_op" where
  "write_call A k w = (case w of None \<Rightarrow> c_delete A k | Some v \<Rightarrow> c_put A k (encode_raw v))"

context replicated_client
begin

lemma write_outcome:
  assumes "via_client (write_call (A j) k w) n = (r, n')" and "follows (inner n) (node_sm n)"
  shows "follows (inner n') (node_sm n') \<and> (\<forall>t. follows (inner n) t \<longrightarrow> follows (inner n') t) \<and> limits n' = limits n \<and>
    call_outcome r (commits (inner n)) (commits (inner n')) (\<lambda>m. m(k := map_option encode_raw w)) \<and>
    (\<forall>e. r = Inl e \<longrightarrow> (\<exists>x. e = Client x))"
proof -
  obtain r0 g s where call: "write_call (A j) k w (inner n, node_sm n) = (r0, g, s)"
    and n': "n' = n\<lparr>inner := g, node_sm := s\<rparr>" and r: "r = map_err Client r0"
    using assms(1) by (auto simp: via_client_def split: prod.splits)
  have "follows g s \<and> (\<forall>t. follows (inner n) t \<longrightarrow> follows g t) \<and>
    call_outcome r0 (commits (inner n)) (commits g) (\<lambda>m. m(k := map_option encode_raw w))"
  proof (cases w)
    case None
    then show ?thesis using delete_call [of j k "inner n" "node_sm n"] call assms(2) by (simp add: write_call_def)
  next
    case (Some v)
    then show ?thesis using put_call [of j k "encode_raw v" "inner n" "node_sm n"] call assms(2) by (simp add: write_call_def)
  qed
  then show ?thesis using n' r by (cases r0) (simp_all add: call_outcome_def limits_def)
qed

lemma fetch_outcome:
  assumes "fetch_at L (A j) level key n = (r, n')" and "follows (inner n) (node_sm n)"
  shows "follows (inner n') (node_sm n') \<and> (\<forall>t. follows (inner n) t \<longrightarrow> follows (inner n') t) \<and> limits n' = limits n \<and>
    commits (inner n') = commits (inner n) \<and>
    (\<forall>raw. r = Inr raw \<longrightarrow> (if level = Eventual then \<exists>m \<in> set (commits (inner n)). raw = m key
      else raw = last (commits (inner n)) key)) \<and>
    (\<forall>e. r = Inl e \<longrightarrow> (\<exists>x. e = Client x) \<or> (\<exists>x. e = EngineErr x))"
proof (cases level)
  case Eventual
  have "\<exists>m \<in> set (commits (inner n)). raw = m key" if "r = Inr raw" for raw
    using assms(1) Eventual that seen [OF assms(2)] sm_get_sound [of "node_sm n" key raw]
    by (auto simp: fetch_at_def map_err_eq_Inr)
  moreover have "n' = n" "\<forall>e. r = Inl e \<longrightarrow> (\<exists>x. e = EngineErr x)"
    using assms(1) Eventual by (auto simp: fetch_at_def map_err_def split: sum.splits)
  ultimately show ?thesis using Eventual assms(2) by simp
next
  case Linearizable
  obtain r0 g s where call: "c_get_linearizable (A j) key (inner n, node_sm n) = (r0, g, s)"
    and n': "n' = n\<lparr>inner := g, node_sm := s\<rparr>" and r: "r = map_err Client r0"
    using assms(1) Linearizable by (auto simp: fetch_at_def via_client_def split: prod.splits)
  show ?thesis using linearizable_call [OF call assms(2)] n' r Linearizable by (cases r0) (simp_all add: limits_def)
next
  case Lease
  obtain r0 g s where call: "c_get_lease (A j) key (inner n, node_sm n) = (r0, g, s)"
    and n': "n' = n\<lparr>inner := g, node_sm := s\<rparr>" and r: "r = map_err Client r0"
    using assms(1) Lease by (auto simp: fetch_at_def via_client_def split: prod.splits)
  show ?thesis using lease_call [OF call assms(2)] n' r Lease by (cases r0) (simp_all add: limits_def)
qed

end


section \<open>The steps against the plain map\<close>

lemma spec_read:
  assumes "read_target n rq = Some (key, level)" and "limits n = (max_key, max_value, d)"
    and "limit = (max_value + 1024) mod 2 ^ 64" and "reads_text rt"
  shows "spec_app X limit max_key max_value leads leader mb rq m =
    (outgoing rt rq (read_response (context_of X rq) (Inr (m key))), m)"
proof -
  have limit: "limit = body_limit n" using body_limit_limits [OF assms(2)] assms(3) by simp
  obtain segment where target: "\<not> body_limit n < length (rq_body rq)" "rq_method rq = GET \<or> rq_method rq = HEAD"
    "rq_route rq = KvRoute segment" "valid_key segment = Inr key" "parse_level (rq_level rq) = Some level"
    using assms(1) by (auto simp: read_target_def split: if_splits route.splits sum.splits)
  then show ?thesis
    using assms(4)
    by (cases "m key") (auto simp: spec_app_def limit spec_kv_def read_response_def outgoing_def normalize_simps
      json_error_def not_found_def status_defs)
qed

lemma decode_plain:
  assumes "0 \<le> clock"
  shows "decode_and_reap L clock key (map_option encode_raw v) n = Return (Inr v, n)"
  using assms by (cases v) (simp_all add: decode_and_reap_def unix_now_ok decode_live_value_def)

text \<open>A request that does not read the store is answered without it, or is one write.\<close>

lemma app_other:
  fixes E :: "('g, 'e, 'l) engine_api"
  assumes "read_target n rq = None" and "reads_text rt" and "steady E leads leader mb"
  shows "(\<exists>r. app L A E X rt rq n = Return (r, n) \<and>
      (\<forall>m. spec_app X (body_limit n) (node_max_key n) (node_max_value n) leads leader mb rq m = (r, m))) \<or>
    (\<exists>k w. app L A E X rt rq n = Return (case via_client (write_call A k w) n of (r, n') \<Rightarrow>
        (case r of Inl e \<Rightarrow> outgoing rt rq (failed (context_of X rq) e) | Inr _ \<Rightarrow> status_only 204, n')) \<and>
      (\<forall>m. spec_app X (body_limit n) (node_max_key n) (node_max_value n) leads leader mb rq m = (status_only 204, m(k := w))))"
proof (cases "body_limit n < length (rq_body rq)")
  case True
  then show ?thesis using assms(2) by (simp add: app_def spec_app_def normalize_simps)
next
  case False
  show ?thesis
  proof (cases "rq_route rq")
    case (KvRoute segment)
    consider (bad) "rq_method rq = OtherMethod \<or> (\<exists>x. valid_key segment = Inl x)"
      | (level) key where "valid_key segment = Inr key" "rq_method rq = GET \<or> rq_method rq = HEAD" "parse_level (rq_level rq) = None"
      | (put) key where "valid_key segment = Inr key" "rq_method rq = PUT"
      | (delete) key where "valid_key segment = Inr key" "rq_method rq = DELETE"
      using assms(1) False KvRoute by (cases "rq_method rq"; cases "valid_key segment") (auto simp: read_target_def)
    then show ?thesis
    proof cases
      case bad
      then show ?thesis
        using assms(2) False KvRoute valid_key_status [of segment]
        by (cases "rq_method rq") (auto simp: app_def spec_app_def kv_route_def get_handler_def put_handler_def
          delete_handler_def spec_kv_def normalize_simps METHOD_NOT_ALLOWED_def Let_def)
    next
      case level
      then show ?thesis
        using assms(2) False KvRoute
        by (auto simp: app_def spec_app_def kv_route_def get_handler_def spec_kv_def normalize_simps status_defs Let_def)
    next
      case put
      consider "cx_body_limit X < length (rq_body rq)"
        | "\<not> cx_body_limit X < length (rq_body rq)" "node_max_key n < length key"
        | "\<not> cx_body_limit X < length (rq_body rq)" "\<not> node_max_key n < length key" "node_max_value n < length (rq_body rq)"
        | "\<not> cx_body_limit X < length (rq_body rq)" "\<not> node_max_key n < length key" "\<not> node_max_value n < length (rq_body rq)"
        by blast
      then show ?thesis
      proof cases
        case 4
        then show ?thesis
          using put False KvRoute
          by (intro disjI2 exI [of _ key] exI [of _ "Some (rq_body rq)"])
            (auto simp: app_def spec_app_def kv_route_def put_handler_def node_put_def check_sizes_def validate_key_def
              validate_value_def spec_kv_def normalize_simps status_defs write_call_def outgoing_def context_of_def
              strip_head_def Let_def split: prod.splits sum.splits)
      qed (use put assms(2) False KvRoute in \<open>auto simp: app_def spec_app_def kv_route_def PAYLOAD_TOO_LARGE_def put_handler_def
          node_put_def check_sizes_def validate_key_def validate_value_def failed_def spec_kv_def normalize_simps
          json_error_def status_defs Let_def\<close>)
    next
      case delete
      then show ?thesis
        using False KvRoute
        by (intro disjI2 exI [of _ key] exI [of _ None])
          (auto simp: app_def spec_app_def kv_route_def delete_handler_def node_delete_def spec_kv_def normalize_simps
            status_defs write_call_def outgoing_def context_of_def strip_head_def Let_def split: prod.splits sum.splits)
    qed
  qed (use assms(2,3) False in \<open>simp_all add: app_def spec_app_def Let_def health_refines [OF assms(3,2)]\<close>)
qed


section \<open>The invariant\<close>

text \<open>
  The current contents of the cluster are what the requests linearized so far left in the plain map, and
  the earlier ones what the beginnings of the linearization left. A task that has not
  started is not linearized yet; one that has fetched a value, or has finished, has its response justified.
\<close>

definition task_inv ::
  "('g, 'e, 't, 'l) surroundings \<Rightarrow> (nat \<Rightarrow> ('g, 'e) node) \<Rightarrow> (query \<Rightarrow> kv \<Rightarrow> 'l response \<times> kv) \<Rightarrow> kv \<Rightarrow>
   'l event list \<Rightarrow> 'l linearization \<Rightarrow> nat \<Rightarrow> 'l task \<Rightarrow> bool" where
  "task_inv S n0 ans m0 h lin i task \<longleftrightarrow>
    (case task of
       Invoked j rq \<Rightarrow> Invoke i (j, rq) \<in> set h \<and> i \<notin> fst ` set lin
     | Fetched j rq key raw \<Rightarrow> Invoke i (j, rq) \<in> set h \<and>
         (\<exists>v. raw = map_option encode_raw v \<and> justified S n0 ans m0 h lin i (j, rq) (read_answer S (j, rq) (Inr v)))
     | Finished r \<Rightarrow> \<exists>q. Invoke i q \<in> set h \<and> justified S n0 ans m0 h lin i q r)"

definition history_inv ::
  "('g, 'e, 't, 'l) surroundings \<Rightarrow> (nat \<Rightarrow> ('g, 'e) node) \<Rightarrow> (query \<Rightarrow> kv \<Rightarrow> 'l response \<times> kv) \<Rightarrow> kv \<Rightarrow>
   (nat \<rightharpoonup> 'l task) \<Rightarrow> 'l event list \<Rightarrow> 'l linearization \<Rightarrow> bool" where
  "history_inv S n0 ans m0 tasks h lin \<longleftrightarrow>
     linearizes (\<lambda>qs. fst (serve_all ans qs m0)) h lin \<and>
     (\<forall>i task. tasks i = Some task \<longrightarrow> task_inv S n0 ans m0 h lin i task \<and> (\<forall>r. Respond i r \<notin> set h)) \<and>
     (\<forall>i r. Respond i r \<in> set h \<longrightarrow> (\<exists>q. Invoke i q \<in> set h \<and> justified S n0 ans m0 h lin i q r))"

definition store_inv ::
  "('g \<Rightarrow> kv list) \<Rightarrow> ('g \<Rightarrow> 'e state_machine \<Rightarrow> bool) \<Rightarrow> (nat \<Rightarrow> ('g, 'e) node) \<Rightarrow> (query \<Rightarrow> kv \<Rightarrow> 'l response \<times> kv) \<Rightarrow>
   kv \<Rightarrow> 'g \<Rightarrow> (nat \<Rightarrow> ('g, 'e) node) \<Rightarrow> 'l linearization \<Rightarrow> bool" where
  "store_inv commits follows n0 ans m0 g nodes lin \<longleftrightarrow>
     last (commits g) = plain_store (map_after ans m0 lin) \<and>
     (\<forall>m \<in> set (commits g). \<exists>p rest. lin = p @ rest \<and> m = plain_store (map_after ans m0 p)) \<and>
     (\<forall>j. follows g (node_sm (nodes j)) \<and> limits (nodes j) = limits (n0 j))"

lemma history_invD:
  assumes "history_inv S n0 ans m0 tasks h lin"
  shows "linearizes (\<lambda>qs. fst (serve_all ans qs m0)) h lin"
    and "tasks i = Some task \<Longrightarrow> task_inv S n0 ans m0 h lin i task"
    and "tasks i = Some task \<Longrightarrow> Respond i r \<notin> set h"
    and "Respond i r \<in> set h \<Longrightarrow> \<exists>q. Invoke i q \<in> set h \<and> justified S n0 ans m0 h lin i q r"
  using assms unfolding history_inv_def by blast+

lemma task_inv_longer:
  "task_inv S n0 ans m0 h lin i task \<Longrightarrow> i \<noteq> fst x \<Longrightarrow> task_inv S n0 ans m0 h (lin @ [x]) i task"
  by (cases task; fastforce simp: task_inv_def intro: justified_longer)

lemma history_inv_extend:
  assumes inv: "history_inv S n0 ans m0 tasks h lin" and i: "tasks i = Some (Invoked j rq)"
    and own: "task_inv S n0 ans m0 h (lin @ [(i, (j, rq), fst (ans (j, rq) (map_after ans m0 lin)))]) i task'"
  shows "history_inv S n0 ans m0 (tasks(i \<mapsto> task')) h (lin @ [(i, (j, rq), fst (ans (j, rq) (map_after ans m0 lin)))])"
proof -
  let ?x = "(i, (j, rq), fst (ans (j, rq) (map_after ans m0 lin)))"
  have made: "Invoke i (j, rq) \<in> set h" "i \<notin> fst ` set lin"
    using history_invD(2) [OF inv i] by (simp_all add: task_inv_def)
  have "linearizes (\<lambda>qs. fst (serve_all ans qs m0)) h (lin @ [?x])"
    using linearizes_extend [OF history_invD(1) [OF inv] made history_invD(3) [OF inv i]]
      linearizesD(3) [OF history_invD(1) [OF inv]]
    by (simp add: serve_all_snoc map_after_def)
  moreover have "task_inv S n0 ans m0 h (lin @ [?x]) k task" if "(tasks(i \<mapsto> task')) k = Some task" for k task
    using that own task_inv_longer [OF history_invD(2) [OF inv], of k task ?x] by (cases "k = i") auto
  moreover have "Respond k r \<notin> set h" if "(tasks(i \<mapsto> task')) k = Some task" for k task r
    using that history_invD(3) [OF inv] i by (cases "k = i") auto
  moreover have "\<exists>q. Invoke k q \<in> set h \<and> justified S n0 ans m0 h (lin @ [?x]) k q r" if "Respond k r \<in> set h" for k r
    using history_invD(4) [OF inv that] justified_longer by blast
  ultimately show ?thesis unfolding history_inv_def by blast
qed

lemma history_inv_keep:
  assumes inv: "history_inv S n0 ans m0 tasks h lin" and i: "tasks i = Some task"
    and own: "task_inv S n0 ans m0 h lin i task'"
  shows "history_inv S n0 ans m0 (tasks(i \<mapsto> task')) h lin"
proof -
  have "Respond k r \<notin> set h" if "(tasks(i \<mapsto> task')) k = Some t" for k t r
    using that history_invD(3) [OF inv] i by (cases "k = i") auto
  then show ?thesis using inv own by (simp add: history_inv_def)
qed

lemma history_inv_invoke:
  assumes inv: "history_inv S n0 ans m0 tasks h lin" and new: "\<forall>q. Invoke i q \<notin> set h"
  shows "history_inv S n0 ans m0 (tasks(i \<mapsto> Invoked j rq)) (h @ [Invoke i (j, rq)]) lin"
proof -
  let ?h = "h @ [Invoke i (j, rq)]"
  have fresh: "i \<notin> fst ` set lin" using new linearizesD(2) [OF history_invD(1) [OF inv]] by fastforce
  have "linearizes (\<lambda>qs. fst (serve_all ans qs m0)) ?h lin"
    by (rule linearizes_invoke [OF history_invD(1) [OF inv] fresh])
  moreover have "task_inv S n0 ans m0 ?h lin k task \<and> (\<forall>r. Respond k r \<notin> set ?h)"
    if "(tasks(i \<mapsto> Invoked j rq)) k = Some task" for k task
  proof (cases "k = i")
    case True
    have "Respond i r \<notin> set h" for r using new history_invD(4) [OF inv] by blast
    then show ?thesis using True that fresh by (auto simp: task_inv_def)
  next
    case False
    then have k: "tasks k = Some task" using that by simp
    have "task_inv S n0 ans m0 ?h lin k task"
      using history_invD(2) [OF inv k] by (cases task; fastforce simp: task_inv_def intro: justified_invoke [OF _ fresh])
    then show ?thesis using history_invD(3) [OF inv k] by simp
  qed
  moreover have "\<exists>q. Invoke k q \<in> set ?h \<and> justified S n0 ans m0 ?h lin k q r" if "Respond k r \<in> set ?h" for k r
    using history_invD(4) [OF inv, of k r] that justified_invoke [OF _ fresh] by fastforce
  ultimately show ?thesis unfolding history_inv_def by blast
qed

lemma history_inv_respond:
  assumes inv: "history_inv S n0 ans m0 tasks h lin" and i: "tasks i = Some (Finished r)"
  shows "history_inv S n0 ans m0 (tasks(i := None)) (h @ [Respond i r]) lin"
proof -
  let ?h = "h @ [Respond i r]"
  have "linearizes (\<lambda>qs. fst (serve_all ans qs m0)) ?h lin"
    by (rule linearizes_respond [OF history_invD(1) [OF inv]])
  moreover have "task_inv S n0 ans m0 ?h lin k task \<and> (\<forall>r. Respond k r \<notin> set ?h)"
    if "(tasks(i := None)) k = Some task" for k task
  proof -
    have k: "tasks k = Some task" "k \<noteq> i" using that by (auto split: if_splits)
    have "task_inv S n0 ans m0 ?h lin k task"
      using history_invD(2) [OF inv k(1)] justified_respond by (cases task) (fastforce simp: task_inv_def)+
    then show ?thesis using history_invD(3) [OF inv k(1)] k(2) by simp
  qed
  moreover have "\<exists>q. Invoke k q \<in> set ?h \<and> justified S n0 ans m0 ?h lin k q a" if "Respond k a \<in> set ?h" for k a
  proof (cases "Respond k a \<in> set h")
    case True
    then show ?thesis using history_invD(4) [OF inv] justified_respond by fastforce
  next
    case False
    then have "k = i" "a = r" using that by auto
    then show ?thesis using history_invD(2) [OF inv i] justified_respond by (fastforce simp: task_inv_def)
  qed
  ultimately show ?thesis unfolding history_inv_def by blast
qed

text \<open>The store after a call: other nodes still follow, and the contents are the old ones or one more.\<close>

lemma store_inv_same:
  assumes "store_inv commits follows n0 ans m0 g nodes lin" and "commits g' = commits g"
    and "follows g' (node_sm n)" and "\<forall>t. follows g t \<longrightarrow> follows g' t" and "limits n = limits (n0 j)"
    and "map_after ans m0 (lin @ xs) = map_after ans m0 lin"
  shows "store_inv commits follows n0 ans m0 g' (nodes(j := n)) (lin @ xs)"
  using assms unfolding store_inv_def by fastforce

lemma store_inv_more:
  assumes "store_inv commits follows n0 ans m0 g nodes lin"
    and "commits g' = commits g @ [plain_store (map_after ans m0 (lin @ [x]))]"
    and "follows g' (node_sm n)" and "\<forall>t. follows g t \<longrightarrow> follows g' t" and "limits n = limits (n0 j)"
  shows "store_inv commits follows n0 ans m0 g' (nodes(j := n)) (lin @ [x])"
proof -
  have "\<exists>p rest. lin @ [x] = p @ rest \<and> m = plain_store (map_after ans m0 p)" if "m \<in> set (commits g')" for m
  proof (cases "m \<in> set (commits g)")
    case True
    then obtain p rest where "lin = p @ rest" "m = plain_store (map_after ans m0 p)"
      using assms(1) unfolding store_inv_def by blast
    then show ?thesis by (intro exI [of _ p] exI [of _ "rest @ [x]"]) simp
  next
    case False
    then have "m = plain_store (map_after ans m0 (lin @ [x]))" using that assms(2) by simp
    then show ?thesis by (intro exI [of _ "lin @ [x]"] exI [of _ "[]"]) simp
  qed
  then show ?thesis using assms unfolding store_inv_def by simp
qed


section \<open>The service\<close>

text \<open>Servers on the nodes of a cluster with steady leadership that starts from values without TTL.\<close>

locale cluster_service = replicated_client "sv_lmdb S" V "sv_client S" commits follows "sv_feed S"
  for S :: "('g, 'e, 't, 'l) surroundings" and V :: "('e, 't) lmdb_view" and commits :: "'g \<Rightarrow> kv list"
    and follows :: "'g \<Rightarrow> 'e state_machine \<Rightarrow> bool" +
  fixes leads :: "nat \<Rightarrow> bool" and leader :: "nat \<Rightarrow> 'l option" and mb :: "nat \<Rightarrow> membership"
    and g0 :: 'g and n0 :: "nat \<Rightarrow> ('g, 'e) node" and m0 :: kv
  assumes steady: "steady (sv_engine S j) (leads j) (leader j) (mb j)" and reads: "reads_text (sv_read_text S)"
    and begin_commits: "commits g0 = [plain_store m0]" and begin_follows: "follows g0 (node_sm (n0 j))"
begin

abbreviation ans :: "query \<Rightarrow> kv \<Rightarrow> 'l response \<times> kv" where
  "ans \<equiv> map_answer S n0 leads leader mb"

abbreviation hist :: "(nat \<rightharpoonup> 'l task) \<Rightarrow> 'l event list \<Rightarrow> 'l linearization \<Rightarrow> bool" where
  "hist \<equiv> history_inv S n0 ans m0"

abbreviation stored :: "'g \<Rightarrow> (nat \<Rightarrow> ('g, 'e) node) \<Rightarrow> 'l linearization \<Rightarrow> bool" where
  "stored \<equiv> store_inv commits follows n0 ans m0"

abbreviation inv :: "('g, 'e, 'l) live_servers \<Rightarrow> 'l linearization \<Rightarrow> bool" where
  "inv c lin \<equiv> hist (lv_tasks c) (lv_history c) lin \<and> stored (lv_shared c) (lv_node c) lin"

abbreviation served :: "('g, 'e, 'l) live_servers \<Rightarrow> bool" where
  "served c \<equiv> \<forall>i j rq. Invoke i (j, rq) \<in> set (lv_history c) \<longrightarrow> 0 \<le> rq_clock rq"

lemma storedD:
  assumes "inv c lin"
  shows "follows (lv_shared c) (node_sm (lv_node c j))" and "limits (node_at j c) = limits (n0 j)"
    and "last (commits (lv_shared c)) = plain_store (map_after ans m0 lin)"
    and "m \<in> set (commits (lv_shared c)) \<Longrightarrow> \<exists>p rest. lin = p @ rest \<and> m = plain_store (map_after ans m0 p)"
  using assms unfolding store_inv_def by simp_all

lemma limits_eq:
  "limits n = limits (n0 j) \<Longrightarrow> body_limit n = body_limit (n0 j) \<and> node_max_key n = node_max_key (n0 j) \<and>
    node_max_value n = node_max_value (n0 j) \<and> read_target n rq = read_target (n0 j) rq"
  by (simp add: limits_def read_target_def body_limit_def max_value_bytes_of_def)

lemma read_ans:
  assumes "read_target (n0 j) rq = Some (key, level)"
  shows "ans (j, rq) m = (read_answer S (j, rq) (Inr (m key)), m)"
  using spec_read [OF assms _ _ reads] body_limit_limits [of "n0 j"]
  by (simp add: map_answer_def read_answer_def limits_def)

text \<open>Each kind of progress of a task.\<close>

lemma handled_inv:
  assumes inv: "inv c lin" and i: "lv_tasks c i = Some (Invoked j rq)" and target: "read_target (node_at j c) rq = None"
    and run: "app (sv_lmdb S) (sv_client S j) (sv_engine S j) (sv_context S j) (sv_read_text S) rq (node_at j c) = Return (r, n)"
  shows "\<exists>lin'. inv (put_task i (Some (Finished r)) (put_node j n c)) lin'"
proof -
  let ?m = "map_after ans m0 lin" and ?q = "(j, rq)"
  let ?x = "(i, ?q, fst (ans ?q ?m))"
  have hist: "hist (lv_tasks c) (lv_history c) lin" and st: "stored (lv_shared c) (lv_node c) lin" using inv by simp_all
  have made: "Invoke i ?q \<in> set (lv_history c)" using history_invD(2) [OF hist i] by (simp add: task_inv_def)
  note lims = limits_eq [OF storedD(2) [OF inv, of j], of rq]
  have later: "\<not> eventual_get n0 ?q" using target lims by (simp add: eventual_get_def)
  have right: "task_inv S n0 ans m0 (lv_history c) (lin @ [?x]) i (Finished (fst (ans ?q ?m)))"
    using made later by (auto simp: task_inv_def justified_def intro!: exI [of _ j] exI [of _ rq])
  have fol: "follows (inner (node_at j c)) (node_sm (node_at j c))" using storedD(1) [OF inv] by simp
  let ?app = "app (sv_lmdb S) (sv_client S j) (sv_engine S j) (sv_context S j) (sv_read_text S) rq (node_at j c)"
  have spec: "ans ?q m = spec_app (sv_context S j) (body_limit (node_at j c)) (node_max_key (node_at j c))
      (node_max_value (node_at j c)) (leads j) (leader j) (mb j) rq m" for m
    using lims by (simp add: map_answer_def)
  consider (plain) "r = fst (ans ?q ?m)" "n = node_at j c" "snd (ans ?q ?m) = ?m"
    | (change) k w x where "via_client (write_call (sv_client S j) k w) (node_at j c) = (x, n)"
      "r = (case x of Inl e \<Rightarrow> read_answer S ?q (Inl e) | Inr _ \<Rightarrow> status_only 204)"
      "\<And>m. ans ?q m = (status_only 204, m(k := w))"
    using app_other [OF target reads steady [of j], of "sv_lmdb S" "sv_client S j" "sv_context S j", folded spec]
  proof (elim disjE exE conjE)
    fix r0
    assume "?app = Return (r0, node_at j c)" and "\<forall>m. ans ?q m = (r0, m)"
    then show thesis using run that(1) by simp
  next
    fix k w
    assume app: "?app = Return (case via_client (write_call (sv_client S j) k w) (node_at j c) of (r, n') \<Rightarrow>
        (case r of Inl e \<Rightarrow> outgoing (sv_read_text S) rq (failed (context_of (sv_context S j) rq) e) | Inr _ \<Rightarrow> status_only 204, n'))"
      and ans: "\<forall>m. ans ?q m = (status_only 204, m(k := w))"
    obtain x n1 where call: "via_client (write_call (sv_client S j) k w) (node_at j c) = (x, n1)" by fastforce
    show thesis
      using that(2) [of k w x] app ans call run
      by (cases x) (simp_all add: read_answer_def read_response_def)
  qed
  then show ?thesis
  proof cases
    case plain
    have "stored (lv_shared c) ((lv_node c)(j := n)) (lin @ [?x])"
      by (rule store_inv_same [OF st]) (use plain storedD(1,2) [OF inv] in simp_all)
    then have "inv (put_task i (Some (Finished r)) (put_node j n c)) (lin @ [?x])"
      using history_inv_extend [OF hist i right] plain by simp
    then show ?thesis ..
  next
    case change
    note out = write_outcome [OF change(1) fol]
    have more: "plain_store (map_after ans m0 (lin @ [?x])) = (last (commits (lv_shared c)))(k := map_option encode_raw w)"
      using storedD(3) [OF inv] change(3) by (cases w) simp_all
    have lim: "limits n = limits (n0 j)" using out storedD(2) [OF inv, of j] by simp
    show ?thesis
    proof (cases "commits (inner n) = commits (lv_shared c) @ [plain_store (map_after ans m0 (lin @ [?x]))]")
      case True
      have "stored (inner n) ((lv_node c)(j := n)) (lin @ [?x])"
        by (rule store_inv_more [where g = "lv_shared c", OF st True]) (use out lim in simp_all)
      moreover have "task_inv S n0 ans m0 (lv_history c) (lin @ [?x]) i (Finished r)"
      proof (cases x)
        case (Inl e)
        then have "refused S ?q r" using change(2) out by (auto simp: refused_def)
        then show ?thesis using made by (auto simp: task_inv_def justified_def)
      qed (use right change(2,3) in simp)
      ultimately have "inv (put_task i (Some (Finished r)) (put_node j n c)) (lin @ [?x])"
        using history_inv_extend [OF hist i] by simp
      then show ?thesis ..
    next
      case False
      then obtain e where e: "x = Inl e" "commits (inner n) = commits (lv_shared c)"
        using out more by (auto simp: call_outcome_def)
      then have "refused S ?q r" using change(2) out by (auto simp: refused_def)
      then have own: "task_inv S n0 ans m0 (lv_history c) lin i (Finished r)"
        using made by (auto simp: task_inv_def justified_def)
      have "stored (inner n) ((lv_node c)(j := n)) (lin @ [])"
        by (rule store_inv_same [where g = "lv_shared c", OF st e(2)]) (use out lim in simp_all)
      then have "inv (put_task i (Some (Finished r)) (put_node j n c)) lin"
        using history_inv_keep [OF hist i own] by simp
      then show ?thesis ..
    qed
  qed
qed

lemma fetched_inv:
  assumes inv: "inv c lin" and i: "lv_tasks c i = Some (Invoked j rq)"
    and target: "read_target (node_at j c) rq = Some (key, level)"
    and run: "fetch_at (sv_lmdb S) (sv_client S j) level key (node_at j c) = (Inr raw, n)"
  shows "\<exists>lin'. inv (put_task i (Some (Fetched j rq key raw)) (put_node j n c)) lin'"
proof -
  let ?m = "map_after ans m0 lin" and ?q = "(j, rq)"
  have hist: "hist (lv_tasks c) (lv_history c) lin" and st: "stored (lv_shared c) (lv_node c) lin" using inv by simp_all
  have made: "Invoke i ?q \<in> set (lv_history c)" using history_invD(2) [OF hist i] by (simp add: task_inv_def)
  have target0: "read_target (n0 j) rq = Some (key, level)"
    using target limits_eq [OF storedD(2) [OF inv, of j], of rq] by simp
  have fol: "follows (inner (node_at j c)) (node_sm (node_at j c))" using storedD(1) [OF inv] by simp
  note out = fetch_outcome [OF run fol]
  have lim: "limits n = limits (n0 j)" using out storedD(2) [OF inv, of j] by simp
  have same: "map_after ans m0 (lin @ xs) = map_after ans m0 lin \<Longrightarrow>
      stored (inner n) ((lv_node c)(j := n)) (lin @ xs)" for xs
    by (rule store_inv_same [where g = "lv_shared c", OF st]) (use out lim in simp_all)
  show ?thesis
  proof (cases "level = Eventual")
    case True
    then obtain m where m: "m \<in> set (commits (lv_shared c))" "raw = m key" using out by auto
    then obtain p rest where p: "lin = p @ rest" "m = plain_store (map_after ans m0 p)" using storedD(4) [OF inv] by blast
    have unanswered: "\<not> precedes (lv_history c) i k" for k
      using precedes_answered history_invD(3) [OF hist i] by blast
    have "reads_earlier ans m0 (lv_history c) lin i ?q (read_answer S ?q (Inr (map_after ans m0 p key)))"
      unfolding reads_earlier_def using p(1) read_ans [OF target0] unanswered
      by (intro exI [of _ p] exI [of _ rest]) simp
    moreover have "eventual_get n0 ?q" using target0 True by (simp add: eventual_get_def)
    ultimately have "task_inv S n0 ans m0 (lv_history c) lin i (Fetched j rq key raw)"
      using made m(2) p(2) by (auto simp: task_inv_def justified_def plain_store_def)
    from history_inv_keep [OF hist i this] same [of "[]"] show ?thesis by (intro exI [of _ lin]) simp
  next
    case False
    let ?x = "(i, ?q, fst (ans ?q ?m))"
    have "raw = map_option encode_raw (?m key)" using out False storedD(3) [OF inv] by (simp add: plain_store_def)
    moreover have "\<not> eventual_get n0 ?q" using target0 False by (simp add: eventual_get_def)
    ultimately have "task_inv S n0 ans m0 (lv_history c) (lin @ [?x]) i (Fetched j rq key raw)"
      using made read_ans [OF target0] by (auto simp: task_inv_def justified_def)
    from history_inv_extend [OF hist i this] same [of "[?x]"] read_ans [OF target0, of ?m] show ?thesis
      by (intro exI [of _ "lin @ [?x]"]) simp
  qed
qed

lemma fetch_failed_inv:
  assumes inv: "inv c lin" and i: "lv_tasks c i = Some (Invoked j rq)"
    and run: "fetch_at (sv_lmdb S) (sv_client S j) level key (node_at j c) = (Inl e, n)"
  shows "inv (put_task i (Some (Finished (read_answer S (j, rq) (Inl e)))) (put_node j n c)) lin"
proof -
  have hist: "hist (lv_tasks c) (lv_history c) lin" and st: "stored (lv_shared c) (lv_node c) lin" using inv by simp_all
  have fol: "follows (inner (node_at j c)) (node_sm (node_at j c))" using storedD(1) [OF inv] by simp
  note out = fetch_outcome [OF run fol]
  have "refused S (j, rq) (read_answer S (j, rq) (Inl e))" using out by (auto simp: refused_def)
  then have "task_inv S n0 ans m0 (lv_history c) lin i (Finished (read_answer S (j, rq) (Inl e)))"
    using history_invD(2) [OF hist i] by (auto simp: task_inv_def justified_def)
  moreover have "stored (inner n) ((lv_node c)(j := n)) (lin @ [])"
    by (rule store_inv_same [where g = "lv_shared c", OF st]) (use out storedD(2) [OF inv, of j] in simp_all)
  ultimately show ?thesis using history_inv_keep [OF hist i] by simp
qed

lemma decode_run:
  assumes "inv c lin" and "served c" and "lv_tasks c i = Some (Fetched j rq key raw)"
  shows "\<exists>v. decode_and_reap (sv_lmdb S) (rq_clock rq) key raw n = Return (Inr v, n) \<and>
    task_inv S n0 ans m0 (lv_history c) lin i (Finished (read_answer S (j, rq) (Inr v)))"
proof -
  have "task_inv S n0 ans m0 (lv_history c) lin i (Fetched j rq key raw)"
    using history_invD(2) [where tasks = "lv_tasks c", OF _ assms(3)] assms(1) by blast
  then obtain v where v: "Invoke i (j, rq) \<in> set (lv_history c)" "raw = map_option encode_raw v"
    "justified S n0 ans m0 (lv_history c) lin i (j, rq) (read_answer S (j, rq) (Inr v))"
    by (auto simp: task_inv_def)
  then have "0 \<le> rq_clock rq" using assms(2) by blast
  from decode_plain [OF this, of "sv_lmdb S" key v n] v show ?thesis by (auto simp: task_inv_def)
qed

lemma serve_step_inv:
  assumes "serve_step S c c'" and inv: "inv c lin" and "served c"
  shows "\<exists>lin'. inv c' lin'"
  using assms(1)
proof cases
  case (invoked i j rq)
  then show ?thesis using history_inv_invoke [OF conjunct1 [OF inv] invoked(2)] inv by (intro exI [of _ lin]) simp
next
  case (handled i j rq r n)
  then show ?thesis using handled_inv [OF inv] by blast
next
  case (fetched i j rq key level raw n)
  then show ?thesis using fetched_inv [OF inv] by blast
next
  case (fetch_failed i j rq key level e n)
  then show ?thesis using fetch_failed_inv [OF inv] by blast
next
  case (decoded i j rq key raw r n)
  obtain v where r: "r = Inr v" "n = node_at j c"
    "task_inv S n0 ans m0 (lv_history c) lin i (Finished (read_answer S (j, rq) (Inr v)))"
    using decode_run [OF inv assms(3) decoded(2), of "node_at j c"] decoded(3) by auto
  have "stored (lv_shared c) ((lv_node c)(j := n)) (lin @ [])"
    by (rule store_inv_same [OF conjunct2 [OF inv]]) (use r(2) storedD(1,2) [OF inv] in simp_all)
  then show ?thesis
    using history_inv_keep [OF conjunct1 [OF inv] decoded(2) r(3)] decoded(1) r(1,2) by (intro exI [of _ lin]) simp
next
  case (answered i r)
  then show ?thesis using history_inv_respond [OF conjunct1 [OF inv] answered(2)] inv by (intro exI [of _ lin]) simp
next
  case (replicated j m r s)
  have "follows (lv_shared c) s" using fed [OF replicated(2) storedD(1) [OF inv]] .
  moreover have "limits ((node_at j c)\<lparr>node_sm := s\<rparr>) = limits (n0 j)" using storedD(2) [OF inv, of j] by (simp add: limits_def)
  ultimately have "stored (lv_shared c) ((lv_node c)(j := (node_at j c)\<lparr>node_sm := s\<rparr>)) (lin @ [])"
    by (intro store_inv_same [OF conjunct2 [OF inv]]) simp_all
  then show ?thesis using inv replicated(1) by (intro exI [of _ lin]) simp
qed

lemma serve_reachable_inv: "serve_reachable S g0 n0 c \<Longrightarrow> served c \<Longrightarrow> \<exists>lin. inv c lin"
proof (induction rule: serve_reachable.induct)
  case idle
  have "linearizes (\<lambda>qs. fst (serve_all ans qs m0)) [] []" by (rule linearizesI) (simp_all add: precedes_def)
  then show ?case
    using begin_commits begin_follows
    by (intro exI [of _ "[]"]) (simp add: history_inv_def store_inv_def map_after_def)
next
  case (step c c')
  have "set (lv_history c) \<subseteq> set (lv_history c')" using step.hyps(2) by cases auto
  then have "served c" using step.prems by blast
  then show ?case using step.IH serve_step_inv [OF step.hyps(2)] by blast
qed

text \<open>No request is ever stuck: none panics, and none waits for another.\<close>

lemma serve_progress:
  assumes inv: "inv c lin" and "served c" and i: "lv_tasks c i = Some task"
  shows "\<exists>c'. serve_step S c c' \<and> lv_tasks c' i \<noteq> lv_tasks c i"
proof (cases task)
  case (Invoked j rq)
  then have i': "lv_tasks c i = Some (Invoked j rq)" using i by simp
  show ?thesis
  proof (cases "read_target (node_at j c) rq")
    case None
    obtain out where out: "app (sv_lmdb S) (sv_client S j) (sv_engine S j) (sv_context S j) (sv_read_text S) rq (node_at j c) =
      Return out"
      using app_other [OF None reads steady [of j], of "sv_lmdb S" "sv_client S j" "sv_context S j"] by blast
    obtain r n where "out = (r, n)" by (cases out)
    from serve_step.handled [OF i' None out [unfolded this]] show ?thesis using i' by fastforce
  next
    case (Some target)
    then obtain key level where target: "read_target (node_at j c) rq = Some (key, level)" by (cases target) simp
    obtain r n where run: "fetch_at (sv_lmdb S) (sv_client S j) level key (node_at j c) = (r, n)" by fastforce
    then show ?thesis
      using serve_step.fetched [OF i' target] serve_step.fetch_failed [OF i' target] i' by (cases r) fastforce+
  qed
next
  case (Fetched j rq key raw)
  then have i': "lv_tasks c i = Some (Fetched j rq key raw)" using i by simp
  from decode_run [OF inv assms(2) i'] serve_step.decoded [OF i'] show ?thesis using i' by fastforce
next
  case (Finished r)
  then show ?thesis using serve_step.answered [OF i [unfolded Finished]] i by (intro exI conjI) auto
qed

end


section \<open>A shared log\<close>

text \<open>
  An engine that keeps the promise: its state is the log of the cluster. The nodes \<open>leads\<close> take writes, append
  them and apply what they have not applied; the others refuse them. A linearizable or lease read
  applies what the node has not applied and then reads the store. A log has less than \<open>2 ^ 64\<close> entries.
\<close>

definition unapplied :: "apply_entry list \<Rightarrow> 'e state_machine \<Rightarrow> nat \<Rightarrow> apply_entry list" where
  "unapplied log s m = take m (drop (unat (last_applied_index s)) log)"

definition catch_up ::
  "('e, 't) lmdb_api \<Rightarrow> apply_entry list \<Rightarrow> 'e state_machine \<Rightarrow> (client_api_error + unit) \<times> 'e state_machine" where
  "catch_up L log s =
    (case apply_chunk L (unapplied log s (length log)) s of
       (Inl e, s') \<Rightarrow> (Inl (OtherClientError ''apply failed''), s')
     | (Inr rs, s') \<Rightarrow> (Inr (), s'))"

definition shared_write ::
  "('e, 't) lmdb_api \<Rightarrow> bool \<Rightarrow> command \<Rightarrow> (apply_entry list, 'e, unit) client_op" where
  "shared_write L leads cmd = (\<lambda>(log, s).
    if \<not> leads then (Inl (Network NotLeader ''not leader'' None None), log, s)
    else if 2 ^ 64 \<le> Suc (length log) then (Inl (OtherClientError ''log full''), log, s)
    else
      (let log' = log @ [\<lparr>entry_index = word_of_nat (Suc (length log)), entry_term = 1, entry_command = cmd\<rparr>];
           (r, s') = catch_up L log' s
       in (r, log', s')))"

definition shared_read ::
  "('e, 't) lmdb_api \<Rightarrow> bytes \<Rightarrow> (apply_entry list, 'e, bytes option) client_op" where
  "shared_read L k = (\<lambda>(log, s).
    (case catch_up L log s of
       (Inl e, s') \<Rightarrow> (Inl e, log, s')
     | (Inr _, s') \<Rightarrow> (map_err (\<lambda>_. OtherClientError ''read failed'') (sm_get L s' k), log, s')))"

definition shared_api :: "('e, 't) lmdb_api \<Rightarrow> bool \<Rightarrow> (apply_entry list, 'e) client_api" where
  "shared_api L leads =
    \<lparr>c_put = (\<lambda>k v. shared_write L leads (Insert k v None)),
     c_delete = (\<lambda>k. shared_write L leads (Delete k)),
     c_batch = (\<lambda>ops. shared_write L leads (Batch ops)),
     c_cas = (\<lambda>k x v (log, s). (Inl (OtherClientError ''not supported''), log, s)),
     c_get_linearizable = shared_read L,
     c_get_lease = shared_read L\<rparr>"

text \<open>The contents after each entry, and a node that has applied some beginning of the log.\<close>

definition log_commits :: "apply_entry list \<Rightarrow> kv list" where
  "log_commits log = map (\<lambda>i. log_contents (take i log)) [0..<Suc (length log)]"

definition applied_some :: "('e, 't) lmdb_view \<Rightarrow> apply_entry list \<Rightarrow> 'e state_machine \<Rightarrow> bool" where
  "applied_some V log s \<longleftrightarrow> log_indexed log \<and> unat (last_applied_index s) \<le> length log \<and>
     kv_of V s = log_contents (take (unat (last_applied_index s)) log)"

lemma last_log_commits [simp]: "last (log_commits log) = log_contents log"
  by (simp add: log_commits_def)

lemma log_commits_snoc: "log_commits (log @ [e]) = log_commits log @ [log_contents (log @ [e])]"
  by (simp add: log_commits_def)

lemma applied_some_snoc:
  "applied_some V log s \<Longrightarrow> Suc (length log) < 2 ^ 64 \<Longrightarrow> entry_index e = word_of_nat (Suc (length log)) \<Longrightarrow>
   applied_some V (log @ [e]) s"
  by (simp add: applied_some_def log_indexed_snoc)

context lmdb
begin

lemma unapplied_followed:
  assumes "apply_chunk L (unapplied log s m) s = (r, s')" and "applied_some V log s"
  shows "applied_some V log s' \<and>
    (\<forall>rs. r = Inr rs \<longrightarrow> length log \<le> m \<longrightarrow> unat (last_applied_index s') = length log)"
proof (cases r)
  case (Inl e)
  then obtain terms where "s' = s\<lparr>entry_terms := terms\<rparr>" using apply_chunk_error_frame assms(1) by blast
  then show ?thesis using assms(2) Inl by (simp add: applied_some_def kv_of_def)
next
  case (Inr rs)
  let ?a = "unat (last_applied_index s)" and ?chunk = "unapplied log s m"
  have old: "log_indexed log" "?a \<le> length log" "kv_of V s = log_contents (take ?a log)"
    using assms(2) by (simp_all add: applied_some_def)
  note run = assms(1) [unfolded Inr]
  have index: "unat (last_applied_index s') = ?a + length ?chunk"
    by (rule applied_position [OF run old(1,2)]) (simp add: unapplied_def)
  have "take (length ?chunk) (drop ?a log) = ?chunk" by (simp add: unapplied_def min_def)
  then have "take (?a + length ?chunk) log = take ?a log @ ?chunk" by (simp add: take_add)
  moreover have "kv_of V s' = snd (spec_chunk ?chunk (kv_of V s))"
    using apply_chunk_refines(2) [OF run] by (simp add: kv_of_def)
  moreover have "?a + length ?chunk \<le> length log" using old(2) by (simp add: unapplied_def)
  moreover have "length log \<le> m \<Longrightarrow> ?a + length ?chunk = length log" using old(2) by (simp add: unapplied_def)
  ultimately show ?thesis using old index by (simp add: applied_some_def log_contents_append)
qed

lemma catch_up_followed:
  assumes "catch_up L log s = (r, s')" and "applied_some V log s"
  shows "applied_some V log s' \<and> (r = Inr () \<longrightarrow> kv_of V s' = log_contents log)"
proof -
  obtain x where run: "apply_chunk L (unapplied log s (length log)) s = (x, s')"
    and r: "r = Inr () \<longrightarrow> (\<exists>rs. x = Inr rs)"
    using assms(1) by (auto simp: catch_up_def split: prod.splits sum.splits)
  note followed = unapplied_followed [OF run assms(2)]
  then have "r = Inr () \<longrightarrow> unat (last_applied_index s') = length log" using r by blast
  then show ?thesis using followed by (auto simp: applied_some_def)
qed

lemma shared_write_followed:
  assumes "shared_write L leads cmd (log, s) = (r, log', s')" and "applied_some V log s"
    and "\<And>m. snd (spec_command cmd m) = f m"
  shows "applied_some V log' s' \<and> (\<forall>t. applied_some V log t \<longrightarrow> applied_some V log' t) \<and>
    call_outcome r (log_commits log) (log_commits log') f"
proof -
  let ?e = "\<lparr>entry_index = word_of_nat (Suc (length log)), entry_term = 1, entry_command = cmd\<rparr>"
  consider "log' = log" "s' = s" "\<exists>x. r = Inl x"
    | "Suc (length log) < 2 ^ 64" "log' = log @ [?e]" "catch_up L (log @ [?e]) s = (r, s')"
  proof (cases "\<not> leads \<or> 2 ^ 64 \<le> Suc (length log)")
    case True
    then show thesis using assms(1) that(1) by (auto simp: shared_write_def split: if_splits)
  next
    case False
    then show thesis
      using assms(1) that(2) by (cases "catch_up L (log @ [?e]) s") (simp add: shared_write_def Let_def)
  qed
  then show ?thesis
  proof cases
    case 1
    then show ?thesis using assms(2) by (auto simp: call_outcome_def)
  next
    case 2
    have grows: "applied_some V log t \<Longrightarrow> applied_some V log' t" for t
      unfolding 2(2) by (rule applied_some_snoc [OF _ 2(1)]) simp_all
    have "log_contents (log @ [?e]) = f (log_contents log)"
      using assms(3) by (simp add: log_contents_append split_def)
    then show ?thesis
      using catch_up_followed [OF 2(3)] grows assms(2) 2(2) by (simp add: call_outcome_def log_commits_snoc)
  qed
qed

lemma shared_read_followed:
  assumes "shared_read L k (log, s) = (v, log', s')" and "applied_some V log s"
  shows "log' = log \<and> applied_some V log s' \<and> (\<forall>w. v = Inr w \<longrightarrow> w = log_contents log k)"
proof (cases "catch_up L log s")
  case (Pair r s1)
  note followed = catch_up_followed [OF Pair assms(2)]
  show ?thesis
  proof (cases r)
    case (Inl e)
    then show ?thesis using assms(1) Pair followed by (auto simp: shared_read_def)
  next
    case (Inr u)
    then show ?thesis
      using assms(1) Pair followed sm_get_sound [of s1 k]
      by (auto simp: shared_read_def map_err_eq_Inr)
  qed
qed

lemma shared_log_client: "replicated_client L V (\<lambda>j. shared_api L (leads j)) log_commits (applied_some V) unapplied"
proof unfold_locales
  fix g :: "apply_entry list" and s s' :: "'e state_machine" and g' j k m
  show "applied_some V g s \<Longrightarrow> kv_of V s \<in> set (log_commits g)"
    unfolding log_commits_def set_map set_upt by (intro image_eqI) (auto simp: applied_some_def)
  show "c_put (shared_api L (leads j)) k b (g, s) = (r, g', s') \<Longrightarrow> applied_some V g s \<Longrightarrow>
      applied_some V g' s' \<and> (\<forall>t. applied_some V g t \<longrightarrow> applied_some V g' t) \<and>
      call_outcome r (log_commits g) (log_commits g') (\<lambda>m. m(k \<mapsto> b))" for b r
    by (rule shared_write_followed [where cmd = "Insert k b None" and leads = "leads j"]) (simp_all add: shared_api_def)
  show "c_delete (shared_api L (leads j)) k (g, s) = (r, g', s') \<Longrightarrow> applied_some V g s \<Longrightarrow>
      applied_some V g' s' \<and> (\<forall>t. applied_some V g t \<longrightarrow> applied_some V g' t) \<and>
      call_outcome r (log_commits g) (log_commits g') (\<lambda>m. m(k := None))" for r
    by (rule shared_write_followed [where cmd = "Delete k" and leads = "leads j"]) (simp_all add: shared_api_def)
  show "c_get_linearizable (shared_api L (leads j)) k (g, s) = (v, g', s') \<Longrightarrow> applied_some V g s \<Longrightarrow>
      applied_some V g' s' \<and> (\<forall>t. applied_some V g t \<longrightarrow> applied_some V g' t) \<and> log_commits g' = log_commits g \<and>
      (\<forall>w. v = Inr w \<longrightarrow> w = last (log_commits g) k)" for v
    using shared_read_followed [of k g s v g' s'] by (auto simp: shared_api_def)
  show "c_get_lease (shared_api L (leads j)) k (g, s) = (v, g', s') \<Longrightarrow> applied_some V g s \<Longrightarrow>
      applied_some V g' s' \<and> (\<forall>t. applied_some V g t \<longrightarrow> applied_some V g' t) \<and> log_commits g' = log_commits g \<and>
      (\<forall>w. v = Inr w \<longrightarrow> w = last (log_commits g) k)" for v
    using shared_read_followed [of k g s v g' s'] by (auto simp: shared_api_def)
  show "\<And>x. apply_chunk L (unapplied g s m) s = (x, s') \<Longrightarrow> applied_some V g s \<Longrightarrow> applied_some V g s'"
    using unapplied_followed by blast
qed

end

interpretation shared: replicated_client mem_api mem_view "\<lambda>j. shared_api mem_api (j = 0)" log_commits
    "applied_some mem_view" unapplied
  by (rule mem.shared_log_client)


section \<open>A stale read\<close>

text \<open>Two nodes or more, the first of which leads.\<close>

definition follower_engine :: "nat \<Rightarrow> (apply_entry list, mem, unit) engine_api" where
  "follower_engine j =
    \<lparr>e_wait_ready = (\<lambda>_ x. (Inr (), x)), e_leader_info = (\<lambda>_. Some ()), e_is_leader = (\<lambda>_. j = 0),
     e_membership = (\<lambda>_. \<lparr>mb_members = [1, 2], mb_learners = [], mb_committed_index = 0\<rparr>)\<rparr>"

definition two_members :: membership where
  "two_members = \<lparr>mb_members = [1, 2], mb_learners = [], mb_committed_index = 0\<rparr>"

definition demo_surroundings :: "(apply_entry list, mem, mem, unit) surroundings" where
  "demo_surroundings =
    \<lparr>sv_lmdb = mem_api, sv_client = (\<lambda>j. shared_api mem_api (j = 0)), sv_engine = follower_engine,
     sv_feed = unapplied, sv_context = (\<lambda>_. demo_context),
     sv_read_text = (\<lambda>b. case b of TextBody s \<Rightarrow> Some s | EmptyBody \<Rightarrow> Some [] | _ \<Rightarrow> None)\<rparr>"

lemma demo_surroundings_simps [simp]:
  "sv_lmdb demo_surroundings = mem_api" "sv_client demo_surroundings = (\<lambda>j. shared_api mem_api (j = 0))"
  "sv_context demo_surroundings = (\<lambda>_. demo_context)" "sv_engine demo_surroundings = follower_engine"
  "sv_feed demo_surroundings = unapplied"
  by (simp_all add: demo_surroundings_def)

definition demo_nodes :: "nat \<Rightarrow> (apply_entry list, mem) node" where
  "demo_nodes j =
    \<lparr>inner = [], node_sm = demo_sm, data_dir_lock = [], node_max_key = 512, node_max_value = 1048576\<rparr>"

lemma demo_nodes_simps [simp]:
  "inner (demo_nodes j) = []" "node_sm (demo_nodes j) = demo_sm" "node_max_key (demo_nodes j) = 512"
  "node_max_value (demo_nodes j) = 1048576" "body_limit (demo_nodes j) = 1049600"
  by (simp_all add: demo_nodes_def body_limit_def max_value_bytes_of_def BODY_LIMIT_OVERHEAD_BYTES_def)

lemma demo_sm_applied: "applied_some mem_view [] demo_sm"
  using demo_kv by (simp add: applied_some_def log_indexed_def log_contents_def demo_sm_def)

lemma demo_steady: "\<forall>j. steady (sv_engine demo_surroundings j) (j = 0) (Some ()) two_members"
  by (simp add: steady_def follower_engine_def two_members_def)

lemma demo_reads: "reads_text (sv_read_text demo_surroundings)"
  by (simp add: reads_text_def demo_surroundings_def)

interpretation demo_service: cluster_service demo_surroundings mem_view log_commits "applied_some mem_view"
    "\<lambda>j. j = 0" "\<lambda>_. Some ()" "\<lambda>_. two_members" "[]" demo_nodes Map.empty
proof (intro cluster_service.intro cluster_service_axioms.intro)
  show "replicated_client (sv_lmdb demo_surroundings) mem_view (sv_client demo_surroundings) log_commits
      (applied_some mem_view) (sv_feed demo_surroundings)"
    using shared.replicated_client_axioms by simp
  show "log_commits [] = [plain_store Map.empty]"
    by (simp add: log_commits_def log_contents_def plain_store_def fun_eq_iff)
qed (use demo_steady demo_reads demo_sm_applied in auto)

definition demo_put :: request where "demo_put = demo_request PUT (KvRoute (Some [97])) [1, 2]"

definition demo_get :: request where "demo_get = demo_request GET (KvRoute (Some [97])) []"

definition stale_get :: request where "stale_get = demo_get\<lparr>rq_level := None\<rparr>"

lemmas demo_requests = stale_get_def demo_get_def demo_put_def demo_request_def

lemma demo_targets:
  "body_limit n = 1049600 \<Longrightarrow> read_target n demo_get = Some ([97], Linearizable)"
  "body_limit n = 1049600 \<Longrightarrow> read_target n stale_get = Some ([97], Eventual)"
  "read_target n demo_put = None"
  by (simp_all add: read_target_def demo_requests valid_key_def parse_level_def)

lemma demo_answers:
  "read_answer demo_surroundings (j, stale_get) (Inr None) = json_error 404 ''key not found''"
  "read_answer demo_surroundings (j, demo_get) (Inr (Some [1, 2])) = bytes_response [1, 2]"
  by (simp_all add: demo_requests demo_context_def strip_head_def status_defs read_answer_def
      outgoing_def read_response_def json_error_def not_found_def demo_surroundings_def normalize_simps)

text \<open>The entry of the put, and a node that applies it.\<close>

definition put_entry :: apply_entry where
  "put_entry = \<lparr>entry_index = 1, entry_term = 1, entry_command = Insert [97] (encode_raw [1, 2]) None\<rparr>"

lemma catch_up_put:
  "\<exists>s. catch_up mem_api [put_entry] demo_sm = (Inr (), s) \<and> kv_of mem_view s = [[97] \<mapsto> encode_raw [1, 2]]"
proof -
  have chunk: "unapplied [put_entry] demo_sm (Suc 0) = [put_entry]" by (simp add: unapplied_def demo_sm_def)
  have "chunk_admissible mem_api [put_entry]" by (simp add: chunk_admissible_def put_entry_def)
  then obtain rs s where run: "apply_chunk mem_api [put_entry] demo_sm = (Inr rs, s)"
    using mem.apply_chunk_live by blast
  have "kv_of mem_view s = [[97] \<mapsto> encode_raw [1, 2]]"
    using mem.apply_chunk_refines(2) [OF run] demo_kv by (simp add: kv_of_def put_entry_def)
  then show ?thesis using run by (auto simp: catch_up_def chunk)
qed

lemma stale_then_current:
  "\<exists>c. serve_reachable demo_surroundings [] demo_nodes c \<and> lv_history c =
    [Invoke 0 (0, demo_put), Respond 0 (status_only 204),
     Invoke 1 (1, stale_get), Respond 1 (json_error 404 ''key not found''),
     Invoke 2 (1, demo_get), Respond 2 (bytes_response [1, 2])]"
proof -
  let ?S = demo_surroundings
  note go = serve_reachable.step [where S = ?S and ?g0.0 = "[]" and ?n0.0 = demo_nodes]
  obtain s where s: "catch_up mem_api [put_entry] demo_sm = (Inr (), s)" "kv_of mem_view s = [[97] \<mapsto> encode_raw [1, 2]]"
    using catch_up_put by blast
  define c0 :: "(apply_entry list, mem, unit) live_servers"
    where "c0 = \<lparr>lv_shared = [], lv_node = demo_nodes, lv_tasks = Map.empty, lv_history = []\<rparr>"
  define c1 where "c1 = put_task 0 (Some (Invoked 0 demo_put)) (note_event (Invoke 0 (0, demo_put)) c0)"
  have r1: "serve_reachable ?S [] demo_nodes c1"
    unfolding c1_def by (rule go [OF _ serve_step.invoked]) (simp_all add: c0_def serve_reachable.idle)
  let ?n1 = "(node_at 0 c0)\<lparr>inner := [put_entry], node_sm := s\<rparr>"
  have "shared_write mem_api True (Insert [97] (encode_raw [1, 2]) None) ([], demo_sm) = (Inr (), [put_entry], s)"
    using s(1) by (simp add: shared_write_def put_entry_def)
  then have "node_put (shared_api mem_api True) [97] [1, 2] (node_at 0 c1) = (Inr (), ?n1)"
    by (simp add: node_put_def check_sizes_def validate_key_def validate_value_def via_client_def shared_api_def
        node_at_def c1_def c0_def put_task_def note_event_def)
  then have "app mem_api (shared_api mem_api True) (follower_engine 0) demo_context (sv_read_text ?S) demo_put (node_at 0 c1) =
      Return (status_only 204, ?n1)"
    by (simp add: app_def demo_requests kv_route_def put_handler_def valid_key_def demo_context_def normalize_simps
        status_defs strip_head_def Let_def node_at_def c1_def c0_def put_task_def note_event_def body_limit_def
        max_value_bytes_of_def BODY_LIMIT_OVERHEAD_BYTES_def)
  then have "serve_step ?S c1 (put_task 0 (Some (Finished (status_only 204))) (put_node 0 ?n1 c1))"
    by (intro serve_step.handled) (simp_all add: c1_def demo_targets(3))
  note r2 = go [OF r1 this]
  define c2 where "c2 = put_task 0 None (note_event (Respond 0 (status_only 204))
    (put_task 0 (Some (Finished (status_only 204))) (put_node 0 ?n1 c1)))"
  have r3: "serve_reachable ?S [] demo_nodes c2"
    unfolding c2_def by (rule go [OF r2 serve_step.answered]) simp
  define c3 where "c3 = put_task 1 (Some (Invoked 1 stale_get)) (note_event (Invoke 1 (1, stale_get)) c2)"
  have r4: "serve_reachable ?S [] demo_nodes c3"
    unfolding c3_def by (rule go [OF r3 serve_step.invoked]) (simp add: c2_def c1_def c0_def)
  have n3: "node_sm (node_at 1 c3) = demo_sm" "inner (node_at 1 c3) = [put_entry]" "body_limit (node_at 1 c3) = 1049600"
    by (simp_all add: c3_def c2_def c1_def c0_def node_at_def body_limit_def max_value_bytes_of_def BODY_LIMIT_OVERHEAD_BYTES_def)
  have "fetch_at mem_api (shared_api mem_api False) Eventual [97] (node_at 1 c3) = (Inr None, node_at 1 c3)"
    using mem.sm_get_live [of "[97]" demo_sm] n3(1) demo_kv by (simp add: fetch_at_def)
  then have "serve_step ?S c3 (put_task 1 (Some (Fetched 1 stale_get [97] None)) (put_node 1 (node_at 1 c3) c3))"
    by (intro serve_step.fetched [OF _ demo_targets(2) [OF n3(3)]]) (simp_all add: c3_def)
  note r5 = go [OF r4 this]
  define c4 where "c4 = put_task 1 (Some (Fetched 1 stale_get [97] None)) (put_node 1 (node_at 1 c3) c3)"
  have "serve_step ?S c4 (put_task 1 (Some (Finished (json_error 404 ''key not found''))) (put_node 1 (node_at 1 c4) c4))"
    using serve_step.decoded [of c4 1 1 stale_get "[97]" None ?S "Inr None" "node_at 1 c4"] demo_answers(1) [of 1]
    by (simp add: c4_def decode_and_reap_def)
  note r6 = go [OF r5 [folded c4_def] this]
  define c5 where "c5 = put_task 1 None (note_event (Respond 1 (json_error 404 ''key not found''))
    (put_task 1 (Some (Finished (json_error 404 ''key not found''))) (put_node 1 (node_at 1 c4) c4)))"
  have r7: "serve_reachable ?S [] demo_nodes c5"
    unfolding c5_def by (rule go [OF r6 serve_step.answered]) simp
  define c6 where "c6 = put_task 2 (Some (Invoked 1 demo_get)) (note_event (Invoke 2 (1, demo_get)) c5)"
  have r8: "serve_reachable ?S [] demo_nodes c6"
    unfolding c6_def by (rule go [OF r7 serve_step.invoked]) (simp add: c5_def c4_def c3_def c2_def c1_def c0_def)
  have n6: "node_sm (node_at 1 c6) = demo_sm" "inner (node_at 1 c6) = [put_entry]" "body_limit (node_at 1 c6) = 1049600"
    using n3 by (simp_all add: c6_def c5_def c4_def node_at_def body_limit_def max_value_bytes_of_def)
  let ?n6 = "(node_at 1 c6)\<lparr>inner := [put_entry], node_sm := s\<rparr>"
  have "shared_read mem_api [97] ([put_entry], demo_sm) = (Inr (Some (encode_raw [1, 2])), [put_entry], s)"
    using s mem.sm_get_live [of "[97]" s] by (simp add: shared_read_def)
  then have "fetch_at mem_api (shared_api mem_api False) Linearizable [97] (node_at 1 c6) =
      (Inr (Some (encode_raw [1, 2])), ?n6)"
    using n6 by (simp add: fetch_at_def via_client_def shared_api_def)
  then have "serve_step ?S c6 (put_task 2 (Some (Fetched 1 demo_get [97] (Some (encode_raw [1, 2])))) (put_node 1 ?n6 c6))"
    by (intro serve_step.fetched [OF _ demo_targets(1) [OF n6(3)]]) (simp_all add: c6_def)
  note r9 = go [OF r8 this]
  define c7 where "c7 = put_task 2 (Some (Fetched 1 demo_get [97] (Some (encode_raw [1, 2])))) (put_node 1 ?n6 c6)"
  have "decode_and_reap mem_api (rq_clock demo_get) [97] (Some (encode_raw [1, 2])) (node_at 1 c7) =
      Return (Inr (Some [1, 2]), node_at 1 c7)"
    using decode_plain [of "rq_clock demo_get" mem_api "[97]" "Some [1, 2]" "node_at 1 c7"] by (simp add: demo_requests)
  then have "serve_step ?S c7 (put_task 2 (Some (Finished (bytes_response [1, 2]))) (put_node 1 (node_at 1 c7) c7))"
    using serve_step.decoded [of c7 2 1 demo_get "[97]" "Some (encode_raw [1, 2])" ?S "Inr (Some [1, 2])" "node_at 1 c7"]
      demo_answers(2) [of 1] by (simp add: c7_def)
  note r10 = go [OF r9 [folded c7_def] this]
  define c8 where "c8 = put_task 2 None (note_event (Respond 2 (bytes_response [1, 2]))
      (put_task 2 (Some (Finished (bytes_response [1, 2]))) (put_node 1 (node_at 1 c7) c7)))"
  have r11: "serve_reachable ?S [] demo_nodes c8"
    unfolding c8_def by (rule go [OF r10 serve_step.answered]) simp
  have "lv_history c8 =
    [Invoke 0 (0, demo_put), Respond 0 (status_only 204), Invoke 1 (1, stale_get), Respond 1 (json_error 404 ''key not found''),
     Invoke 2 (1, demo_get), Respond 2 (bytes_response [1, 2])]"
    by (simp add: c8_def c7_def c6_def c5_def c4_def c3_def c2_def c1_def c0_def)
  with r11 show ?thesis by blast
qed


section \<open>Property\<close>

text \<open>C4. Linearizability. Requests to the nodes of a cluster run in parallel, a read fetching and decoding in two
  steps with anything in between, and each node applies the log at its own pace. Over an engine that orders writes, whose linearizable and lease reads are current
  and with steady leadership, starting from values without
  TTL, in every reachable history: the requests, but for eventual reads and those answered with an error of the engine,
  perhaps with some that are still in progress or were answered so, can be put in one order that keeps the order of any
  two that did not overlap and in which a server of a plain map, handling one at a time, gives exactly these
  responses. An eventual read answers from the contents after some beginning of that order that has no
  request made after the answer; it may be stale. And no request in progress is ever stuck.\<close>

theorem server_linearizable:
  fixes S :: "('g, 'e, 't, 'l) surroundings"
  assumes "replicated_client (sv_lmdb S) V (sv_client S) commits follows (sv_feed S)"
    and "\<forall>j. steady (sv_engine S j) (leads j) (leader j) (mb j)" and "reads_text (sv_read_text S)"
    and "commits g0 = [plain_store m0]" and "\<forall>j. follows g0 (node_sm (n0 j))" and "serve_reachable S g0 n0 c"
    and "\<forall>i j rq. Invoke i (j, rq) \<in> set (lv_history c) \<longrightarrow> 0 \<le> rq_clock rq"
    and "ans = map_answer S n0 leads leader mb"
  shows "(\<exists>lin. linearizes (\<lambda>qs. fst (serve_all ans qs m0)) (lv_history c) lin \<and>
        (\<forall>i r. Respond i r \<in> set (lv_history c) \<longrightarrow> (\<exists>q. Invoke i q \<in> set (lv_history c) \<and>
          (refused S q r \<or>
           (if eventual_get n0 q then reads_earlier ans m0 (lv_history c) lin i q r else (i, q, r) \<in> set lin))))) \<and>
    (\<forall>i \<in> dom (lv_tasks c). \<exists>c'. serve_step S c c' \<and> lv_tasks c' i \<noteq> lv_tasks c i)"
proof -
  have service: "cluster_service S V commits follows leads leader mb g0 n0 m0"
    by (intro cluster_service.intro cluster_service_axioms.intro assms(1)) (use assms(2-5) in auto)
  obtain lin where inv: "history_inv S n0 ans m0 (lv_tasks c) (lv_history c) lin \<and>
      store_inv commits follows n0 ans m0 (lv_shared c) (lv_node c) lin"
    using cluster_service.serve_reachable_inv [OF service assms(6,7)] unfolding assms(8) by blast
  have "\<forall>i \<in> dom (lv_tasks c). \<exists>c'. serve_step S c c' \<and> lv_tasks c' i \<noteq> lv_tasks c i"
    using cluster_service.serve_progress [OF service inv [unfolded assms(8)] assms(7)] by blast
  then show ?thesis
    using history_invD(1,4) [OF conjunct1 [OF inv]] unfolding justified_def by blast
qed

theorem server_linearizable_witness:
  "\<exists>c lin. serve_reachable demo_surroundings [] demo_nodes c \<and>
    lv_history c = [Invoke 0 (0, demo_put), Respond 0 (status_only 204),
      Invoke 1 (1, stale_get), Respond 1 (json_error 404 ''key not found''),
      Invoke 2 (1, demo_get), Respond 2 (bytes_response [1, 2])] \<and>
    linearizes (\<lambda>qs. fst (serve_all (map_answer demo_surroundings demo_nodes (\<lambda>j. j = 0) (\<lambda>_. Some ()) (\<lambda>_. two_members)) qs Map.empty))
      (lv_history c) lin"
proof -
  obtain c where c: "serve_reachable demo_surroundings [] demo_nodes c"
    "lv_history c = [Invoke 0 (0, demo_put), Respond 0 (status_only 204),
      Invoke 1 (1, stale_get), Respond 1 (json_error 404 ''key not found''),
      Invoke 2 (1, demo_get), Respond 2 (bytes_response [1, 2])]"
    using stale_then_current by blast
  have clocks: "\<forall>i j rq. Invoke i (j, rq) \<in> set (lv_history c) \<longrightarrow> 0 \<le> rq_clock rq"
    by (auto simp: c(2) demo_requests)
  from server_linearizable [OF demo_service.replicated_client_axioms demo_steady demo_reads demo_service.begin_commits _ c(1) clocks refl]
  show ?thesis using c demo_service.begin_follows by blast
qed

end
