(* ===== verification/Wal_Race.thy ===== *)
theory Wal_Race
  imports Wal_Log
begin

text \<open>
  The Raft log shared by tasks. \<open>LmdbWal\<close> is behind an \<open>Arc\<close> and its operations take \<open>&self\<close>; LMDB
  lets one write transaction run at a time, but \<open>last_index\<close> is an atomic of its own that is
  assigned after the commit. So \<open>persist_entries\<close>, \<open>truncate\<close> and \<open>reset\<close> are two steps each: the
  transaction, and the assignment. Persisting tasks commute; a truncation that runs while another
  operation is between its steps leaves a wrong \<open>last_index\<close>.
\<close>


section \<open>The two steps of an operation\<close>

text \<open>The assignment after the commit: \<open>fetch_max\<close> or \<open>store\<close>.\<close>

datatype index_update = FetchMax u64 | StoreIndex u64

fun publish :: "index_update \<Rightarrow> 'e wal \<Rightarrow> 'e wal" where
  "publish (FetchMax n) w = w\<lparr>wal_last_index := max (wal_last_index w) n\<rparr>"
| "publish (StoreIndex n) w = w\<lparr>wal_last_index := n\<rparr>"

definition persist_txn ::
  "('e, 't) lmdb_api \<Rightarrow> ('en, 'hs) wal_codec \<Rightarrow> 'en list \<Rightarrow> 'e \<Rightarrow> engine_error + 'e \<times> index_update" where
  "persist_txn L C ens env =
    and_then (map_err db_err (write_txn L env)) (\<lambda>wtxn.
    and_then (persist_loop L C ens wtxn 0) (\<lambda>(wtxn, max_index).
    and_then (map_err db_err (txn_commit L wtxn)) (\<lambda>env. Inr (env, FetchMax max_index))))"

definition truncate_txn ::
  "('e, 't) lmdb_api \<Rightarrow> u64 \<Rightarrow> 'e \<Rightarrow> engine_error + 'e \<times> index_update" where
  "truncate_txn L from_index env =
    and_then (map_err db_err (write_txn L env)) (\<lambda>wtxn.
    and_then (map_err db_err
      (db_delete_range L wtxn DB_LOG (Included (to_be_bytes from_index)) Unbounded)) (\<lambda>(_, wtxn).
    and_then (map_err db_err (db_last L wtxn DB_LOG)) (\<lambda>tail.
    and_then (map_err db_err (txn_commit L wtxn)) (\<lambda>env. Inr (env, StoreIndex (tail_index tail))))))"

definition reset_txn :: "('e, 't) lmdb_api \<Rightarrow> 'e \<Rightarrow> engine_error + 'e \<times> index_update" where
  "reset_txn L env =
    and_then (map_err db_err (write_txn L env)) (\<lambda>wtxn.
    and_then (map_err db_err (db_clear L wtxn DB_LOG)) (\<lambda>wtxn.
    and_then (map_err db_err (txn_commit L wtxn)) (\<lambda>env. Inr (env, StoreIndex 0))))"

text \<open>Without interference the two steps are the operation.\<close>

definition in_two_steps :: "engine_error + 'e \<times> index_update \<Rightarrow> 'e wal \<Rightarrow> (engine_error + unit) \<times> 'e wal" where
  "in_two_steps txn w =
    (case txn of
       Inl e \<Rightarrow> (Inl e, w)
     | Inr (env, update) \<Rightarrow> (Inr (), publish update (w\<lparr>wal_env := env\<rparr>)))"

lemma persist_two_steps:
  "ens \<noteq> [] \<Longrightarrow> persist_entries L C ens w = in_two_steps (persist_txn L C ens (wal_env w)) w"
  by (auto simp: persist_entries_def in_two_steps_def persist_txn_def and_then_def split: sum.split)

lemma truncate_two_steps: "truncate L from w = in_two_steps (truncate_txn L from (wal_env w)) w"
  by (auto simp: truncate_def in_two_steps_def truncate_txn_def and_then_def split: sum.split)

lemma reset_two_steps: "wal_reset L w = in_two_steps (reset_txn L (wal_env w)) w"
  by (auto simp: wal_reset_def in_two_steps_def reset_txn_def and_then_def split: sum.split)


section \<open>Interleavings\<close>

text \<open>\<open>sw_pending i\<close> is the assignment that operation \<open>i\<close> has still to make. With \<open>alone\<close>, \<open>truncate\<close> and
  \<open>reset\<close> run while no other operation is between its steps, and none starts before they are done.\<close>

record 'e shared_wal =
  sw_wal :: "'e wal"
  sw_pending :: "nat \<rightharpoonup> index_update"

definition stores_pending :: "'e shared_wal \<Rightarrow> bool" where
  "stores_pending c \<longleftrightarrow> (\<exists>i n. sw_pending c i = Some (StoreIndex n))"

definition committed_to :: "nat \<Rightarrow> 'e \<times> index_update \<Rightarrow> 'e shared_wal \<Rightarrow> 'e shared_wal" where
  "committed_to i r c = c\<lparr>sw_wal := (sw_wal c)\<lparr>wal_env := fst r\<rparr>, sw_pending := (sw_pending c)(i \<mapsto> snd r)\<rparr>"

inductive wal_step ::
  "('e, 't) lmdb_api \<Rightarrow> ('en, 'hs) wal_codec \<Rightarrow> bool \<Rightarrow> 'e shared_wal \<Rightarrow> 'e shared_wal \<Rightarrow> bool"
  for L :: "('e, 't) lmdb_api" and C :: "('en, 'hs) wal_codec" and alone :: bool where
  persist_commits: "sw_pending c i = None \<Longrightarrow> ens \<noteq> [] \<Longrightarrow> alone \<longrightarrow> \<not> stores_pending c \<Longrightarrow>
    persist_txn L C ens (wal_env (sw_wal c)) = Inr r \<Longrightarrow> wal_step L C alone c (committed_to i r c)"
| truncate_commits: "sw_pending c i = None \<Longrightarrow> alone \<longrightarrow> sw_pending c = Map.empty \<Longrightarrow>
    truncate_txn L from (wal_env (sw_wal c)) = Inr r \<Longrightarrow> wal_step L C alone c (committed_to i r c)"
| reset_commits: "sw_pending c i = None \<Longrightarrow> alone \<longrightarrow> sw_pending c = Map.empty \<Longrightarrow>
    reset_txn L (wal_env (sw_wal c)) = Inr r \<Longrightarrow> wal_step L C alone c (committed_to i r c)"
| purges: "purge L C cutoff (sw_wal c) = (Inr (), w) \<Longrightarrow> wal_step L C alone c (c\<lparr>sw_wal := w\<rparr>)"
| votes: "save_hard_state L C h (sw_wal c) = (Inr (), w) \<Longrightarrow> wal_step L C alone c (c\<lparr>sw_wal := w\<rparr>)"
| publishes: "sw_pending c i = Some update \<Longrightarrow>
    wal_step L C alone c (c\<lparr>sw_wal := publish update (sw_wal c), sw_pending := (sw_pending c)(i := None)\<rparr>)"

inductive wal_runs ::
  "('e, 't) lmdb_api \<Rightarrow> ('en, 'hs) wal_codec \<Rightarrow> bool \<Rightarrow> 'e wal \<Rightarrow> 'e shared_wal \<Rightarrow> bool"
  for L :: "('e, 't) lmdb_api" and C :: "('en, 'hs) wal_codec" and alone :: bool and w0 :: "'e wal" where
  quiet: "wal_runs L C alone w0 \<lparr>sw_wal = w0, sw_pending = Map.empty\<rparr>"
| step: "wal_runs L C alone w0 c \<Longrightarrow> wal_step L C alone c c' \<Longrightarrow> wal_runs L C alone w0 c'"


section \<open>The invariant\<close>

text \<open>Every stored index is covered by \<open>last_index\<close> or by an assignment still to come; and when a
  \<open>store\<close> is to come, it is the only one and covers everything.\<close>

definition covered :: "'e shared_wal \<Rightarrow> u64 \<Rightarrow> bool" where
  "covered c k \<longleftrightarrow>
    (if stores_pending c then \<exists>i n. sw_pending c = [i \<mapsto> StoreIndex n] \<and> k \<le> n
     else k \<le> wal_last_index (sw_wal c) \<or> (\<exists>i n. sw_pending c i = Some (FetchMax n) \<and> k \<le> n))"

definition shared_inv :: "('e, 't) lmdb_view \<Rightarrow> ('en, 'hs) wal_codec \<Rightarrow> 'e shared_wal \<Rightarrow> bool" where
  "shared_inv V C c \<longleftrightarrow> log_wf C (raw_log V (sw_wal c)) \<and> (\<forall>k \<in> dom (log_of V C (sw_wal c)). covered c k)"

lemma wal_env_publish [simp]: "wal_env (publish u w) = wal_env w"
  by (cases u) simp_all

lemma raw_log_env: "wal_env w = wal_env w' \<Longrightarrow> raw_log V w = raw_log V w'"
  by (simp add: raw_log_def)

lemma raw_log_simps [simp]:
  "raw_log V (publish u w) = raw_log V w" "raw_log V (w\<lparr>wal_last_index := n\<rparr>) = raw_log V w"
  "log_of V C (publish u w) = log_of V C w" "log_of V C (w\<lparr>wal_last_index := n\<rparr>) = log_of V C w"
  by (simp_all add: raw_log_def log_of_def)

context wal_store
begin

text \<open>What the transactions do, from what the whole operations do.\<close>

lemma persist_txn_refines:
  assumes "persist_txn L C ens (wal_env w) = Inr r" and "ens \<noteq> []" and "log_wf C (raw_log V w)"
  shows "log_wf C (raw_log V (w\<lparr>wal_env := fst r\<rparr>))"
    and "log_of V C (w\<lparr>wal_env := fst r\<rparr>) = log_put C ens (log_of V C w)"
    and "snd r = FetchMax (max_idx C ens 0)"
proof -
  define w0 where "w0 = w\<lparr>wal_last_index := 0\<rparr>"
  have run: "persist_entries L C ens w0 = (Inr (), publish (snd r) (w0\<lparr>wal_env := fst r\<rparr>))"
    using assms(1) by (simp add: persist_two_steps [OF assms(2)] in_two_steps_def w0_def split_def)
  have "log_wf C (raw_log V w0)" using assms(3) by (simp add: w0_def)
  note facts = persist_refines_wal [OF run this]
  have same: "raw_log V (w0\<lparr>wal_env := fst r\<rparr>) = raw_log V (w\<lparr>wal_env := fst r\<rparr>)"
    "log_of V C (w0\<lparr>wal_env := fst r\<rparr>) = log_of V C (w\<lparr>wal_env := fst r\<rparr>)" "log_of V C w0 = log_of V C w"
    by (simp_all add: w0_def raw_log_def log_of_def)
  show "log_wf C (raw_log V (w\<lparr>wal_env := fst r\<rparr>))"
    "log_of V C (w\<lparr>wal_env := fst r\<rparr>) = log_put C ens (log_of V C w)"
    using facts(1,2) by (simp_all add: same)
  obtain n where "snd r = FetchMax n" using assms(1) by (auto simp: persist_txn_def and_then_eq_Inr)
  then show "snd r = FetchMax (max_idx C ens 0)" using facts(3) by (simp add: w0_def)
qed

lemma truncate_txn_refines:
  assumes "truncate_txn L from (wal_env w) = Inr r" and "log_wf C (raw_log V w)"
  shows "log_wf C (raw_log V (w\<lparr>wal_env := fst r\<rparr>))"
    and "log_of V C (w\<lparr>wal_env := fst r\<rparr>) = (\<lambda>i. if i < from then log_of V C w i else None)"
    and "snd r = StoreIndex (tail_of (log_of V C (w\<lparr>wal_env := fst r\<rparr>)))"
proof -
  have run: "Wal.truncate L from w = (Inr (), publish (snd r) (w\<lparr>wal_env := fst r\<rparr>))"
    using assms(1) by (simp add: truncate_two_steps in_two_steps_def split_def)
  note facts = truncate_refines [OF run assms(2)]
  show "log_wf C (raw_log V (w\<lparr>wal_env := fst r\<rparr>))"
    "log_of V C (w\<lparr>wal_env := fst r\<rparr>) = (\<lambda>i. if i < from then log_of V C w i else None)"
    using facts(1,2) by simp_all
  obtain n where "snd r = StoreIndex n" using assms(1) by (auto simp: truncate_txn_def and_then_eq_Inr)
  then show "snd r = StoreIndex (tail_of (log_of V C (w\<lparr>wal_env := fst r\<rparr>)))" using facts(3) by simp
qed

lemma reset_txn_refines:
  assumes "reset_txn L (wal_env w) = Inr r"
  shows "raw_log V (w\<lparr>wal_env := fst r\<rparr>) = Map.empty" and "snd r = StoreIndex 0"
proof -
  have "wal_reset L w = (Inr (), publish (snd r) (w\<lparr>wal_env := fst r\<rparr>))"
    using assms by (simp add: reset_two_steps in_two_steps_def split_def)
  then show "raw_log V (w\<lparr>wal_env := fst r\<rparr>) = Map.empty" using wal_reset_refines(1) by fastforce
  show "snd r = StoreIndex 0" using assms by (auto simp: reset_txn_def and_then_eq_Inr)
qed

lemma shared_invD:
  "shared_inv V C c \<Longrightarrow> log_wf C (raw_log V (sw_wal c))"
  "shared_inv V C c \<Longrightarrow> k \<in> dom (log_of V C (sw_wal c)) \<Longrightarrow> covered c k"
  by (auto simp: shared_inv_def)

text \<open>Only a stored index that is new needs a new cover.\<close>

lemma persist_step_inv:
  assumes inv: "shared_inv V C c" and free: "sw_pending c i = None" and "ens \<noteq> []" and none: "\<not> stores_pending c"
    and run: "persist_txn L C ens (wal_env (sw_wal c)) = Inr r"
  shows "shared_inv V C (committed_to i r c)"
proof -
  let ?c = "committed_to i r c"
  note facts = persist_txn_refines [OF run assms(3) shared_invD(1) [OF inv]]
  have none': "\<not> stores_pending ?c"
    using facts(3) none by (auto simp: stores_pending_def committed_to_def split: if_splits)
  have "covered ?c k" if k: "k \<in> dom (log_of V C (sw_wal ?c))" for k
  proof (cases "k \<in> dom (log_of V C (sw_wal c))")
    case True
    then have "k \<le> wal_last_index (sw_wal c) \<or> (\<exists>j n. sw_pending c j = Some (FetchMax n) \<and> k \<le> n)"
      using shared_invD(2) [OF inv] none by (auto simp: covered_def)
    moreover have "j \<noteq> i" if "sw_pending c j = Some u" for j u using free that by auto
    ultimately show ?thesis using none' unfolding covered_def committed_to_def by fastforce
  next
    case False
    then have "k \<in> entry_idx C ` set ens"
      using k facts(2) log_put_dom [of k C ens] by (simp add: committed_to_def)
    then have "k \<le> max_idx C ens 0" using max_idx_ge [where i = 0 and C = C and ens = ens] by auto
    then show ?thesis using none' facts(3) unfolding covered_def committed_to_def by fastforce
  qed
  then show ?thesis using facts(1) by (simp add: shared_inv_def committed_to_def)
qed

lemma truncate_step_inv:
  assumes inv: "shared_inv V C c" and alone: "sw_pending c = Map.empty"
    and run: "truncate_txn L from (wal_env (sw_wal c)) = Inr r"
  shows "shared_inv V C (committed_to i r c)"
proof -
  note facts = truncate_txn_refines [OF run shared_invD(1) [OF inv]]
  let ?log = "log_of V C (sw_wal c\<lparr>wal_env := fst r\<rparr>)"
  have "sw_pending (committed_to i r c) = [i \<mapsto> StoreIndex (tail_of ?log)]"
    using alone facts(3) by (simp add: committed_to_def)
  then have "covered (committed_to i r c) k" if "k \<in> dom ?log" for k
    unfolding covered_def stores_pending_def using le_tail_of [OF that] by auto
  then show ?thesis using facts(1) by (simp add: shared_inv_def committed_to_def)
qed

lemma atomic_step_inv:
  assumes inv: "shared_inv V C c" and "log_wf C (raw_log V w)"
    and "dom (log_of V C w) \<subseteq> dom (log_of V C (sw_wal c))" and "wal_last_index w = wal_last_index (sw_wal c)"
  shows "shared_inv V C (c\<lparr>sw_wal := w\<rparr>)"
proof -
  have "covered (c\<lparr>sw_wal := w\<rparr>) k = covered c k" for k
    using assms(4) by (simp add: covered_def stores_pending_def)
  then show ?thesis using shared_invD(2) [OF inv] assms(2,3) by (auto simp: shared_inv_def subset_iff)
qed

lemma publish_step_inv:
  assumes inv: "shared_inv V C c" and i: "sw_pending c i = Some update"
  shows "shared_inv V C (c\<lparr>sw_wal := publish update (sw_wal c), sw_pending := (sw_pending c)(i := None)\<rparr>)"
proof -
  let ?c = "c\<lparr>sw_wal := publish update (sw_wal c), sw_pending := (sw_pending c)(i := None)\<rparr>"
  have "covered ?c k" if k: "covered c k" for k
  proof (cases update)
    case (FetchMax n)
    then have none: "\<not> stores_pending c" "\<not> stores_pending ?c"
      using k i by (auto simp: covered_def stores_pending_def split: if_splits)
    then consider "k \<le> wal_last_index (sw_wal c)" | j m where "sw_pending c j = Some (FetchMax m)" "k \<le> m"
      using k by (auto simp: covered_def)
    then have "k \<le> wal_last_index (sw_wal ?c) \<or> (\<exists>j m. sw_pending ?c j = Some (FetchMax m) \<and> k \<le> m)"
    proof cases
      case (2 j m)
      then show ?thesis using i FetchMax by (cases "j = i") (auto simp: le_max_iff_disj)
    qed (simp add: FetchMax le_max_iff_disj)
    then show ?thesis using none(2) by (simp add: covered_def)
  next
    case (StoreIndex n)
    then have "stores_pending c" using i by (auto simp: stores_pending_def)
    then obtain j m where "sw_pending c = [j \<mapsto> StoreIndex m]" "k \<le> m" using k by (auto simp: covered_def)
    then have "\<not> stores_pending ?c" "k \<le> wal_last_index (sw_wal ?c)"
      using i StoreIndex by (auto simp: stores_pending_def split: if_splits)
    then show ?thesis by (simp add: covered_def)
  qed
  then show ?thesis using shared_invD [OF inv] by (auto simp: shared_inv_def)
qed

lemma wal_step_inv:
  assumes "wal_step L C True c c'" and inv: "shared_inv V C c"
  shows "shared_inv V C c'"
  using assms(1)
proof cases
  case (persist_commits i ens r)
  then show ?thesis using persist_step_inv [OF inv] by blast
next
  case (truncate_commits i "from" r)
  then show ?thesis using truncate_step_inv [OF inv] by blast
next
  case (reset_commits i r)
  then show ?thesis
    using reset_txn_refines [OF reset_commits(4)] by (simp add: shared_inv_def committed_to_def log_of_def)
next
  case (purges cutoff w)
  note facts = purge_refines [OF purges(2) shared_invD(1) [OF inv]]
  show ?thesis
    unfolding purges(1) by (rule atomic_step_inv [OF inv facts(1) _ facts(3)]) (auto simp: facts(2) split: if_splits)
next
  case (votes h w)
  note facts = save_refines [OF votes(2)]
  show ?thesis
    unfolding votes(1) by (rule atomic_step_inv [OF inv]) (use facts(1,2) shared_invD(1) [OF inv] in \<open>simp_all add: log_of_def\<close>)
next
  case (publishes i update)
  then show ?thesis using publish_step_inv [OF inv] by blast
qed

lemma wal_runs_inv: "wal_runs L C True w0 c \<Longrightarrow> wal_wf V C w0 \<Longrightarrow> shared_inv V C c"
proof (induction rule: wal_runs.induct)
  case quiet
  then show ?case by (simp add: shared_inv_def wal_wf_iff covered_def stores_pending_def)
qed (use wal_step_inv in blast)

end


section \<open>Two tasks\<close>

lemma publish_both:
  assumes runs: "wal_runs L C alone w0 c" and pending: "sw_pending c = [i \<mapsto> u, j \<mapsto> v]" and "i \<noteq> j"
  shows "wal_runs L C alone w0 \<lparr>sw_wal = publish v (publish u (sw_wal c)), sw_pending = Map.empty\<rparr>"
proof -
  let ?c = "c\<lparr>sw_wal := publish u (sw_wal c), sw_pending := (sw_pending c)(i := None)\<rparr>"
  have "wal_runs L C alone w0 ?c"
    by (rule wal_runs.step [OF runs wal_step.publishes]) (simp add: pending assms(3))
  then have "wal_runs L C alone w0 (?c\<lparr>sw_wal := publish v (sw_wal ?c), sw_pending := (sw_pending ?c)(j := None)\<rparr>)"
    by (rule wal_runs.step [OF _ wal_step.publishes]) (use assms(3) in \<open>simp add: pending\<close>)
  moreover have "(sw_pending ?c)(j := None) = Map.empty" using assms(3) by (auto simp: pending)
  ultimately show ?thesis by (cases c) simp
qed

lemma tail_of_below:
  fixes m :: "u64 \<rightharpoonup> 'en"
  assumes "0 < n"
  shows "tail_of (\<lambda>i. if i < n then m i else None) < n"
proof (cases "(\<lambda>i. if i < n then m i else None) = Map.empty")
  case False
  let ?m = "\<lambda>i. if i < n then m i else None"
  have "dom ?m \<noteq> {}" using False by simp
  then have "Max (dom ?m) \<in> dom ?m" by (intro Max_in) simp_all
  then show ?thesis using False by (auto simp: tail_of_def split: if_splits)
qed (use assms in \<open>simp add: tail_of_def\<close>)

context wal_store_live
begin

lemma persist_txn_live: "ens \<noteq> [] \<Longrightarrow> \<exists>r. persist_txn L C ens env = Inr r"
  using persist_entries_live [of ens "\<lparr>wal_env = env, wal_last_index = 0\<rparr>"]
  by (auto simp: persist_two_steps in_two_steps_def split: sum.splits)

lemma truncate_txn_live: "\<exists>r. truncate_txn L from env = Inr r"
  using truncate_live [of "from" "\<lparr>wal_env = env, wal_last_index = 0\<rparr>"]
  by (auto simp: truncate_two_steps in_two_steps_def split: sum.splits)

lemma truncate_then_persist:
  assumes wf: "log_wf C (raw_log V w0)" and "0 < entry_idx C en"
  shows "\<exists>c. wal_runs L C False w0 c \<and> sw_pending c = Map.empty \<and>
    log_of V C (sw_wal c) (entry_idx C en) = Some en \<and> wal_last_index (sw_wal c) < entry_idx C en"
proof -
  let ?n = "entry_idx C en" let ?c0 = "\<lparr>sw_wal = w0, sw_pending = Map.empty\<rparr>"
  obtain r where r: "truncate_txn L ?n (wal_env w0) = Inr r" using truncate_txn_live by blast
  note cut = truncate_txn_refines [OF r wf]
  obtain q where q: "persist_txn L C [en] (fst r) = Inr q" using persist_txn_live by blast
  then have q': "persist_txn L C [en] (wal_env (w0\<lparr>wal_env := fst r\<rparr>)) = Inr q" by simp
  note put = persist_txn_refines [OF q' _ cut(1), simplified]
  let ?c1 = "committed_to 0 r ?c0" let ?c2 = "committed_to 1 q ?c1"
  have "wal_runs L C False w0 ?c1"
    by (rule wal_runs.step [OF wal_runs.quiet wal_step.truncate_commits [of ?c0 0 _ _ ?n]]) (use r in simp_all)
  then have c2: "wal_runs L C False w0 ?c2"
    by (rule wal_runs.step [OF _ wal_step.persist_commits [of ?c1 1 "[en]"]])
      (use q in \<open>simp_all add: committed_to_def\<close>)
  have pending: "sw_pending ?c2 = [1 \<mapsto> snd q, 0 \<mapsto> snd r]" by (auto simp: committed_to_def)
  have below: "tail_of (log_of V C (w0\<lparr>wal_env := fst r\<rparr>)) < ?n" unfolding cut(2) by (rule tail_of_below) (rule assms(2))
  show ?thesis
    by (intro exI conjI, rule publish_both [OF c2 pending])
      (use put cut(3) below in \<open>simp_all add: committed_to_def\<close>)
qed

lemma persist_then_truncate:
  assumes wf: "log_wf C (raw_log V w0)"
  shows "\<exists>c. wal_runs L C False w0 c \<and> sw_pending c = Map.empty \<and>
    (\<forall>i \<in> dom (log_of V C (sw_wal c)). i < entry_idx C en) \<and> entry_idx C en \<le> wal_last_index (sw_wal c)"
proof -
  let ?n = "entry_idx C en" let ?c0 = "\<lparr>sw_wal = w0, sw_pending = Map.empty\<rparr>"
  obtain q where q: "persist_txn L C [en] (wal_env w0) = Inr q" using persist_txn_live by blast
  note put = persist_txn_refines [OF q _ wf, simplified]
  obtain r where r: "truncate_txn L ?n (fst q) = Inr r" using truncate_txn_live by blast
  then have r': "truncate_txn L ?n (wal_env (w0\<lparr>wal_env := fst q\<rparr>)) = Inr r" by simp
  note cut = truncate_txn_refines [OF r' put(1)]
  let ?c1 = "committed_to 0 q ?c0" let ?c2 = "committed_to 1 r ?c1"
  have "wal_runs L C False w0 ?c1"
    by (rule wal_runs.step [OF wal_runs.quiet wal_step.persist_commits [of ?c0 0 "[en]"]]) (use q in simp_all)
  then have c2: "wal_runs L C False w0 ?c2"
    by (rule wal_runs.step [OF _ wal_step.truncate_commits [of ?c1 1 _ _ ?n]])
      (use r in \<open>simp_all add: committed_to_def\<close>)
  have pending: "sw_pending ?c2 = [1 \<mapsto> snd r, 0 \<mapsto> snd q]" by (auto simp: committed_to_def)
  have raised: "max_idx C [en] 0 = ?n" by (simp add: max_idx_def)
  show ?thesis
    by (intro exI conjI, rule publish_both [OF c2 pending])
      (use put(2,3) cut(2,3) raised in \<open>auto simp: committed_to_def split: if_splits\<close>)
qed

end


section \<open>Properties\<close>

text \<open>C25. \<open>last_index\<close> under concurrency. Any number of tasks persist entries at once, each committing
  first and raising \<open>last_index\<close> later, in any order, while others purge and save the hard state;
  \<open>truncate\<close> and \<open>reset\<close> run alone. Then every stored index is at most \<open>last_index\<close> or at most an
  assignment that a task has still to make, and whenever no task is between its steps the log is well formed.\<close>

theorem shared_log_index:
  assumes "wal_store L V C" and "wal_wf V C w0" and "wal_runs L C True w0 c"
  shows "(sw_pending c = Map.empty \<longrightarrow> wal_wf V C (sw_wal c)) \<and>
    (\<forall>k \<in> dom (log_of V C (sw_wal c)). k \<le> wal_last_index (sw_wal c) \<or>
      (\<exists>i n. k \<le> n \<and> (sw_pending c i = Some (FetchMax n) \<or> sw_pending c i = Some (StoreIndex n))))"
proof -
  have inv: "shared_inv V C c" by (rule wal_store.wal_runs_inv [OF assms(1,3,2)])
  have "wal_wf V C (sw_wal c)" if "sw_pending c = Map.empty"
    using inv that by (simp add: wal_store.wal_wf_iff [OF assms(1)] shared_inv_def covered_def stores_pending_def)
  moreover have "k \<le> wal_last_index (sw_wal c) \<or>
      (\<exists>i n. k \<le> n \<and> (sw_pending c i = Some (FetchMax n) \<or> sw_pending c i = Some (StoreIndex n)))"
    if "k \<in> dom (log_of V C (sw_wal c))" for k
  proof -
    have "covered c k" using inv that by (simp add: shared_inv_def)
    then show ?thesis by (force simp: covered_def split: if_splits)
  qed
  ultimately show ?thesis by blast
qed

text \<open>Two tasks persist; the second to commit is the first to raise \<open>last_index\<close>.\<close>

theorem shared_log_index_witness:
  "\<exists>c. wal_runs mem_api demo_codec True demo_log_wal c \<and> sw_pending c = Map.empty \<and>
    wal_wf mem_view demo_codec (sw_wal c) \<and> wal_last_index (sw_wal c) = 302"
proof -
  let ?runs = "wal_runs mem_api demo_codec True demo_log_wal"
  let ?a = "[(301, [31])] :: (u64 \<times> bytes) list" and ?b = "[(302, [32])] :: (u64 \<times> bytes) list"
  let ?c0 = "\<lparr>sw_wal = demo_log_wal, sw_pending = Map.empty\<rparr>"
  have wf0: "log_wf demo_codec (raw_log mem_view demo_log_wal)" using demo_log_wf by (simp add: wal_wf_def)
  obtain r where r: "persist_txn mem_api demo_codec ?a (wal_env demo_log_wal) = Inr r"
    using demo_wal.persist_txn_live [of ?a] by blast
  note a = demo_wal.persist_txn_refines [OF r _ wf0]
  obtain q where q: "persist_txn mem_api demo_codec ?b (fst r) = Inr q"
    using demo_wal.persist_txn_live [of ?b] by blast
  have b: "snd q = FetchMax (max_idx demo_codec ?b 0)"
    using demo_wal.persist_txn_refines(3) [of ?b "demo_log_wal\<lparr>wal_env := fst r\<rparr>" q] q a(1) by simp
  have idx: "snd r = FetchMax 301" "snd q = FetchMax 302" using a(3) b by (simp_all add: max_idx_def demo_codec_def)
  let ?c1 = "committed_to 0 r ?c0" let ?c2 = "committed_to 1 q ?c1"
  have "?runs ?c1"
    by (rule wal_runs.step [OF wal_runs.quiet wal_step.persist_commits [of ?c0 0 ?a]])
      (use r in \<open>simp_all add: stores_pending_def\<close>)
  then have c2: "?runs ?c2"
    by (rule wal_runs.step [OF _ wal_step.persist_commits [of ?c1 1 ?b]])
      (use q idx in \<open>simp_all add: stores_pending_def committed_to_def\<close>)
  let ?w = "publish (FetchMax 301) (publish (FetchMax 302) (sw_wal ?c2))"
  have "sw_pending ?c2 = [1 \<mapsto> FetchMax 302, 0 \<mapsto> FetchMax 301]" by (auto simp: committed_to_def idx)
  from publish_both [OF c2 this] have c4: "?runs \<lparr>sw_wal = ?w, sw_pending = Map.empty\<rparr>" by simp
  have "wal_last_index ?w = 302" by (simp add: committed_to_def demo_log_wal_def max_def word_le_nat_alt)
  then show ?thesis
    using shared_log_index [OF demo_wal.wal_store_axioms demo_log_wf c4] c4
    by (intro exI [of _ "\<lparr>sw_wal = ?w, sw_pending = Map.empty\<rparr>"]) simp
qed

text \<open>C26. Unguarded, a truncation loses entries. On a healthy disk, \<open>truncate(n)\<close> commits, a task
  persists an entry with index \<open>n\<close> and returns, and only then the truncation assigns
  \<open>last_index\<close>: the entry is stored and its caller was told so, but \<open>last_index\<close> is below it. In the other order
  of the assignments \<open>last_index\<close> is \<open>n\<close> or more although the log holds nothing from \<open>n\<close> on.\<close>

theorem truncate_race:
  assumes "wal_store_live L V C" and "wal_wf V C w0" and "0 < entry_idx C en"
  shows "(\<exists>c. wal_runs L C False w0 c \<and> sw_pending c = Map.empty \<and>
      log_of V C (sw_wal c) (entry_idx C en) = Some en \<and> wal_last_index (sw_wal c) < entry_idx C en) \<and>
    (\<exists>c. wal_runs L C False w0 c \<and> sw_pending c = Map.empty \<and>
      (\<forall>i \<in> dom (log_of V C (sw_wal c)). i < entry_idx C en) \<and> entry_idx C en \<le> wal_last_index (sw_wal c))"
  using wal_store_live.truncate_then_persist [OF assms(1) _ assms(3)] wal_store_live.persist_then_truncate [OF assms(1)]
    assms(2) by (simp add: wal_wf_def)

lemma demo_codec_idx: "entry_idx demo_codec (i, b) = i"
  by (simp add: demo_codec_def)

theorem truncate_race_witness:
  "\<exists>c. wal_runs mem_api demo_codec False demo_log_wal c \<and> sw_pending c = Map.empty \<and>
    log_of mem_view demo_codec (sw_wal c) 300 = Some (300, [99]) \<and> wal_last_index (sw_wal c) < 300"
  using truncate_race [OF demo_wal.wal_store_live_axioms demo_log_wf, of "(300, [99])"]
  by (simp add: demo_codec_idx)

end
