(* ===== verification/Spec2Isabelle.thy ===== *)
theory Spec2Isabelle
  imports Client_Reads Scan_Clock Example_Cluster Orderly Concurrent Wal_Race
begin

text \<open>
  d-lmdb: a replicated key-value store. A node embeds a Raft engine (the third-party crate d-engine)
  over two LMDB environments, one for the Raft log and one for the applied data. Writes go through
  the engine and come back as committed entries; reads go straight to the local data.

  \<^bold>\<open>Parts of the program and their theories\<close>

  \<^item> \<open>Prelude\<close>: bytes and machine integers, results and panics, big- and little-endian numbers.
  \<^item> \<open>Engine\<close>: the types shared with d-engine and the crate's error type (\<open>error.rs\<close>).
  \<^item> \<open>Config\<close>: \<open>config.rs\<close>. \<open>Wire\<close>: the value envelope (\<open>wire/values.rs\<close>). \<open>Lock\<close>: the data
    directory lock (\<open>lock.rs\<close>).
  \<^item> \<open>Lmdb\<close>: the calls the program makes to LMDB, as a record, with their documented laws in the
    locales \<open>lmdb\<close> (calls that return) and \<open>lmdb_live\<close> (calls with admissible arguments do return).
    \<open>Lmdb_Mem\<close>: an executable store that satisfies both.
  \<^item> \<open>State_Machine\<close>: \<open>LmdbStateMachine\<close> of \<open>state_machine.rs\<close>. \<open>Apply\<close>: applying committed entries
    refines a fold on finite maps. \<open>Recovery\<close>: reachable states, restart, crash, snapshots, reset.
    \<open>Scan\<close>: the scans.
  \<^item> \<open>Wal\<close>, \<open>Wal_Log\<close>: \<open>LmdbWal\<close> of \<open>storage_engine.rs\<close>, the log read as a finite map from
    indices to entries. The entry codecs (prost, bincode) are a record with their round trips as
    the laws of the locale \<open>entry_codec\<close>.
  \<^item> \<open>Dlmdb\<close>: the public API of \<open>db.rs\<close>, with opening and closing. The engine's client is the
    record \<open>client_api\<close>. \<open>Dlmdb_Client\<close>: the logical store at a point in time, and the locale
    \<open>leader_client\<close> of what the client promises on a node that applies its own writes before they are reported, with
    no other writer at the time. \<open>Node\<close>: the properties of the API, on any
    such client; \<open>solo_api\<close> is a one-node engine that satisfies the locale.
    The engine's answers about leadership and membership are the record \<open>engine_api\<close>.
  \<^item> \<open>Available\<close>: the locale \<open>available_client\<close> of an engine that takes every write: each operation
    of the API then runs to its end and does what it says. \<open>Scan_Clock\<close>: the scans once more, with a
    reading of the clock for every value with a TTL. \<open>Client_Reads\<close>: \<open>get_multi\<close>, and a client
    that reads a prefix page by page.
  \<^item> \<open>Replica\<close>: several replicas of one log that remove expired values on their own. \<open>Restart\<close>: log,
    metadata and state machine together, stopped and started again, with the log applied in any chunks. \<open>Interleave\<close>: a scan concurrent
    with the applier, one transition per transaction or atomic store.
  \<^item> \<open>Cluster\<close>: the nodes of a cluster over one committed log, as a step relation: chunks, crashes, also in the
    middle of a chunk, restarts, snapshots taken and installed, reads in two transactions with the removal in the second, resets.
    The field \<open>lost\<close> has the keys of which a read removed a newer value than the one it had fetched.
    \<open>Orderly\<close>: the runs of it without crashes and with exact snapshot labels, in which every node holds the
    contents of a prefix of the log, less the keys it has lost. The locale \<open>agreement\<close> is a relation between contents that all
    operations keep, with two instances, and \<open>orderly_cluster\<close> is a cluster over a store with such a relation.
    \<open>Wal_Race\<close>: the Raft log shared by tasks, each operation a transaction and an assignment of \<open>last_index\<close>.
  \<^item> \<open>Http\<close>: the server crate: handlers, error mapping, layers, health check. \<open>Server\<close>: the router,
    sessions of requests, and the commands of \<open>main.rs\<close>. \<open>Concurrent\<close>: requests in parallel to the servers of several nodes, which
    apply one log at their own pace, a
    history of invocations and responses, and what it means that the history is linearizable. The locale \<open>replicated_client\<close>
    is what the engine promises a cluster, with the engine \<open>shared_api\<close> on a shared log as its instance, and \<open>cluster_service\<close>
    are servers on such an engine. Eventual reads answer from the node's own store and may be stale.
  \<^item> \<open>Cas_Loop\<close>, \<open>Program\<close>, \<open>Example_Single\<close>, \<open>Example_Cluster\<close>: the programs of \<open>examples/\<close> from
    opening the node to closing it, with every line they print. \<open>Program\<close> has the constructs
    and a triple \<open>runs\<close> with one rule per operation of the API, also after writes of other nodes.

  \<^bold>\<open>Conventions\<close>

  A method that changes \<open>self\<close> returns its result and the new state. \<open>Result\<close> is a sum with the error
  on the left, \<open>?\<close> is \<open>and_then\<close> after \<open>map_err\<close>. A computation that may panic has type \<open>exec\<close>; where
  Rust's arithmetic traps in debug builds and wraps in release builds, a flag \<open>checks\<close> selects the
  build, since the workspace sets neither. \<open>u64\<close> is a 64-bit word and \<open>usize\<close> a natural number or a
  64-bit word. The loops of the library and the server run over finite lists or iterators and are
  structurally recursive here; \<open>next_prefix\<close> has a measure. The compare-and-swap loop of the
  examples may run for ever and is a partial function, for which it is proved when it ends and when
  it does not. The client that reads page by page has fuel, one unit a page; any fuel above the
  number of entries divided by the page size is enough. Every reading of the clock is a value
  of its own.

  \<^bold>\<open>What the lemmas show\<close>

  Refinement lemmas inside the locales say what each operation does to the abstract contents
  when it returns \<open>Ok\<close>; progress lemmas say that on a healthy disk it does; frame lemmas say that an
  error changes nothing. The numbered properties combine them: exactness of applying, of the
  log operations and of the scans; invariants of all reachable states; recovery after a restart,
  a crash or a snapshot; the convergence of a cluster on its log without compare-and-swap and what becomes of a logged write, by one
  preservation lemma per step, and that reads see a prefix of the log where nothing crashes, each with the keys that a racing removal
  may have taken as its exception; the life of a TTL value; the servers, linearizable under concurrent requests but for eventual reads,
  and the examples as whole programs;
  and the cases in which the program does not do what its documentation says, as theorems about
  the same definitions (a prefix scan that leaves its prefix, replicas that diverge, a write lost
  to a racing removal, keys that block the log, a loop that spins on a TTL value, a scan whose
  revision is not that of its entries, a batch read in half after a crash, a snapshot labelled with an older
  position than its contents, a truncation that hides an entry).

  \<^bold>\<open>What is not modelled\<close>

  LMDB, d-engine (elections, replication, membership), the codecs, the config and toml parsers, axum,
  tower and clap: third-party code that enters as parameters or inputs; of axum and tower the
  documented answers to unknown paths and methods, to HEAD and to bodies above their limits are in
  \<open>Http\<close> and \<open>Server\<close>. Logging. \<open>lib.rs\<close>, which only declares and exports modules. Threads: operations are atomic steps, except
  where the interleaving matters: \<open>Interleave\<close> (a scan and the applier), \<open>Replica\<close>, \<open>Cluster\<close> and \<open>Orderly\<close> (the two
  transactions of a read), \<open>Concurrent\<close> (requests), \<open>Wal_Race\<close> (the Raft log), the counter loops, where
  other nodes write between the read and the swap, and the cluster example, where they also write between any two calls.
  The properties of \<open>Cluster\<close> are about logs without compare-and-swap, because
  \<open>Recovery\<close> and \<open>Replica\<close> show that nodes otherwise diverge. \<open>Concurrent\<close> starts from values without a TTL for the same reason,
  has no crashes, and a write that the engine reports as failed is committed by then or never.
  The scans of \<open>Dlmdb\<close> take one reading of the clock; \<open>Scan_Clock\<close> says what a reading per value changes.
  A blocking task that panics (its \<open>JoinError\<close>), and what a failed open leaves on disk.
\<close>

end
